(* ===== verification/Prelude.thy ===== *)
theory Prelude
  imports Main "HOL-Library.Word"
begin

text \<open>
  Shared vocabulary of the development: the C integer types of the kernel as words, the outcome
  type that every fallible or blocking operation returns, C \<open>for\<close> loops over unsigned counters,
  polling loops over a device, and the arithmetic facts on aligned words that the components use.
\<close>

unbundle bit_operations_syntax

section \<open>Machine integers\<close>

type_synonym u8 = "8 word"
type_synonym u16 = "16 word"
type_synonym u32 = "32 word"
type_synonym u64 = "64 word"

text \<open>
  A C \<open>int\<close> is an \<open>int\<close> kept in range by \<open>s32\<close>, the two's complement reading of the low 32 bits;
  \<open>s32_of\<close> reads the low half of a 64-bit argument slot that way.
\<close>

definition s32 :: "int \<Rightarrow> int" where
  "s32 x = signed_take_bit 31 x"

definition s32_of :: "u64 \<Rightarrow> int" where
  "s32_of w = sint (ucast w :: u32)"

named_theorems outcome_simps
named_theorems word_nat

section \<open>Outcomes\<close>

text \<open>
  \<open>Ret a s\<close>: the operation returned \<open>a\<close> in state \<open>s\<close>. \<open>Panic s\<close>: the kernel stopped in \<open>kpanic\<close>
  (which does not return). \<open>Hang\<close>: a loop of the operation never ends. \<open>Undef\<close>: the C code has
  undefined behaviour (it reads past a terminator, divides by zero, overruns a local buffer).
\<close>

datatype ('a, 's) outcome = Ret 'a 's | Panic 's | Hang | Undef

definition andthen ::
  "('a, 's) outcome \<Rightarrow> ('a \<Rightarrow> 's \<Rightarrow> ('b, 's) outcome) \<Rightarrow> ('b, 's) outcome" where
  "andthen r k = (case r of Ret a s \<Rightarrow> k a s | Panic s \<Rightarrow> Panic s | Hang \<Rightarrow> Hang | Undef \<Rightarrow> Undef)"

text \<open>\<open>returns r Q\<close>: the operation returns, and value and final state satisfy \<open>Q\<close>.\<close>

definition returns :: "('a, 's) outcome \<Rightarrow> ('a \<Rightarrow> 's \<Rightarrow> bool) \<Rightarrow> bool" where
  "returns r Q \<longleftrightarrow> (case r of Ret a s \<Rightarrow> Q a s | _ \<Rightarrow> False)"

lemma andthen_simps [simp, outcome_simps]:
  "andthen (Ret a s) k = k a s"
  "andthen (Panic s) k = Panic s"
  "andthen Hang k = Hang"
  "andthen Undef k = Undef"
  by (simp_all add: andthen_def)

lemma andthen_cong [fundef_cong]:
  assumes "r = r'" and "\<And>a s. r' = Ret a s \<Longrightarrow> k a s = k' a s"
  shows "andthen r k = andthen r' k'"
  using assms by (cases r') auto

lemma andthen_assoc: "andthen (andthen r f) g = andthen r (\<lambda>a s. andthen (f a s) g)"
  by (cases r) auto

lemma andthen_Ret_eq: "andthen r k = Ret b t \<longleftrightarrow> (\<exists>a s. r = Ret a s \<and> k a s = Ret b t)"
  by (cases r) auto

lemma returns_simps [simp, outcome_simps]:
  "returns (Ret a s) Q = Q a s"
  "\<not> returns (Panic s) Q"
  "\<not> returns Hang Q"
  "\<not> returns Undef Q"
  by (simp_all add: returns_def)

lemma returns_andthen [simp, outcome_simps]:
  "returns (andthen r k) Q = returns r (\<lambda>a s. returns (k a s) Q)"
  by (cases r) auto

lemma returns_conv: "returns r Q \<longleftrightarrow> (\<exists>a s. r = Ret a s \<and> Q a s)"
  by (cases r) auto

lemma returnsE:
  assumes "returns r Q"
  obtains a s where "r = Ret a s" and "Q a s"
  using assms by (cases r) auto

lemma returns_mono [mono]: "(\<And>a s. Q a s \<longrightarrow> Q' a s) \<Longrightarrow> returns r Q \<longrightarrow> returns r Q'"
  by (cases r) auto

lemma returns_weaken: "returns r Q \<Longrightarrow> (\<And>a s. Q a s \<Longrightarrow> Q' a s) \<Longrightarrow> returns r Q'"
  by (cases r) auto

lemma returns_if [simp]:
  "returns (if b then r else r') Q = (if b then returns r Q else returns r' Q)"
  by simp

section \<open>C for loops over unsigned counters\<close>

text \<open>
  \<open>for_word i n body s\<close> is \<open>for (; i < n; i++) body\<close> on an unsigned counter of any width: the
  bound is tested before the body, so the increment never wraps. \<open>for_out\<close> is the same loop
  around a body that may fail.
\<close>

lemma unat_Suc_less: "i < n \<Longrightarrow> unat (i + 1) = Suc (unat i)" for i n :: "'n::len word"
proof -
  assume "i < n"
  then have "unat i < unat n" by (simp add: word_less_nat_alt)
  then have "Suc (unat i) < 2 ^ LENGTH('n)"
    using unsigned_less [of n, where ?'a = nat] by linarith
  then show ?thesis by (simp add: unat_word_ariths(1))
qed

function for_word ::
  "'n::len word \<Rightarrow> 'n word \<Rightarrow> ('n word \<Rightarrow> 's \<Rightarrow> 's) \<Rightarrow> 's \<Rightarrow> 's" where
  "for_word i n body s = (if i < n then for_word (i + 1) n body (body i s) else s)"
  by pat_completeness auto
termination
  by (relation "measure (\<lambda>(i, n, body, s). unat n - unat i)")
    (auto simp: unat_Suc_less word_less_nat_alt)

function for_out ::
  "'n::len word \<Rightarrow> 'n word \<Rightarrow> ('n word \<Rightarrow> 's \<Rightarrow> (unit, 's) outcome) \<Rightarrow> 's \<Rightarrow> (unit, 's) outcome" where
  "for_out i n body s =
     (if i < n then andthen (body i s) (\<lambda>_ s. for_out (i + 1) n body s) else Ret () s)"
  by pat_completeness auto
termination
  by (relation "measure (\<lambda>(i, n, body, s). unat n - unat i)")
    (auto simp: unat_Suc_less word_less_nat_alt)

text \<open>
  \<open>for_step i n step body s\<close> is \<open>for (; i < n; i += step) body\<close>. When \<open>i + step\<close> wraps around, the
  counter starts again below \<open>n\<close>; the bodies of the kernel's loops are idempotent, so that second round
  repeats for ever.
\<close>

function for_step ::
  "'n::len word \<Rightarrow> 'n word \<Rightarrow> 'n word \<Rightarrow> ('n word \<Rightarrow> 's \<Rightarrow> (unit, 's) outcome) \<Rightarrow> 's \<Rightarrow> (unit, 's) outcome" where
  "for_step i n step body s =
     (if i < n then
        andthen (body i s) (\<lambda>_ s. if i < i + step then for_step (i + step) n step body s else Hang)
      else Ret () s)"
  by pat_completeness auto
termination
  by (relation "measure (\<lambda>(i, n, step, body, s). unat n - unat i)")
    (auto simp: word_less_nat_alt)

declare for_word.simps [simp del] for_out.simps [simp del] for_step.simps [simp del]

lemma for_word_empty: "\<not> i < n \<Longrightarrow> for_word i n body s = s"
  by (simp add: for_word.simps [of i n])

text \<open>The loop as a fold over the counter's values, and an invariant rule indexed by the counter.\<close>

lemma for_word_fold:
  "for_word i n body s = fold body (map of_nat [unat i..<unat n]) s" for i n :: "'n::len word"
proof (induction i n body s rule: for_word.induct)
  case (1 i n body s)
  show ?case
  proof (cases "i < n")
    case True
    then have "[unat i..<unat n] = unat i # [unat (i + 1)..<unat n]"
      by (simp add: unat_Suc_less upt_conv_Cons word_less_nat_alt)
    with True "1.IH" show ?thesis by (simp add: for_word.simps [of i])
  next
    case False
    then show ?thesis by (simp add: for_word.simps [of i] word_less_nat_alt)
  qed
qed

lemma for_word_rule:
  assumes "P (unat i) s" and "i \<le> n"
    and "\<And>j s. P j s \<Longrightarrow> unat i \<le> j \<Longrightarrow> j < unat n \<Longrightarrow> P (Suc j) (body (of_nat j) s)"
  shows "P (unat n) (for_word i n body s)"
proof -
  have "P (unat i + k) (fold body (map of_nat [unat i..<unat i + k]) s)"
    if "unat i + k \<le> unat n" for k
    using that
  proof (induction k)
    case 0
    with assms(1) show ?case by simp
  next
    case (Suc k)
    then have "P (Suc (unat i + k)) (body (of_nat (unat i + k)) (fold body (map of_nat [unat i..<unat i + k]) s))"
      by (intro assms(3)) auto
    then show ?case by simp
  qed
  from this [of "unat n - unat i"] show ?thesis
    using assms(2) by (simp add: for_word_fold word_le_nat_alt)
qed

lemma for_out_rule:
  assumes "P (unat i) s" and "i \<le> n"
    and "\<And>j s. P (unat j) s \<Longrightarrow> i \<le> j \<Longrightarrow> j < n \<Longrightarrow> returns (body j s) (\<lambda>_. P (Suc (unat j)))"
  shows "returns (for_out i n body s) (\<lambda>_. P (unat n))"
  using assms
proof (induction i n body s rule: for_out.induct)
  case (1 i n body s)
  show ?case
  proof (cases "i < n")
    case True
    then obtain s' where s': "body i s = Ret () s'" and P': "P (unat (i + 1)) s'"
      using "1.prems"(1) "1.prems"(3) [of i s] by (auto simp: returns_conv unat_Suc_less)
    have le: "i + 1 \<le> n" and lt: "i \<le> i + 1"
      using True by (simp_all add: word_le_nat_alt word_less_nat_alt unat_Suc_less)
    have "returns (for_out (i + 1) n body s') (\<lambda>_. P (unat n))"
    proof (rule "1.IH" [OF True s' P' le])
      fix j s assume "P (unat j) s" "i + 1 \<le> j" "j < n"
      then show "returns (body j s) (\<lambda>_. P (Suc (unat j)))"
        using "1.prems"(3) lt by (meson order_trans)
    qed
    with True s' show ?thesis by (simp add: for_out.simps [of i])
  next
    case False
    with "1.prems" have "i = n" by simp
    with "1.prems"(1) show ?thesis by (simp add: for_out.simps [of n])
  qed
qed

text \<open>
  A stepped loop whose last increment does not wrap: \<open>P k\<close> holds after \<open>k\<close> rounds.
\<close>

lemma for_step_rule:
  fixes n step :: "'n::len word"
  assumes "P 0 s" and "0 < step" and "unat n + unat step \<le> 2 ^ LENGTH('n)"
    and "\<And>k s. P k s \<Longrightarrow> k * unat step < unat n \<Longrightarrow> returns (body (of_nat (k * unat step)) s) (\<lambda>_. P (Suc k))"
  shows "returns (for_step 0 n step body s) (\<lambda>_ t. \<exists>k. P k t \<and> unat n \<le> k * unat step)"
proof -
  have pos: "0 < unat step" using assms(2) by (simp add: word_less_nat_alt)
  have "returns (for_step (of_nat (k * unat step)) n step body s) (\<lambda>_ t. \<exists>k. P k t \<and> unat n \<le> k * unat step)"
    if "P k s" "k * unat step < unat n + unat step" for k s
    using that
  proof (induction "unat n - k * unat step" arbitrary: k s rule: less_induct)
    case less
    let ?i = "of_nat (k * unat step) :: 'n word"
    have i: "unat ?i = k * unat step"
      using less.prems(2) assms(3) unsigned_less [of n, where ?'a = nat] by (simp add: unat_of_nat del: unsigned_less of_nat_mult)
    show ?case
    proof (cases "k * unat step < unat n")
      case True
      obtain s' where s': "body ?i s = Ret () s'" "P (Suc k) s'"
        using assms(4) [OF less.prems(1) True] by (auto simp: returns_conv)
      have nxt: "?i + step = of_nat (Suc k * unat step)" by simp
      show ?thesis
      proof (cases "Suc k * unat step = 2 ^ LENGTH('n)")
        case False
        have lt: "Suc k * unat step < 2 ^ LENGTH('n)"
          using True assms(3) False by simp
        have "unat (?i + step) = Suc k * unat step"
          unfolding nxt using lt by (simp add: unat_of_nat del: of_nat_mult of_nat_Suc mult_Suc)
        then have "?i < ?i + step" using pos i by (simp add: word_less_nat_alt del: of_nat_mult)
        moreover have "returns (for_step (of_nat (Suc k * unat step)) n step body s') (\<lambda>_ t. \<exists>k. P k t \<and> unat n \<le> k * unat step)"
          using True pos s'(2) by (intro less.hyps) (simp_all add: diff_less_mono2)
        ultimately show ?thesis
          using True i s'(1) unfolding nxt [symmetric]
          by (subst for_step.simps) (simp add: word_less_nat_alt del: of_nat_mult)
      next
        case eq: True
        then show ?thesis using True assms(3) pos by simp
      qed
    next
      case False
      then show ?thesis
        using i less.prems(1) by (subst for_step.simps) (auto simp: word_less_nat_alt simp del: of_nat_mult)
    qed
  qed
  from this [of 0 s] assms(1) pos show ?thesis by simp
qed

section \<open>Polling a device\<close>

text \<open>
  A busy-wait loop reads a device until a condition holds. The device's value at its \<open>t\<close>-th read
  is a function of \<open>t\<close>, so the loop returns the first \<open>t\<close> at which the condition holds, and \<open>None\<close>
  (the loop never ends) when there is none.
\<close>

partial_function (option) poll :: "(nat \<Rightarrow> bool) \<Rightarrow> nat \<Rightarrow> nat option" where
  "poll ready t = (if ready t then Some t else poll ready (Suc t))"

declare poll.simps [code]

lemma poll_hit: "P t \<Longrightarrow> poll P t = Some t"
  by (simp add: poll.simps)

lemma poll_finds:
  assumes "P (t + k)"
  shows "\<exists>t'. poll P t = Some t' \<and> t \<le> t' \<and> t' \<le> t + k \<and> P t' \<and> (\<forall>u. t \<le> u \<and> u < t' \<longrightarrow> \<not> P u)"
  using assms
proof (induction k arbitrary: t)
  case 0
  then show ?case by (auto simp: poll_hit)
next
  case (Suc k)
  show ?case
  proof (cases "P t")
    case True
    then show ?thesis by (auto simp: poll_hit)
  next
    case False
    from Suc.prems have "P (Suc t + k)" by simp
    from Suc.IH [OF this] obtain t' where t': "poll P (Suc t) = Some t'" "Suc t \<le> t'"
      "t' \<le> Suc t + k" "P t'" "\<forall>u. Suc t \<le> u \<and> u < t' \<longrightarrow> \<not> P u" by blast
    then have "poll P t = Some t'" using False by (simp add: poll.simps [of P t])
    moreover have "\<forall>u. t \<le> u \<and> u < t' \<longrightarrow> \<not> P u"
      using t'(5) False by (metis Suc_leI le_neq_implies_less)
    ultimately show ?thesis using t' by auto
  qed
qed

lemma poll_returns: "poll P t = Some t' \<Longrightarrow> P t' \<and> t \<le> t'"
proof (rule poll.raw_induct [where P = "\<lambda>ready t t'. ready t' \<and> t \<le> t'"], goal_cases)
  case (1 f Q t t')
  then show ?case by (auto split: if_splits) fastforce
qed

lemma poll_never: "(\<And>u. t \<le> u \<Longrightarrow> \<not> P u) \<Longrightarrow> poll P t = None"
  by (cases "poll P t") (auto dest: poll_returns)

section \<open>C while loops\<close>

text \<open>
  \<open>loop test body a s\<close> is a \<open>while\<close> loop over a local variable \<open>a\<close> and the state: as long as the test holds, the
  body gives the next value, or stops the kernel. A loop that never ends is \<open>Hang\<close>.
\<close>

partial_function (option) loop_from ::
  "('a \<Rightarrow> 's \<Rightarrow> bool) \<Rightarrow> ('a \<Rightarrow> 's \<Rightarrow> ('a, 's) outcome) \<Rightarrow> 'a \<Rightarrow> 's \<Rightarrow> ('a, 's) outcome option" where
  "loop_from test body a s =
     (if test a s then
        (case body a s of Ret a s \<Rightarrow> loop_from test body a s | Panic s \<Rightarrow> Some (Panic s) | Hang \<Rightarrow> Some Hang | Undef \<Rightarrow> Some Undef)
      else Some (Ret a s))"

declare loop_from.simps [code]

definition loop :: "('a \<Rightarrow> 's \<Rightarrow> bool) \<Rightarrow> ('a \<Rightarrow> 's \<Rightarrow> ('a, 's) outcome) \<Rightarrow> 'a \<Rightarrow> 's \<Rightarrow> ('a, 's) outcome" where
  "loop test body a s = (case loop_from test body a s of None \<Rightarrow> Hang | Some r \<Rightarrow> r)"

lemma loop_unfold: "loop test body a s = (if test a s then andthen (body a s) (loop test body) else Ret a s)"
proof (cases "test a s")
  case True
  then show ?thesis unfolding loop_def by (subst loop_from.simps) (cases "body a s"; simp add: loop_def)
next
  case False
  then show ?thesis unfolding loop_def by (subst loop_from.simps) simp
qed

text \<open>Total correctness: an invariant that the body keeps while a measure falls.\<close>

lemma loop_rule:
  fixes M :: "'a \<Rightarrow> 's \<Rightarrow> nat"
  assumes "I a s"
    and "\<And>a s. I a s \<Longrightarrow> test a s \<Longrightarrow> returns (body a s) (\<lambda>a' s'. I a' s' \<and> M a' s' < M a s)"
  shows "returns (loop test body a s) (\<lambda>a s. I a s \<and> \<not> test a s)"
  using assms(1)
proof (induction "M a s" arbitrary: a s rule: less_induct)
  case less
  show ?case
  proof (cases "test a s")
    case True
    obtain a' s' where b: "body a s = Ret a' s'" "I a' s'" "M a' s' < M a s"
      using assms(2) [OF less.prems True] by (auto simp: returns_conv)
    from less.hyps [OF b(3,2)] show ?thesis using True b(1) by (simp add: loop_unfold [of test body a s])
  next
    case False
    then show ?thesis using less.prems by (simp add: loop_unfold [of test body a s])
  qed
qed

text \<open>A loop whose test holds for ever and whose body always returns does not end.\<close>

lemma loop_from_inv:
  assumes "loop_from test body a s = Some r" and "\<And>a s. I a s \<Longrightarrow> test a s \<and> returns (body a s) I"
  shows "\<not> I a s"
proof -
  have "(\<forall>a s. I a s \<longrightarrow> test a s \<and> returns (body a s) I) \<longrightarrow> \<not> I a s"
  proof (rule loop_from.raw_induct
      [where P = "\<lambda>test body a s r. (\<forall>a s. I a s \<longrightarrow> test a s \<and> returns (body a s) I) \<longrightarrow> \<not> I a s", OF _ assms(1)], goal_cases)
    case (1 f test body a s r)
    show ?case
    proof (intro impI notI)
      assume *: "\<forall>a s. I a s \<longrightarrow> test a s \<and> returns (body a s) I" and "I a s"
      then obtain a' s' where b: "body a s = Ret a' s'" "I a' s'" "test a s" unfolding returns_conv by blast
      then have "f test body a' s' = Some r" using 1(2) by simp
      with 1(1) * b(2) show False by blast
    qed
  qed
  then show ?thesis using assms(2) by blast
qed

lemma loop_hangs:
  assumes "I a s" and "\<And>a s. I a s \<Longrightarrow> test a s \<and> returns (body a s) I"
  shows "loop test body a s = Hang"
  using loop_from_inv [of test body a s _ I] assms by (cases "loop_from test body a s") (auto simp: loop_def)

section \<open>Bounds and aligned words\<close>

lemma unat64_bound: "unat (w :: u64) < 18446744073709551616"
  using unsigned_less [of w, where ?'a = nat] by (simp del: unsigned_less)

lemma unat32_bound: "unat (w :: u32) < 4294967296"
  using unsigned_less [of w, where ?'a = nat] by (simp del: unsigned_less)

lemma align_down_conv: "w AND NOT (mask n) = push_bit n (drop_bit n w)" for w :: "'n::len word"
  by (rule bit_eqI) (auto simp: bit_simps)

lemma unat_align_down [word_nat]:
  "unat (w AND NOT (mask n)) = unat w div 2 ^ n * 2 ^ n" for w :: "'n::len word"
proof -
  have "unat w div 2 ^ n * 2 ^ n < 2 ^ LENGTH('n)"
    by (rule le_less_trans [OF _ unsigned_less [of w, where ?'a = nat]]) simp
  moreover have "unat (push_bit n (drop_bit n w))
      = take_bit LENGTH('n) (push_bit n (drop_bit n (unat w)))"
    by (simp only: unsigned_push_bit_eq unsigned_drop_bit_eq take_bit_nat_eq_self [OF unsigned_less])
  ultimately show ?thesis
    by (simp only: align_down_conv) (simp add: push_bit_eq_mult drop_bit_eq_div take_bit_eq_mod)
qed

end
