(* ===== verification/Memory.thy ===== *)
theory Memory
  imports Prelude
begin

text \<open>
  Byte-addressed memory and \<^verbatim>\<open>kernel/mem.c\<close>. Memory is a total function from 64-bit addresses to
  bytes: the kernel runs in ring 0 on an identity mapping, so a stray pointer reads and writes some
  byte of it. Fields of C structs are little-endian loads and stores at the offsets the x86-64 ABI
  gives them. The theory proves that \<open>memcpy\<close>, \<open>memmove\<close>, \<open>memset\<close> and \<open>memcmp\<close> do what their names
  promise and gives the rules for a load after a store that the other components use.
\<close>

type_synonym memory = "u64 \<Rightarrow> u8"

section \<open>Regions\<close>

definition region :: "u64 \<Rightarrow> nat \<Rightarrow> u64 set" where
  "region a n = {x. unat (x - a) < n}"

text \<open>\<open>separate a n b k\<close>: \<open>n\<close> bytes at \<open>a\<close> and \<open>k\<close> bytes at \<open>b\<close> do not overlap (both non-empty).\<close>

definition separate :: "u64 \<Rightarrow> nat \<Rightarrow> u64 \<Rightarrow> nat \<Rightarrow> bool" where
  "separate a n b k \<longleftrightarrow> k \<le> unat (a - b) \<and> n \<le> unat (b - a)"

definition fits :: "u64 \<Rightarrow> nat \<Rightarrow> bool" where
  "fits a n \<longleftrightarrow> unat a + n \<le> 2 ^ 64"

section \<open>The routines of mem.c\<close>

definition memcpy :: "u64 \<Rightarrow> u64 \<Rightarrow> u64 \<Rightarrow> memory \<Rightarrow> memory" where
  "memcpy dest src n m = for_word 0 n (\<lambda>i m. m(dest + i := m (src + i))) m"

function memmove_down :: "u64 \<Rightarrow> u64 \<Rightarrow> u64 \<Rightarrow> memory \<Rightarrow> memory" where
  "memmove_down dest src i m =
     (if i > 0 then memmove_down dest src (i - 1) (m(dest + (i - 1) := m (src + (i - 1)))) else m)"
  by pat_completeness auto
termination
  by (relation "measure (\<lambda>(d, s, i, m). unat i)")
    (auto simp: word_less_nat_alt intro!: unat_gt_0 [THEN iffD2] measure_unat)

definition memmove :: "u64 \<Rightarrow> u64 \<Rightarrow> u64 \<Rightarrow> memory \<Rightarrow> memory" where
  "memmove dest src n m =
     (if dest < src then for_word 0 n (\<lambda>i m. m(dest + i := m (src + i))) m
      else memmove_down dest src n m)"

text \<open>The \<open>int val\<close> of \<open>memset\<close> is converted to \<open>uint8_t\<close> at each store.\<close>

definition memset :: "u64 \<Rightarrow> int \<Rightarrow> u64 \<Rightarrow> memory \<Rightarrow> memory" where
  "memset dest val n m = for_word 0 n (\<lambda>i m. m(dest + i := word_of_int val)) m"

function memcmp_from :: "u64 \<Rightarrow> u64 \<Rightarrow> u64 \<Rightarrow> u64 \<Rightarrow> memory \<Rightarrow> int" where
  "memcmp_from a b i n m =
     (if i < n then
        if m (a + i) < m (b + i) then -1
        else if m (a + i) > m (b + i) then 1
        else memcmp_from a b (i + 1) n m
      else 0)"
  by pat_completeness auto
termination
  by (relation "measure (\<lambda>(a, b, i, n, m). unat n - unat i)")
    (auto simp: unat_Suc_less word_less_nat_alt)

definition memcmp :: "u64 \<Rightarrow> u64 \<Rightarrow> u64 \<Rightarrow> memory \<Rightarrow> int" where
  "memcmp a b n m = memcmp_from a b 0 n m"

declare memmove_down.simps [simp del] memcmp_from.simps [simp del]

section \<open>Little-endian loads and stores\<close>

fun le_nat :: "u8 list \<Rightarrow> nat" where
  "le_nat [] = 0"
| "le_nat (b # bs) = unat b + 256 * le_nat bs"

fun le_bytes :: "nat \<Rightarrow> nat \<Rightarrow> u8 list" where
  "le_bytes 0 v = []"
| "le_bytes (Suc n) v = of_nat (v mod 256) # le_bytes n (v div 256)"

definition read_bytes :: "memory \<Rightarrow> u64 \<Rightarrow> nat \<Rightarrow> u8 list" where
  "read_bytes m a n = map (\<lambda>i. m (a + of_nat i)) [0..<n]"

definition write_bytes :: "memory \<Rightarrow> u64 \<Rightarrow> u8 list \<Rightarrow> memory" where
  "write_bytes m a bs = (\<lambda>x. if unat (x - a) < length bs then bs ! unat (x - a) else m x)"

definition load :: "nat \<Rightarrow> memory \<Rightarrow> u64 \<Rightarrow> nat" where
  "load n m a = le_nat (read_bytes m a n)"

definition store :: "nat \<Rightarrow> memory \<Rightarrow> u64 \<Rightarrow> nat \<Rightarrow> memory" where
  "store n m a v = write_bytes m a (le_bytes n v)"

definition load8 :: "memory \<Rightarrow> u64 \<Rightarrow> u8" where "load8 m a = m a"
definition load16 :: "memory \<Rightarrow> u64 \<Rightarrow> u16" where "load16 m a = of_nat (load 2 m a)"
definition load32 :: "memory \<Rightarrow> u64 \<Rightarrow> u32" where "load32 m a = of_nat (load 4 m a)"
definition load64 :: "memory \<Rightarrow> u64 \<Rightarrow> u64" where "load64 m a = of_nat (load 8 m a)"

definition store8 :: "memory \<Rightarrow> u64 \<Rightarrow> u8 \<Rightarrow> memory" where "store8 m a v = m(a := v)"
definition store16 :: "memory \<Rightarrow> u64 \<Rightarrow> u16 \<Rightarrow> memory" where "store16 m a v = store 2 m a (unat v)"
definition store32 :: "memory \<Rightarrow> u64 \<Rightarrow> u32 \<Rightarrow> memory" where "store32 m a v = store 4 m a (unat v)"
definition store64 :: "memory \<Rightarrow> u64 \<Rightarrow> u64 \<Rightarrow> memory" where "store64 m a v = store 8 m a (unat v)"

named_theorems mem_frame

section \<open>Facts on regions\<close>

lemma region_iff: "x \<in> region a n \<longleftrightarrow> unat (x - a) < n"
  by (simp add: region_def)

lemma unat_off: "k < 2 ^ 64 \<Longrightarrow> unat (a + of_nat k - a) = k" for a :: u64
  by (simp add: unat_of_nat)

lemma unat_of_nat_less: "k < 2 ^ 64 \<Longrightarrow> unat (of_nat k :: u64) = k"
  by (simp add: unat_of_nat)

lemma addr_at: "k < 2 ^ 64 \<Longrightarrow> x = a + of_nat k \<longleftrightarrow> unat (x - a) = k" for a x :: u64
proof
  assume "unat (x - a) = k"
  then have "of_nat k = x - a" by (metis of_nat_unat ucast_id)
  then show "x = a + of_nat k" by simp
qed (simp add: unat_of_nat_less)

lemma region_elem: "k < n \<Longrightarrow> n \<le> 2 ^ 64 \<Longrightarrow> a + of_nat k \<in> region a n"
  by (simp add: region_iff unat_of_nat_less)

lemma unat_minus_swap: "a \<noteq> b \<Longrightarrow> unat (b - a) = 2 ^ 64 - unat (a - b)" for a b :: u64
proof -
  assume "a \<noteq> b"
  then have "unat a \<noteq> unat b" by (simp add: word_unat_eq_iff)
  then show ?thesis
    using unat64_bound [of a] unat64_bound [of b] by (auto simp: unat_sub_if')
qed

lemma separate_sym: "separate a n b k = separate b k a n"
  by (auto simp: separate_def)

lemma separate_disjoint:
  assumes "separate a n b k" and "x \<in> region a n"
  shows "x \<notin> region b k"
proof
  assume xb: "x \<in> region b k"
  have eq: "x - b = (x - a) + (a - b)" by simp
  show False
  proof (cases "a = b")
    case True
    with assms xb show False by (simp add: separate_def region_iff)
  next
    case False
    then have "n \<le> 2 ^ 64 - unat (a - b)" and k: "k \<le> unat (a - b)"
      using assms(1) unat_minus_swap [OF False] by (simp_all add: separate_def)
    then have "unat (x - a) + unat (a - b) < 2 ^ 64"
      using assms(2) by (simp add: region_iff)
    then have "unat (x - b) = unat (x - a) + unat (a - b)"
      by (subst eq) (rule unat_add_lem [where 'a = 64, simplified, THEN iffD1], simp)
    with k xb show False by (simp add: region_iff)
  qed
qed

lemma separate_by_order:
  assumes "unat a + n \<le> unat b" and "fits b k" and "0 < n"
  shows "separate a n b k"
proof -
  have "unat (b - a) = unat b - unat a"
    using assms(1) by (intro unat_sub) (simp add: word_le_nat_alt)
  moreover have "unat (a - b) \<ge> k" if "a \<noteq> b"
    using that assms unat_minus_swap [of b a] \<open>unat (b - a) = unat b - unat a\<close>
    by (simp add: fits_def)
  ultimately show ?thesis
    using assms by (cases "a = b") (auto simp: separate_def fits_def)
qed

section \<open>Facts on the copying loops\<close>

lemma copy_forward:
  fixes n :: u64 and m :: memory
  assumes "k \<le> unat n" and safe: "\<And>j. j < unat n \<Longrightarrow> \<not> unat (src + of_nat j - dest) < j"
  shows "fold (\<lambda>i m. m(dest + i := m (src + i))) (map of_nat [0..<k]) m x
    = (if unat (x - dest) < k then m (src + (x - dest)) else m x)"
  using assms(1)
proof (induction k arbitrary: x)
  case 0
  then show ?case by simp
next
  case (Suc k)
  let ?m = "fold (\<lambda>i m. m(dest + i := m (src + i))) (map of_nat [0..<k]) m"
  have k: "k < unat n" "k < 2 ^ 64"
    using Suc.prems unat64_bound [of n] by simp_all
  have src: "?m (src + of_nat k) = m (src + of_nat k)"
    by (subst Suc.IH) (use Suc.prems safe [OF k(1)] in auto)
  have at: "x = dest + of_nat k \<longleftrightarrow> unat (x - dest) = k"
    using k(2) by (rule addr_at)
  have step: "fold (\<lambda>i m. m(dest + i := m (src + i))) (map of_nat [0..<Suc k]) m
      = ?m(dest + of_nat k := m (src + of_nat k))"
    by (simp add: src del: fun_upd_apply)
  show ?case
  proof (cases "x = dest + of_nat k")
    case True
    with at have "unat (x - dest) = k" by blast
    with True show ?thesis unfolding step by simp
  next
    case False
    with at have "unat (x - dest) < Suc k \<longleftrightarrow> unat (x - dest) < k" by auto
    with False show ?thesis unfolding step using Suc.IH [of x] Suc.prems by (simp add: fun_upd_other del: fun_upd_apply)
  qed
qed

lemma copy_backward:
  fixes n :: u64 and m :: memory
  assumes safe: "\<And>j. j < i \<Longrightarrow> \<not> (j < unat (src + of_nat j - dest) \<and> unat (src + of_nat j - dest) < unat n)"
    and "i \<le> unat n"
    and "\<And>x. m' x = (if i \<le> unat (x - dest) \<and> unat (x - dest) < unat n then m (src + (x - dest)) else m x)"
  shows "memmove_down dest src (of_nat i) m' x
    = (if unat (x - dest) < unat n then m (src + (x - dest)) else m x)"
  using assms
proof (induction i arbitrary: m')
  case 0
  then show ?case by (simp add: memmove_down.simps)
next
  case (Suc i)
  have i: "i < 2 ^ 64" "Suc i < 2 ^ 64"
    using Suc.prems(2) unat64_bound [of n] by simp_all
  have pos: "(of_nat (Suc i) :: u64) > 0"
    using i(2) by (metis nat.distinct(1) unat_0 unat_of_nat_less word_gt_0)
  have pred: "(of_nat (Suc i) :: u64) - 1 = of_nat i" by simp
  let ?m = "m'(dest + of_nat i := m' (src + of_nat i))"
  have src: "m' (src + of_nat i) = m (src + of_nat i)"
    using Suc.prems(1) [of i] Suc.prems(3) [of "src + of_nat i"] by auto
  have at: "x = dest + of_nat i \<longleftrightarrow> unat (x - dest) = i" for x
    using i(1) by (rule addr_at)
  have "memmove_down dest src (of_nat i) ?m x
      = (if unat (x - dest) < unat n then m (src + (x - dest)) else m x)"
  proof (rule Suc.IH)
    show "?m x = (if i \<le> unat (x - dest) \<and> unat (x - dest) < unat n then m (src + (x - dest)) else m x)" for x
    proof (cases "x = dest + of_nat i")
      case True
      with at have "unat (x - dest) = i" by blast
      with True src Suc.prems(2) show ?thesis by simp
    next
      case False
      with at [of x] have "Suc i \<le> unat (x - dest) \<longleftrightarrow> i \<le> unat (x - dest)" by auto
      with False show ?thesis by (simp add: Suc.prems(3))
    qed
  qed (use Suc.prems in auto)
  then show ?case
    by (subst memmove_down.simps) (simp only: pos pred if_True)
qed


lemma unat_sub_gt: "dest < src \<Longrightarrow> fits src (unat n) \<Longrightarrow> j < unat n \<Longrightarrow>
    j \<le> unat (src + of_nat j - dest)" for dest src n :: u64
proof -
  assume a: "dest < src" "fits src (unat n)" "j < unat n"
  then have j: "unat (of_nat j :: u64) = j" using unat64_bound [of n] by (simp add: unat_of_nat_less)
  have "unat (src + of_nat j) = unat src + j"
    using a j by (subst unat_add_lem [where 'a = 64, simplified, THEN iffD1]) (simp_all add: fits_def)
  then show ?thesis
    using a(1) by (auto simp: word_less_nat_alt unat_sub_if')
qed

lemma unat_sub_le: "\<not> dest < src \<Longrightarrow> fits dest (unat n) \<Longrightarrow> j < unat n \<Longrightarrow>
    \<not> (j < unat (src + of_nat j - dest) \<and> unat (src + of_nat j - dest) < unat n)"
  for dest src n :: u64
proof -
  assume a: "\<not> dest < src" "fits dest (unat n)" "j < unat n"
  then have j: "unat (of_nat j :: u64) = j" using unat64_bound [of n] by (simp add: unat_of_nat_less)
  have "unat (src + of_nat j) = unat src + j"
    using a j by (subst unat_add_lem [where 'a = 64, simplified, THEN iffD1]) (simp_all add: fits_def word_less_nat_alt)
  then show ?thesis
    using a by (auto simp: word_less_nat_alt unat_sub_if' fits_def)
qed

section \<open>Specifications of mem.c\<close>

text \<open>\<open>moved dest src n m\<close>: memory \<open>m\<close> with the \<open>n\<close> bytes at \<open>src\<close> placed at \<open>dest\<close>, all at once.\<close>

definition moved :: "u64 \<Rightarrow> u64 \<Rightarrow> nat \<Rightarrow> memory \<Rightarrow> memory" where
  "moved dest src n m = (\<lambda>x. if unat (x - dest) < n then m (src + (x - dest)) else m x)"

lemma memcpy_moved:
  assumes "separate dest (unat n) src (unat n)"
  shows "memcpy dest src n m = moved dest src (unat n) m"
proof
  fix x
  have "\<not> unat (src + of_nat j - dest) < j" if "j < unat n" for j
    using separate_disjoint [OF assms, of "src + of_nat j"] region_elem [OF that, of src]
      unat64_bound [of n] that by (auto simp: region_iff)
  then show "memcpy dest src n m x = moved dest src (unat n) m x"
    by (simp add: memcpy_def for_word_fold moved_def copy_forward [where n = n])
qed

lemma memmove_moved:
  assumes "fits dest (unat n)" and "fits src (unat n)"
  shows "memmove dest src n m = moved dest src (unat n) m"
proof (rule ext, cases "dest < src")
  fix x
  case True
  then have "\<not> unat (src + of_nat j - dest) < j" if "j < unat n" for j
    using unat_sub_gt [OF True assms(2) that] by simp
  with True show "memmove dest src n m x = moved dest src (unat n) m x"
    by (simp add: memmove_def for_word_fold moved_def copy_forward [where n = n])
next
  fix x
  case False
  have "memmove_down dest src (of_nat (unat n)) m x = moved dest src (unat n) m x"
    unfolding moved_def using unat_sub_le [OF False assms(1)]
    by (intro copy_backward [where n = n]) auto
  with False show "memmove dest src n m x = moved dest src (unat n) m x"
    by (simp add: memmove_def)
qed

lemma memset_spec:
  "memset dest val n m = (\<lambda>x. if x \<in> region dest (unat n) then word_of_int val else m x)"
proof -
  have "fold (\<lambda>i m. m(dest + i := word_of_int val)) (map of_nat [0..<k]) m x
      = (if unat (x - dest) < k then word_of_int val else m x)" if "k \<le> unat n" for k x
    using that
  proof (induction k)
    case 0
    then show ?case by simp
  next
    case (Suc k)
    have k: "k < 2 ^ 64" using Suc.prems unat64_bound [of n] by simp
    have "x = dest + of_nat k \<longleftrightarrow> unat (x - dest) = k"
      using k by (rule addr_at)
    with Suc show ?case by auto
  qed
  then show ?thesis by (auto simp: memset_def for_word_fold region_iff fun_eq_iff)
qed

text \<open>\<open>memcmp\<close> is the sign of the lexicographic comparison of the two byte strings.\<close>

fun bytes_cmp :: "u8 list \<Rightarrow> u8 list \<Rightarrow> int" where
  "bytes_cmp (x # xs) (y # ys) = (if x < y then -1 else if x > y then 1 else bytes_cmp xs ys)"
| "bytes_cmp _ _ = 0"

lemma memcmp_from_bytes:
  assumes "unat i \<le> unat n"
  shows "memcmp_from a b i n m =
    bytes_cmp (map (\<lambda>k. m (a + of_nat k)) [unat i..<unat n]) (map (\<lambda>k. m (b + of_nat k)) [unat i..<unat n])"
  using assms
proof (induction a b i n m rule: memcmp_from.induct)
  case (1 a b i n m)
  show ?case
  proof (cases "i < n")
    case True
    then have "[unat i..<unat n] = unat i # [unat (i + 1)..<unat n]"
      by (simp add: unat_Suc_less upt_conv_Cons word_less_nat_alt)
    with True 1 show ?thesis
      by (simp add: memcmp_from.simps [of a b i] unat_Suc_less word_less_nat_alt)
  next
    case False
    then show ?thesis by (simp add: memcmp_from.simps [of a b i] word_less_nat_alt)
  qed
qed

lemma memcmp_bytes: "memcmp a b n m = bytes_cmp (read_bytes m a (unat n)) (read_bytes m b (unat n))"
  by (simp add: memcmp_def memcmp_from_bytes read_bytes_def)

lemma bytes_cmp_0: "length xs = length ys \<Longrightarrow> bytes_cmp xs ys = 0 \<longleftrightarrow> xs = ys"
  by (induction xs ys rule: list_induct2) auto

lemma memcmp_0: "memcmp a b n m = 0 \<longleftrightarrow> read_bytes m a (unat n) = read_bytes m b (unat n)"
  by (simp add: memcmp_bytes bytes_cmp_0 read_bytes_def del: map_eq_conv)

section \<open>Loads after stores\<close>

lemma length_le_bytes [simp]: "length (le_bytes n v) = n"
  by (induction n arbitrary: v) auto

lemma length_read_bytes [simp]: "length (read_bytes m a n) = n"
  by (simp add: read_bytes_def)

lemma le_nat_bound: "le_nat bs < 256 ^ length bs"
proof (induction bs)
  case (Cons b bs)
  have "unat b < 256" using unsigned_less [of b, where ?'a = nat] by (simp del: unsigned_less)
  with Cons show ?case by simp
qed simp

lemma le_nat_le_bytes: "le_nat (le_bytes n v) = v mod 256 ^ n"
proof (induction n arbitrary: v)
  case (Suc n)
  have "unat (of_nat (v mod 256) :: u8) = v mod 256" by (simp add: unat_of_nat)
  then show ?case
    by (simp add: Suc mod_mult2_eq add.commute)
qed simp

lemma read_write_same: "length bs \<le> 2 ^ 64 \<Longrightarrow> read_bytes (write_bytes m a bs) a (length bs) = bs"
  by (auto simp: read_bytes_def write_bytes_def unat_of_nat_less intro!: nth_equalityI)

lemma read_write_separate:
  assumes "separate a n b (length bs)" and "n \<le> 2 ^ 64"
  shows "read_bytes (write_bytes m b bs) a n = read_bytes m a n"
  using assms separate_disjoint [OF assms(1)] region_elem [OF _ assms(2), of _ a]
  by (auto simp: read_bytes_def write_bytes_def region_iff)

lemma load_bound: "load n m a < 256 ^ n"
  using le_nat_bound [of "read_bytes m a n"] by (simp add: load_def)

lemma load_store_same: "n \<le> 2 ^ 64 \<Longrightarrow> load n (store n m a v) a = v mod 256 ^ n"
  using read_write_same [of "le_bytes n v" m a] by (simp add: load_def store_def le_nat_le_bytes)

lemma store64_outside: "x \<notin> region a 8 \<Longrightarrow> store64 m a v x = m x"
  by (simp add: store64_def store_def write_bytes_def region_iff)

lemma load_store_separate:
  "separate a n b k \<Longrightarrow> n \<le> 2 ^ 64 \<Longrightarrow> load n (store k m b v) a = load n m a"
  by (simp add: load_def store_def read_write_separate)

lemma load16_store16_same [simp]: "load16 (store16 m a v) a = v"
proof -
  have "unat v mod 256 ^ 2 = unat v" using unsigned_less [of v, where ?'a = nat] by simp
  then show ?thesis by (simp add: load16_def store16_def load_store_same)
qed

lemma load32_store32_same [simp]: "load32 (store32 m a v) a = v"
proof -
  have "unat v mod 256 ^ 4 = unat v" using unat32_bound [of v] by simp
  then show ?thesis by (simp add: load32_def store32_def load_store_same)
qed

lemma load64_store64_same [simp]: "load64 (store64 m a v) a = v"
proof -
  have "unat v mod 256 ^ 8 = unat v" using unat64_bound [of v] by simp
  then show ?thesis by (simp add: load64_def store64_def load_store_same)
qed

lemma load8_store8_same [simp]: "load8 (store8 m a v) a = v"
  by (simp add: load8_def store8_def)

lemma bytes_cmp_neg:
  assumes "length xs = length ys"
  shows "bytes_cmp xs ys < 0 \<longleftrightarrow> (\<exists>k<length xs. take k xs = take k ys \<and> xs ! k < ys ! k)"
  using assms
proof (induction xs ys rule: list_induct2)
  case (Cons x xs y ys)
  have "(\<exists>k<length (x # xs). take k (x # xs) = take k (y # ys) \<and> (x # xs) ! k < (y # ys) ! k)
    \<longleftrightarrow> x < y \<or> x = y \<and> (\<exists>k<length xs. take k xs = take k ys \<and> xs ! k < ys ! k)"
    by (auto simp: less_Suc_eq_0_disj)
  then show ?case using Cons.IH by auto
qed simp

lemma memcmp_neg:
  "memcmp a b n m < 0 \<longleftrightarrow> (\<exists>k. k < unat n \<and> read_bytes m a k = read_bytes m b k \<and> m (a + of_nat k) < m (b + of_nat k))"
proof -
  have t: "take k (read_bytes m c (unat n)) = read_bytes m c k" if "k < unat n" for k c
    using that by (simp add: read_bytes_def take_map)
  have nth: "read_bytes m c (unat n) ! k = m (c + of_nat k)" if "k < unat n" for k c
    using that by (simp add: read_bytes_def)
  show ?thesis
    unfolding memcmp_bytes
    by (subst bytes_cmp_neg) (auto simp: t nth cong: conj_cong)
qed

section \<open>Properties\<close>

text \<open>
  C24. \<open>memmove\<close> copies whatever the overlap of the two ranges: afterwards each byte of the destination is the
  byte that stood at the same offset of the source before, and no other byte has changed.
\<close>

theorem memmove_any_overlap:
  assumes "unat dest + unat n \<le> 2 ^ 64" and "unat src + unat n \<le> 2 ^ 64"
  shows "memmove dest src n m x = (if x \<in> region dest (unat n) then m (src + (x - dest)) else m x)"
  using memmove_moved [of dest n src m] assms by (simp add: fits_def moved_def region_iff)

theorem memmove_any_overlap_witness:
  "memmove 0x101 0x100 3 (\<lambda>a. ucast a) 0x103 = 2 \<and> memmove 0x100 0x101 3 (\<lambda>a. ucast a) 0x100 = 1"
  using memmove_any_overlap [of "0x101" 3 "0x100" "\<lambda>a. ucast a" "0x103"]
    memmove_any_overlap [of "0x100" 3 "0x101" "\<lambda>a. ucast a" "0x100"]
  by (simp add: region_iff)

text \<open>
  \<open>memcmp\<close> orders byte strings lexicographically: it is 0 exactly when all bytes agree, and negative exactly
  when the first byte that differs is smaller in the first range.
\<close>

theorem memcmp_lexicographic:
  "(memcmp a b n m = 0 \<longleftrightarrow> read_bytes m a (unat n) = read_bytes m b (unat n)) \<and>
   (memcmp a b n m < 0 \<longleftrightarrow> (\<exists>k. k < unat n \<and> read_bytes m a k = read_bytes m b k \<and> m (a + of_nat k) < m (b + of_nat k)))"
  using memcmp_0 memcmp_neg by blast

text \<open>
  \<open>memset\<close> fills exactly its range, with the low eight bits of the value.
\<close>

theorem memset_fills:
  "memset dest val n m x = (if x \<in> region dest (unat n) then word_of_int val else m x)"
  by (simp add: memset_spec)

end
