(* ===== verification/Hardware.thy ===== *)
theory Hardware
  imports Memory
begin

text \<open>
  The processor and the devices as the kernel sees them (\<^verbatim>\<open>include/x86.h\<close>): memory, port and
  memory-mapped I/O, RFLAGS, CR3 and the model specific registers. A device read is a function of
  the number of device reads made so far (\<open>now\<close>), supplied by the environment through \<open>port_in\<close>,
  \<open>mmio_in\<close> and \<open>tsc\<close>; every write to a device is appended to \<open>events\<close> in program order.
\<close>

datatype hw_event =
    OutB u16 u8
  | OutW u16 u16
  | OutL u16 u32
  | Mmio32 u64 u32
  | Mmio64 u64 u64
  | LoadIdt u16 u64
  | LoadGdt u16 u64
  | LoadTr u16
  | Halted

record hw =
  mem :: memory
  now :: nat
  port_in :: "u16 \<Rightarrow> nat \<Rightarrow> u32"
  mmio_in :: "u64 \<Rightarrow> nat \<Rightarrow> u64"
  tsc :: "nat \<Rightarrow> u64"
  events :: "hw_event list"
  rflags :: u64
  cr3 :: u64
  msr :: "u64 \<Rightarrow> u64"

definition emit :: "hw_event \<Rightarrow> 'z hw_scheme \<Rightarrow> 'z hw_scheme" where
  "emit e s = s\<lparr>events := events s @ [e]\<rparr>"

section \<open>Port I/O\<close>

definition x86_outb :: "u16 \<Rightarrow> u8 \<Rightarrow> 'z hw_scheme \<Rightarrow> 'z hw_scheme" where
  "x86_outb port value s = emit (OutB port value) s"

definition x86_outw :: "u16 \<Rightarrow> u16 \<Rightarrow> 'z hw_scheme \<Rightarrow> 'z hw_scheme" where
  "x86_outw port value s = emit (OutW port value) s"

definition x86_outl :: "u16 \<Rightarrow> u32 \<Rightarrow> 'z hw_scheme \<Rightarrow> 'z hw_scheme" where
  "x86_outl port value s = emit (OutL port value) s"

definition x86_inb :: "u16 \<Rightarrow> 'z hw_scheme \<Rightarrow> u8 \<times> 'z hw_scheme" where
  "x86_inb port s = (ucast (port_in s port (now s)), s\<lparr>now := Suc (now s)\<rparr>)"

definition x86_inw :: "u16 \<Rightarrow> 'z hw_scheme \<Rightarrow> u16 \<times> 'z hw_scheme" where
  "x86_inw port s = (ucast (port_in s port (now s)), s\<lparr>now := Suc (now s)\<rparr>)"

definition x86_inl :: "u16 \<Rightarrow> 'z hw_scheme \<Rightarrow> u32 \<times> 'z hw_scheme" where
  "x86_inl port s = (port_in s port (now s), s\<lparr>now := Suc (now s)\<rparr>)"

definition x86_io_wait :: "'z hw_scheme \<Rightarrow> 'z hw_scheme" where
  "x86_io_wait s = x86_outb 0x80 0 s"

section \<open>The interrupt flag\<close>

definition x86_are_interrupts_enabled :: "'z hw_scheme \<Rightarrow> bool" where
  "x86_are_interrupts_enabled s \<longleftrightarrow> rflags s AND push_bit 9 1 \<noteq> 0"

definition x86_enable_interrupts :: "'z hw_scheme \<Rightarrow> 'z hw_scheme" where
  "x86_enable_interrupts s = s\<lparr>rflags := rflags s OR push_bit 9 1\<rparr>"

definition x86_disable_interrupts :: "'z hw_scheme \<Rightarrow> 'z hw_scheme" where
  "x86_disable_interrupts s = s\<lparr>rflags := rflags s AND NOT (push_bit 9 1)\<rparr>"

definition x86_save_irq_disable :: "'z hw_scheme \<Rightarrow> u64 \<times> 'z hw_scheme" where
  "x86_save_irq_disable s = (rflags s, x86_disable_interrupts s)"

definition x86_irq_restore :: "u64 \<Rightarrow> 'z hw_scheme \<Rightarrow> 'z hw_scheme" where
  "x86_irq_restore flags s = s\<lparr>rflags := flags\<rparr>"

definition x86_hlt :: "'z hw_scheme \<Rightarrow> 'z hw_scheme" where
  "x86_hlt s = emit Halted s"

section \<open>Time stamp counter, model specific registers, CR3\<close>

text \<open>The instructions deliver and take 64-bit values as two 32-bit halves in EDX:EAX.\<close>

definition edx_eax :: "u32 \<Rightarrow> u32 \<Rightarrow> u64" where
  "edx_eax hi lo = push_bit 32 (ucast hi) OR ucast lo"

definition x86_rdtsc :: "'z hw_scheme \<Rightarrow> u64 \<times> 'z hw_scheme" where
  "x86_rdtsc s = (let v = tsc s (now s); lo = ucast v; hi = ucast (drop_bit 32 v)
     in (edx_eax hi lo, s\<lparr>now := Suc (now s)\<rparr>))"

definition x86_rdmsr :: "u64 \<Rightarrow> 'z hw_scheme \<Rightarrow> u64" where
  "x86_rdmsr r s = (let v = msr s r; low = ucast v; high = ucast (drop_bit 32 v)
     in edx_eax high low)"

definition x86_wrmsr :: "u64 \<Rightarrow> u64 \<Rightarrow> 'z hw_scheme \<Rightarrow> 'z hw_scheme" where
  "x86_wrmsr r value s = (let low = ucast (value AND 0xFFFFFFFF); high = ucast (drop_bit 32 value)
     in s\<lparr>msr := (msr s)(r := edx_eax high low)\<rparr>)"

definition x86_read_cr3 :: "'z hw_scheme \<Rightarrow> u64" where
  "x86_read_cr3 s = cr3 s"

definition x86_write_cr3 :: "u64 \<Rightarrow> 'z hw_scheme \<Rightarrow> 'z hw_scheme" where
  "x86_write_cr3 v s = s\<lparr>cr3 := v\<rparr>"

section \<open>Accesses through a segment, identification\<close>

text \<open>
  \<open>fs_base sel\<close> is the base that the processor uses for FS once \<open>sel\<close> is loaded; FS itself is saved and restored around the access.
\<close>

definition x86_farpeekb :: "(u16 \<Rightarrow> u64) \<Rightarrow> u16 \<Rightarrow> u64 \<Rightarrow> 'z hw_scheme \<Rightarrow> u8" where
  "x86_farpeekb fs_base sel off s = load8 (mem s) (fs_base sel + off)"

definition x86_farpeekw :: "(u16 \<Rightarrow> u64) \<Rightarrow> u16 \<Rightarrow> u64 \<Rightarrow> 'z hw_scheme \<Rightarrow> u16" where
  "x86_farpeekw fs_base sel off s = load16 (mem s) (fs_base sel + off)"

definition x86_farpeekl :: "(u16 \<Rightarrow> u64) \<Rightarrow> u16 \<Rightarrow> u64 \<Rightarrow> 'z hw_scheme \<Rightarrow> u32" where
  "x86_farpeekl fs_base sel off s = load32 (mem s) (fs_base sel + off)"

definition x86_farpokel :: "(u16 \<Rightarrow> u64) \<Rightarrow> u16 \<Rightarrow> u64 \<Rightarrow> u32 \<Rightarrow> 'z hw_scheme \<Rightarrow> 'z hw_scheme" where
  "x86_farpokel fs_base sel off val s = s\<lparr>mem := store32 (mem s) (fs_base sel + off) val\<rparr>"

definition x86_farpokew :: "(u16 \<Rightarrow> u64) \<Rightarrow> u16 \<Rightarrow> u64 \<Rightarrow> u16 \<Rightarrow> 'z hw_scheme \<Rightarrow> 'z hw_scheme" where
  "x86_farpokew fs_base sel off val s = s\<lparr>mem := store16 (mem s) (fs_base sel + off) val\<rparr>"

definition x86_farpokeb :: "(u16 \<Rightarrow> u64) \<Rightarrow> u16 \<Rightarrow> u64 \<Rightarrow> u8 \<Rightarrow> 'z hw_scheme \<Rightarrow> 'z hw_scheme" where
  "x86_farpokeb fs_base sel off val s = s\<lparr>mem := store8 (mem s) (fs_base sel + off) val\<rparr>"

text \<open>\<open>cpu\<close> is the processor's answer in EAX and EDX to a leaf; the results go to the addresses \<open>a\<close> and \<open>d\<close>.\<close>

definition x86_cpuid :: "(u32 \<Rightarrow> u32 \<times> u32) \<Rightarrow> u32 \<Rightarrow> u64 \<Rightarrow> u64 \<Rightarrow> 'z hw_scheme \<Rightarrow> 'z hw_scheme" where
  "x86_cpuid cpu code a d s = (let (eax, edx) = cpu code in s\<lparr>mem := store32 (store32 (mem s) a eax) d edx\<rparr>)"

section \<open>Memory-mapped registers\<close>

text \<open>A read of a device register is a device read like that of a port, a write is an event.\<close>

definition mmio_read32 :: "u64 \<Rightarrow> 'z hw_scheme \<Rightarrow> u32 \<times> 'z hw_scheme" where
  "mmio_read32 a s = (ucast (mmio_in s a (now s)), s\<lparr>now := Suc (now s)\<rparr>)"

definition mmio_write32 :: "u64 \<Rightarrow> u32 \<Rightarrow> 'z hw_scheme \<Rightarrow> 'z hw_scheme" where
  "mmio_write32 a v s = emit (Mmio32 a v) s"

definition mmio_read64 :: "u64 \<Rightarrow> 'z hw_scheme \<Rightarrow> u64 \<times> 'z hw_scheme" where
  "mmio_read64 a s = (mmio_in s a (now s), s\<lparr>now := Suc (now s)\<rparr>)"

definition mmio_write64 :: "u64 \<Rightarrow> u64 \<Rightarrow> 'z hw_scheme \<Rightarrow> 'z hw_scheme" where
  "mmio_write64 a v s = emit (Mmio64 a v) s"

section \<open>Facts\<close>

lemma edx_eax_halves: "edx_eax (ucast (drop_bit 32 v)) (ucast v) = v"
  unfolding edx_eax_def by (rule bit_word_eqI) (auto simp: bit_simps)

lemma edx_eax_masked: "edx_eax (ucast (drop_bit 32 v)) (ucast (v AND 0xFFFFFFFF)) = v"
proof -
  have m: "(0xFFFFFFFF :: u64) = mask 32" by (simp add: mask_eq_exp_minus_1)
  have "ucast (v AND 0xFFFFFFFF) = (ucast v :: u32)"
    unfolding m by (rule bit_word_eqI) (auto simp: bit_simps)
  then show ?thesis by (simp add: edx_eax_halves)
qed

lemma rdmsr_eq: "x86_rdmsr r s = msr s r"
  by (simp add: x86_rdmsr_def Let_def edx_eax_halves)

lemma rdmsr_wrmsr: "x86_rdmsr r (x86_wrmsr q v s) = (if r = q then v else x86_rdmsr r s)"
  by (simp add: rdmsr_eq x86_wrmsr_def Let_def edx_eax_masked)

text \<open>A value written through a segment is read back, also through another selector with the same base.\<close>

lemma farpeek_farpoke:
  assumes "fs_base sel = fs_base sel'"
  shows "x86_farpeekb fs_base sel off (x86_farpokeb fs_base sel' off b s) = b"
    "x86_farpeekw fs_base sel off (x86_farpokew fs_base sel' off w s) = w"
    "x86_farpeekl fs_base sel off (x86_farpokel fs_base sel' off l s) = l"
  by (simp_all add: x86_farpeekb_def x86_farpokeb_def x86_farpeekw_def x86_farpokew_def x86_farpeekl_def x86_farpokel_def assms load8_def store8_def)

lemma farpoke_elsewhere:
  "x \<notin> region (fs_base sel + off) 4 \<Longrightarrow> mem (x86_farpokel fs_base sel off l s) x = mem s x"
  by (simp add: x86_farpokel_def store32_def store_def write_bytes_def region_iff)

lemma cpuid_results:
  assumes "separate a 4 d 4"
  shows "load32 (mem (x86_cpuid cpu code a d s)) a = fst (cpu code)" "load32 (mem (x86_cpuid cpu code a d s)) d = snd (cpu code)"
proof -
  have "load32 (store32 m d v) a = load32 m a" for m v
    using assms by (simp add: load32_def store32_def load_store_separate)
  then show "load32 (mem (x86_cpuid cpu code a d s)) a = fst (cpu code)" "load32 (mem (x86_cpuid cpu code a d s)) d = snd (cpu code)"
    by (simp_all add: x86_cpuid_def case_prod_beta)
qed

lemma irq_save_restore:
  "x86_save_irq_disable s = (fl, s') \<Longrightarrow>
    \<not> x86_are_interrupts_enabled s' \<and> x86_irq_restore fl s' = s"
proof -
  assume "x86_save_irq_disable s = (fl, s')"
  then have s': "s' = s\<lparr>rflags := rflags s AND NOT (push_bit 9 1)\<rparr>" and fl: "fl = rflags s"
    by (auto simp: x86_save_irq_disable_def x86_disable_interrupts_def)
  have "(rflags s AND NOT (push_bit 9 1)) AND push_bit 9 1 = 0"
    by (rule bit_word_eqI) (auto simp: bit_simps)
  then show ?thesis
    by (simp add: s' fl x86_irq_restore_def x86_are_interrupts_enabled_def)
qed

end
