(* ===== verification/Serial.thy ===== *)
theory Serial
  imports Hardware
begin

text \<open>
  The serial port driver, \<^verbatim>\<open>drivers/serial.c\<close>: programming the UART at COM1 and polled output. The
  transmitter is ready when bit 5 of the line status register reads as 1; a UART that is ready again
  and again (\<open>uart_live\<close>) makes every write return, and then exactly the written characters go out,
  in order, and nothing else of the machine changes.
\<close>

definition COM1 :: u16 where "COM1 = 0x3F8"

definition serial_init :: "'z hw_scheme \<Rightarrow> 'z hw_scheme" where
  "serial_init s0 =
     (let s1 = x86_outb (COM1 + 1) 0x00 s0;
          s2 = x86_outb (COM1 + 3) 0x80 s1;
          s3 = x86_outb (COM1 + 0) 0x03 s2;
          s4 = x86_outb (COM1 + 1) 0x00 s3;
          s5 = x86_outb (COM1 + 3) 0x03 s4;
          s6 = x86_outb (COM1 + 2) 0xC7 s5
      in x86_outb (COM1 + 4) 0x0B s6)"

definition serial_is_transmit_empty :: "'z hw_scheme \<Rightarrow> bool \<times> 'z hw_scheme" where
  "serial_is_transmit_empty s = (let (b, s') = x86_inb (COM1 + 5) s in (b AND 0x20 \<noteq> 0, s'))"

text \<open>\<open>while (!serial_is_transmit_empty());\<close>\<close>

definition uart_ready :: "'z hw_scheme \<Rightarrow> nat \<Rightarrow> bool" where
  "uart_ready s t \<longleftrightarrow> (ucast (port_in s (COM1 + 5) t) :: u8) AND 0x20 \<noteq> 0"

definition serial_wait :: "'z hw_scheme \<Rightarrow> (unit, 'z hw_scheme) outcome" where
  "serial_wait s =
     (case poll (uart_ready s) (now s) of None \<Rightarrow> Hang | Some t \<Rightarrow> Ret () (s\<lparr>now := Suc t\<rparr>))"

definition serial_putchar :: "char \<Rightarrow> 'z hw_scheme \<Rightarrow> (unit, 'z hw_scheme) outcome" where
  "serial_putchar c s =
     andthen (serial_wait s) (\<lambda>_ s. Ret () (x86_outb COM1 (of_char c) s))"

fun serial_print :: "string \<Rightarrow> 'z hw_scheme \<Rightarrow> (unit, 'z hw_scheme) outcome" where
  "serial_print [] s = Ret () s"
| "serial_print (c # cs) s = andthen (serial_putchar c s) (\<lambda>_ s. serial_print cs s)"

section \<open>Facts\<close>

text \<open>The polling loop is the loop of the source: test, and read again if the test fails.\<close>

lemma serial_wait_loop:
  "serial_wait s = (let (e, s') = serial_is_transmit_empty s in if e then Ret () s' else serial_wait s')"
proof -
  have "uart_ready (s\<lparr>now := t\<rparr>) = uart_ready s" for t
    by (simp add: uart_ready_def fun_eq_iff)
  then show ?thesis
    by (auto simp: serial_wait_def serial_is_transmit_empty_def x86_inb_def uart_ready_def
        poll.simps [of _ "now s"] split: option.splits)
qed

definition uart_live :: "'z hw_scheme \<Rightarrow> bool" where
  "uart_live s \<longleftrightarrow> (\<forall>t. \<exists>k. uart_ready s (t + k))"

text \<open>\<open>serial_sent str s s'\<close>: \<open>s'\<close> is \<open>s\<close> after the bytes of \<open>str\<close> went out, some reads later.\<close>

definition serial_sent :: "string \<Rightarrow> 'z hw_scheme \<Rightarrow> 'z hw_scheme \<Rightarrow> bool" where
  "serial_sent str s s' \<longleftrightarrow>
     (\<exists>t. s' = s\<lparr>now := t, events := events s @ map (\<lambda>c. OutB COM1 (of_char c)) str\<rparr>)"

lemma serial_sent_nil: "serial_sent [] s s"
  by (auto simp: serial_sent_def intro: exI [of _ "now s"])

lemma serial_sent_trans: "serial_sent xs s t \<Longrightarrow> serial_sent ys t u \<Longrightarrow> serial_sent (xs @ ys) s u"
  by (auto simp: serial_sent_def)

lemma serial_sent_live: "serial_sent xs s t \<Longrightarrow> uart_live t = uart_live s"
  by (auto simp: serial_sent_def uart_live_def uart_ready_def)

lemma serial_sent_mem: "serial_sent xs s t \<Longrightarrow> mem t = mem s"
  by (auto simp: serial_sent_def)

lemma serial_putchar_sent:
  assumes "uart_live s"
  shows "returns (serial_putchar c s) (\<lambda>_ s'. uart_live s' \<and> serial_sent [c] s s')"
proof -
  obtain k where "uart_ready s (now s + k)" using assms by (auto simp: uart_live_def)
  from poll_finds [of "uart_ready s", OF this] obtain t where t: "poll (uart_ready s) (now s) = Some t"
    by blast
  let ?s = "s\<lparr>now := Suc t, events := events s @ [OutB COM1 (of_char c)]\<rparr>"
  have "serial_putchar c s = Ret () ?s"
    by (simp add: serial_putchar_def serial_wait_def t x86_outb_def emit_def)
  moreover have "serial_sent [c] s ?s" by (auto simp: serial_sent_def)
  ultimately show ?thesis using assms serial_sent_live [of "[c]" s ?s] by simp
qed

lemma serial_print_sent:
  assumes "uart_live s"
  shows "returns (serial_print str s) (\<lambda>_ s'. uart_live s' \<and> serial_sent str s s')"
  using assms
proof (induction str arbitrary: s)
  case Nil
  then show ?case by (simp add: serial_sent_nil)
next
  case (Cons c cs)
  from serial_putchar_sent [OF Cons.prems, of c] obtain s1
    where s1: "serial_putchar c s = Ret () s1" "uart_live s1" "serial_sent [c] s s1"
    by (auto simp: returns_conv)
  from Cons.IH [OF s1(2)] show ?case
    using serial_sent_trans [OF s1(3)] by (auto simp: s1(1) elim!: returns_weaken)
qed

lemma serial_dead_hangs:
  assumes "\<And>t. now s \<le> t \<Longrightarrow> \<not> uart_ready s t"
  shows "serial_putchar c s = Hang"
  using poll_never [of "now s" "uart_ready s"] assms by (simp add: serial_putchar_def serial_wait_def)

end
