(* ===== verification/Printf.thy ===== *)
theory Printf
  imports Serial
begin

text \<open>
  The formatted output of \<^verbatim>\<open>lib/sprintf.c\<close> (to the serial port) and \<^verbatim>\<open>lib/console.c\<close> (to the
  screen). The two files hold the same code over two output functions, so the routines here take the
  output function \<open>put\<close> as an argument; \<open>svprintf\<close> and the console's \<open>cvprintf\<close> are its instances.
  A format string is the characters before its terminator, the pointer \<open>p\<close> of the code the suffix
  still to be read. An argument slot is a 64-bit word, or a pointer to a string literal.
\<close>

datatype varg = VWord u64 | VLit string

abbreviation nul :: char where "nul \<equiv> CHR 0x00"

definition digits_lower :: string where "digits_lower = ''0123456789abcdef''"
definition digits_upper :: string where "digits_upper = ''0123456789ABCDEF''"

type_synonym 'z put = "char \<Rightarrow> 'z hw_scheme \<Rightarrow> (unit, 'z hw_scheme) outcome"

section \<open>Integers\<close>

text \<open>
  The digit loop writes into \<open>char buf[64]\<close>: \<open>slots\<close> is what is left of it, and a write past its end
  gives \<open>None\<close>, as do a division by zero and an index past the digit table.
\<close>

fun uint_digits :: "nat \<Rightarrow> u64 \<Rightarrow> u64 \<Rightarrow> string \<Rightarrow> string \<Rightarrow> string option" where
  "uint_digits slots value base digits buf =
     (if value > 0 then
        if base = 0 \<or> base > 16 then None
        else (case slots of 0 \<Rightarrow> None
              | Suc k \<Rightarrow> uint_digits k (value div base) base digits (buf @ [digits ! unat (value mod base)]))
      else Some buf)"

text \<open>\<open>while (width > count) { put(c); width--; }\<close>; the result is the final \<open>width\<close>.\<close>

function put_while :: "'z put \<Rightarrow> char \<Rightarrow> int \<Rightarrow> int \<Rightarrow> 'z hw_scheme \<Rightarrow> (int, 'z hw_scheme) outcome" where
  "put_while put c width count s =
     (if width > count then andthen (put c s) (\<lambda>_ s. put_while put c (width - 1) count s)
      else Ret width s)"
  by pat_completeness auto
termination
  by (relation "measure (\<lambda>(put, c, width, count, s). nat (width - count))") auto

fun put_str :: "'z put \<Rightarrow> string \<Rightarrow> 'z hw_scheme \<Rightarrow> (unit, 'z hw_scheme) outcome" where
  "put_str put [] s = Ret () s"
| "put_str put (c # cs) s = andthen (put c s) (\<lambda>_ s. put_str put cs s)"

declare uint_digits.simps [simp del] put_while.simps [simp del]

definition print_uint ::
  "'z put \<Rightarrow> u64 \<Rightarrow> u64 \<Rightarrow> int \<Rightarrow> int \<Rightarrow> u32 \<Rightarrow> bool \<Rightarrow> 'z hw_scheme \<Rightarrow> (unit, 'z hw_scheme) outcome" where
  "print_uint put value base width precision flags upper s =
     (let digits = (if upper then digits_upper else digits_lower) in
      case (if value = 0 \<and> precision \<noteq> 0 then Some [CHR ''0'']
            else uint_digits 64 value base digits []) of
        None \<Rightarrow> Undef
      | Some buf \<Rightarrow>
        (let i = int (length buf);
             actual_precision = (if precision > i then precision else i);
             count = (if flags AND 1 \<noteq> 0
                      then if base = 16 then actual_precision + 2
                           else if base = 8 then actual_precision + 1 else actual_precision
                      else actual_precision) in
         andthen (if flags AND 2 = 0
                  then put_while put (if flags AND 4 \<noteq> 0 then CHR ''0'' else CHR '' '') width count s
                  else Ret width s) (\<lambda>width s.
         andthen (if flags AND 1 \<noteq> 0
                  then if base = 16 then put_str put (if upper then ''0X'' else ''0x'') s
                       else if base = 8 then put (CHR ''0'') s else Ret () s
                  else Ret () s) (\<lambda>_ s.
         andthen (put_while put (CHR ''0'') actual_precision i s) (\<lambda>_ s.
         andthen (put_str put (rev buf) s) (\<lambda>_ s.
         andthen (if flags AND 2 \<noteq> 0 then put_while put (CHR '' '') width count s else Ret width s)
           (\<lambda>_ s. Ret () s)))))))"

text \<open>\<open>while (temp > 0) { count++; temp /= 10; }\<close>\<close>

function dec_count :: "u64 \<Rightarrow> int \<Rightarrow> int" where
  "dec_count temp count = (if temp > 0 then dec_count (temp div 10) (count + 1) else count)"
  by pat_completeness auto
termination
  by (relation "measure (\<lambda>(t, c). unat t)") (auto simp: word_less_nat_alt unat_div)

declare dec_count.simps [simp del]

text \<open>The \<open>int64_t\<close> argument is its 64-bit representation; \<open>value = -value\<close> wraps at the minimum.\<close>

definition print_int ::
  "'z put \<Rightarrow> u64 \<Rightarrow> int \<Rightarrow> int \<Rightarrow> u32 \<Rightarrow> 'z hw_scheme \<Rightarrow> (unit, 'z hw_scheme) outcome" where
  "print_int put value0 width precision flags s =
     (let neg = sint value0 < 0;
          value = (if neg then - value0 else value0);
          count0 = dec_count value (if value = 0 \<and> precision \<noteq> 0 then 1 else 0);
          count1 = (if precision > count0 then precision else count0);
          count = (if neg \<or> flags AND 8 \<noteq> 0 \<or> flags AND 16 \<noteq> 0 then count1 + 1 else count1) in
      andthen (if flags AND 2 = 0 \<and> flags AND 4 = 0
               then put_while put (CHR '' '') width count s else Ret width s) (\<lambda>width s.
      andthen (if neg then put (CHR ''-'') s
               else if flags AND 8 \<noteq> 0 then put (CHR ''+'') s
               else if flags AND 16 \<noteq> 0 then put (CHR '' '') s else Ret () s) (\<lambda>_ s.
      andthen (if flags AND 2 = 0 \<and> flags AND 4 \<noteq> 0
               then put_while put (CHR ''0'') width count s else Ret width s) (\<lambda>width s.
      andthen (print_uint put value 10 0 precision 0 False s) (\<lambda>_ s.
      andthen (if flags AND 2 \<noteq> 0 then put_while put (CHR '' '') width count s else Ret width s)
        (\<lambda>_ s. Ret () s))))))"

section \<open>Reading a conversion specification\<close>

fun parse_flags :: "string \<Rightarrow> u32 \<Rightarrow> u32 \<times> string" where
  "parse_flags [] flags = (flags, [])"
| "parse_flags (c # p) flags =
     (if c = CHR ''#'' then parse_flags p (flags OR 1)
      else if c = CHR ''-'' then parse_flags p (flags OR 2)
      else if c = CHR ''0'' then parse_flags p (flags OR 4)
      else if c = CHR ''+'' then parse_flags p (flags OR 8)
      else if c = CHR '' '' then parse_flags p (flags OR 16)
      else (flags, c # p))"

fun parse_num :: "string \<Rightarrow> int \<Rightarrow> int \<times> string" where
  "parse_num [] n = (n, [])"
| "parse_num (c # p) n =
     (if (of_char c :: nat) \<ge> 48 \<and> (of_char c :: nat) \<le> 57
      then parse_num p (s32 (n * 10 + (of_char c - 48)))
      else (n, c # p))"

text \<open>\<open>va_arg(args, int)\<close>; \<open>None\<close> when there is no such argument.\<close>

fun va_int :: "varg list \<Rightarrow> (int \<times> varg list) option" where
  "va_int (VWord w # args) = Some (s32_of w, args)"
| "va_int _ = None"

text \<open>\<open>*p\<close>: the character the pointer is at.\<close>

definition cur :: "string \<Rightarrow> char" where
  "cur p = (case p of [] \<Rightarrow> nul | c # _ \<Rightarrow> c)"

definition parse_width ::
  "string \<Rightarrow> u32 \<Rightarrow> varg list \<Rightarrow> (u32 \<times> int \<times> varg list \<times> string) option" where
  "parse_width p flags args =
     (if cur p = CHR ''*'' then
        (case va_int args of None \<Rightarrow> None
         | Some (width, args) \<Rightarrow>
             Some (if width < 0 then (flags OR 2, s32 (- width), args, tl p)
                   else (flags, width, args, tl p)))
      else (case parse_num p 0 of (width, p') \<Rightarrow> Some (flags, width, args, p')))"

definition parse_prec :: "string \<Rightarrow> varg list \<Rightarrow> (int \<times> varg list \<times> string) option" where
  "parse_prec p args =
     (if cur p = CHR ''.'' then
        if cur (tl p) = CHR ''*'' then
          (case va_int args of None \<Rightarrow> None | Some (prec, args) \<Rightarrow> Some (prec, args, tl (tl p)))
        else (case parse_num (tl p) 0 of (prec, p') \<Rightarrow> Some (prec, args, p'))
      else Some (- 1, args, p))"

text \<open>0: default, 1: h, 2: hh, 3: l, 4: ll, 5: z, 6: j, 7: t.\<close>

definition parse_length :: "string \<Rightarrow> nat \<times> string" where
  "parse_length p =
     (if cur p = CHR ''h'' then
        if cur (tl p) = CHR ''h'' then (2, tl (tl p)) else (1, tl p)
      else if cur p = CHR ''l'' then
        if cur (tl p) = CHR ''l'' then (4, tl (tl p)) else (3, tl p)
      else if cur p = CHR ''z'' then (5, tl p)
      else if cur p = CHR ''j'' then (6, tl p)
      else if cur p = CHR ''t'' then (7, tl p)
      else (0, p))"

text \<open>Flags, width, precision, length, the remaining arguments, and the text from the conversion
  character on.\<close>

definition parse_spec ::
  "string \<Rightarrow> varg list \<Rightarrow> (u32 \<times> int \<times> int \<times> nat \<times> varg list \<times> string) option" where
  "parse_spec p args =
     (case parse_flags p 0 of (flags, p) \<Rightarrow>
      case parse_width p flags args of None \<Rightarrow> None | Some (flags, width, args, p) \<Rightarrow>
      case parse_prec p args of None \<Rightarrow> None | Some (prec, args, p) \<Rightarrow>
      case parse_length p of (len, p) \<Rightarrow> Some (flags, width, prec, len, args, p))"

section \<open>Conversions\<close>

text \<open>The value of a \<open>%d\<close> or \<open>%i\<close> argument, sign-extended to \<open>int64_t\<close>, by length modifier.\<close>

definition signed_arg :: "nat \<Rightarrow> u64 \<Rightarrow> u64" where
  "signed_arg len w =
     (if len = 4 \<or> len = 3 then w
      else if len = 2 then scast (ucast w :: u8)
      else if len = 1 then scast (ucast w :: u16)
      else if len = 5 \<or> len = 6 \<or> len = 7 then w
      else scast (ucast w :: u32))"

definition unsigned_arg :: "nat \<Rightarrow> u64 \<Rightarrow> u64" where
  "unsigned_arg len w =
     (if len = 4 \<or> len = 3 then w
      else if len = 2 then ucast (ucast w :: u8)
      else if len = 1 then ucast (ucast w :: u16)
      else if len = 5 \<or> len = 6 \<or> len = 7 then w
      else ucast (ucast w :: u32))"

text \<open>\<open>while (--width > 0) put(' ');\<close>\<close>

function put_predec :: "'z put \<Rightarrow> int \<Rightarrow> 'z hw_scheme \<Rightarrow> (int, 'z hw_scheme) outcome" where
  "put_predec put width s =
     (if width - 1 > 0 then andthen (put (CHR '' '') s) (\<lambda>_ s. put_predec put (width - 1) s)
      else Ret (width - 1) s)"
  by pat_completeness auto
termination
  by (relation "measure (\<lambda>(put, width, s). nat width)") auto

declare put_predec.simps [simp del]

text \<open>Character \<open>i\<close> of a string argument, and the length that \<open>%s\<close> prints.\<close>

definition str_char :: "memory \<Rightarrow> varg \<Rightarrow> nat \<Rightarrow> char" where
  "str_char m a i =
     (case a of VLit str \<Rightarrow> if i < length str then str ! i else nul
      | VWord p \<Rightarrow> char_of (unat (m (p + of_nat i))))"

definition str_len :: "memory \<Rightarrow> varg \<Rightarrow> int \<Rightarrow> nat option" where
  "str_len m a precision =
     poll (\<lambda>len. \<not> (str_char m a len \<noteq> nul \<and> (precision < 0 \<or> int len < precision))) 0"

text \<open>\<open>for (int i = 0; i < len; i++) put(str[i]);\<close>: the string is read as it is printed.\<close>

function put_arg :: "'z put \<Rightarrow> varg \<Rightarrow> nat \<Rightarrow> nat \<Rightarrow> 'z hw_scheme \<Rightarrow> (unit, 'z hw_scheme) outcome" where
  "put_arg put a i len s =
     (if i < len then andthen (put (str_char (mem s) a i) s) (\<lambda>_ s. put_arg put a (Suc i) len s)
      else Ret () s)"
  by pat_completeness auto
termination
  by (relation "measure (\<lambda>(put, a, i, len, s). len - i)") auto

declare put_arg.simps [simp del]

text \<open>The \<open>switch\<close> on the conversion character; the result is the arguments left.\<close>

definition convert ::
  "'z put \<Rightarrow> char \<Rightarrow> u32 \<Rightarrow> int \<Rightarrow> int \<Rightarrow> nat \<Rightarrow> varg list \<Rightarrow> 'z hw_scheme \<Rightarrow>
   (varg list, 'z hw_scheme) outcome" where
  "convert put c flags width precision len args s =
     (if c = CHR ''c'' then
        (case args of VWord w # args \<Rightarrow>
           andthen (if flags AND 2 = 0 then put_predec put width s else Ret width s) (\<lambda>width s.
           andthen (put (char_of (unat (ucast w :: u8))) s) (\<lambda>_ s.
           andthen (if flags AND 2 \<noteq> 0 then put_predec put width s else Ret width s) (\<lambda>_ s.
           Ret args s)))
         | _ \<Rightarrow> Undef)
      else if c = CHR ''s'' then
        (case args of [] \<Rightarrow> Undef | a # args \<Rightarrow>
           (let str = (if a = VWord 0 then VLit ''(null)'' else a) in
            case str_len (mem s) str precision of None \<Rightarrow> Hang | Some n \<Rightarrow>
            andthen (if flags AND 2 = 0 then put_while put (CHR '' '') width (int n) s else Ret width s) (\<lambda>width s.
            andthen (put_arg put str 0 n s) (\<lambda>_ s.
            andthen (if flags AND 2 \<noteq> 0 then put_while put (CHR '' '') width (int n) s else Ret width s) (\<lambda>_ s.
            Ret args s)))))
      else if c = CHR ''d'' \<or> c = CHR ''i'' then
        (case args of VWord w # args \<Rightarrow>
           andthen (print_int put (signed_arg len w) width precision flags s) (\<lambda>_ s. Ret args s)
         | _ \<Rightarrow> Undef)
      else if c = CHR ''u'' \<or> c = CHR ''o'' \<or> c = CHR ''x'' \<or> c = CHR ''X'' then
        (case args of VWord w # args \<Rightarrow>
           (let base = (if c = CHR ''o'' then 8
                        else if c = CHR ''x'' \<or> c = CHR ''X'' then 16 else 10) in
            andthen (print_uint put (unsigned_arg len w) base width precision flags (c = CHR ''X'') s)
              (\<lambda>_ s. Ret args s))
         | _ \<Rightarrow> Undef)
      else if c = CHR ''p'' then
        (case args of VWord w # args \<Rightarrow>
           andthen (print_uint put w 16 width precision (flags OR 1) False s) (\<lambda>_ s. Ret args s)
         | _ \<Rightarrow> Undef)
      else if c = CHR ''%'' then
        andthen (put (CHR ''%'') s) (\<lambda>_ s. Ret args s)
      else
        andthen (put (CHR ''%'') s) (\<lambda>_ s. andthen (put c s) (\<lambda>_ s. Ret args s)))"

section \<open>The main loop\<close>

lemma parse_flags_snd: "length (snd (parse_flags p f)) \<le> length p"
  by (induction p f rule: parse_flags.induct) (simp_all add: le_SucI)

lemma parse_num_snd: "length (snd (parse_num p n)) \<le> length p"
  by (induction p n rule: parse_num.induct) (simp_all add: le_SucI)

lemma parse_flags_len: "parse_flags p f = (f', p') \<Longrightarrow> length p' \<le> length p"
  using parse_flags_snd [of p f] by simp

lemma parse_num_len: "parse_num p n = (n', p') \<Longrightarrow> length p' \<le> length p"
  using parse_num_snd [of p n] by simp

lemma parse_width_len: "parse_width p f args = Some (f', w, args', p') \<Longrightarrow> length p' \<le> length p"
  by (auto simp: parse_width_def dest: parse_num_len split: option.splits if_splits prod.splits)

lemma parse_prec_len: "parse_prec p args = Some (n, args', p') \<Longrightarrow> length p' \<le> length p"
  by (auto simp: parse_prec_def dest!: parse_num_len split: option.splits if_splits prod.splits)

lemma parse_length_len: "parse_length p = (n, p') \<Longrightarrow> length p' \<le> length p"
  by (auto simp: parse_length_def split: if_splits)

lemma parse_spec_len:
  "parse_spec p args = Some (flags, width, prec, len, args', p') \<Longrightarrow> length p' \<le> length p"
  by (auto simp: parse_spec_def split: option.splits prod.splits
      dest!: parse_flags_len parse_width_len parse_prec_len parse_length_len)

text \<open>
  A format string that ends inside a specification: the \<open>default\<close> case prints the percent sign, the
  \<open>for\<close> loop then moves \<open>p\<close> past the terminator and reads there.
\<close>

function vprintf :: "'z put \<Rightarrow> string \<Rightarrow> varg list \<Rightarrow> 'z hw_scheme \<Rightarrow> (unit, 'z hw_scheme) outcome" where
  "vprintf put [] args s = Ret () s"
| "vprintf put (c # p) args s =
     (if c \<noteq> CHR ''%'' then andthen (put c s) (\<lambda>_ s. vprintf put p args s)
      else (case parse_spec p args of None \<Rightarrow> Undef
            | Some (flags, width, precision, len, args, p') \<Rightarrow>
                (case p' of [] \<Rightarrow> andthen (put (CHR ''%'') s) (\<lambda>_ s. Undef)
                 | d # p'' \<Rightarrow>
                     andthen (convert put d flags width precision len args s)
                       (\<lambda>args s. vprintf put p'' args s))))"
  by pat_completeness auto
termination
  by (relation "measure (\<lambda>(put, p, args, s). length p)") (auto dest!: parse_spec_len)

section \<open>Serial output and the panic path\<close>

definition sprint_uint ::
  "u64 \<Rightarrow> u64 \<Rightarrow> int \<Rightarrow> int \<Rightarrow> u32 \<Rightarrow> bool \<Rightarrow> 'z hw_scheme \<Rightarrow> (unit, 'z hw_scheme) outcome" where
  "sprint_uint = print_uint serial_putchar"

definition sprint_int ::
  "u64 \<Rightarrow> int \<Rightarrow> int \<Rightarrow> u32 \<Rightarrow> 'z hw_scheme \<Rightarrow> (unit, 'z hw_scheme) outcome" where
  "sprint_int = print_int serial_putchar"

definition svprintf :: "string \<Rightarrow> varg list \<Rightarrow> 'z hw_scheme \<Rightarrow> (unit, 'z hw_scheme) outcome" where
  "svprintf fmt args s = vprintf serial_putchar fmt args s"

definition sprintf :: "string \<Rightarrow> varg list \<Rightarrow> 'z hw_scheme \<Rightarrow> (unit, 'z hw_scheme) outcome" where
  "sprintf fmt args s = svprintf fmt args s"

definition newline :: string where "newline = [CHR 0x0A]"

text \<open>\<open>kpanic\<close> never returns: it prints with interrupts off and halts the processor.\<close>

definition kpanic :: "string \<Rightarrow> varg list \<Rightarrow> 'z hw_scheme \<Rightarrow> ('a, 'z hw_scheme) outcome" where
  "kpanic fmt args s =
     (let s = x86_disable_interrupts s in
      andthen (sprintf (''KERNEL PANIC:'' @ newline) [] s) (\<lambda>_ s.
      andthen (svprintf fmt args s) (\<lambda>_ s.
      andthen (sprintf newline [] s) (\<lambda>_ s. Panic (x86_hlt s)))))"

end
