(* ===== verification/Printf_Spec.thy ===== *)
theory Printf_Spec
  imports Printf
begin

text \<open>
  What the formatter promises. \<open>ref_format\<close> describes the text a format string and its arguments
  stand for, without output steps, buffers or counters; it reads the conversion specifications with functions of its own
  (\<open>ref_spec\<close>, \<open>ref_signed\<close>, \<open>ref_unsigned\<close>), which the parser of the code is shown to agree with. The locale \<open>char_sink\<close> states what the
  formatter relies on in its output function, and proves once that \<open>vprintf\<close> sends exactly the
  reference text; the serial port is its first interpretation.
\<close>

section \<open>Reference texts\<close>

definition digit_char :: "bool \<Rightarrow> nat \<Rightarrow> char" where
  "digit_char upper d = (if upper then digits_upper else digits_lower) ! d"

text \<open>The digits of a number, most significant first; no digit for zero.\<close>

fun num_str :: "bool \<Rightarrow> nat \<Rightarrow> nat \<Rightarrow> string" where
  "num_str upper b n = (if n = 0 \<or> b < 2 then [] else num_str upper b (n div b) @ [digit_char upper (n mod b)])"

declare num_str.simps [simp del]

definition spaces :: "int \<Rightarrow> string" where
  "spaces n = replicate (nat n) (CHR '' '')"

definition zeros :: "int \<Rightarrow> string" where
  "zeros n = replicate (nat n) (CHR ''0'')"

text \<open>The digits with the precision's leading zeros.\<close>

definition ref_digits :: "bool \<Rightarrow> nat \<Rightarrow> int \<Rightarrow> u64 \<Rightarrow> string" where
  "ref_digits upper b prec v =
     (let ds = (if v = 0 \<and> prec \<noteq> 0 then ''0'' else num_str upper b (unat v))
      in zeros (prec - int (length ds)) @ ds)"

definition ref_uint :: "u64 \<Rightarrow> nat \<Rightarrow> int \<Rightarrow> int \<Rightarrow> u32 \<Rightarrow> bool \<Rightarrow> string" where
  "ref_uint v b width prec flags upper =
     (let prefix = (if flags AND 1 = 0 then [] else if b = 16 then (if upper then ''0X'' else ''0x'')
                    else if b = 8 then ''0'' else []);
          body = prefix @ ref_digits upper b prec v;
          fill = width - int (length body)
      in if flags AND 2 \<noteq> 0 then body @ spaces fill
         else (if flags AND 4 \<noteq> 0 then zeros fill else spaces fill) @ body)"

definition ref_int :: "u64 \<Rightarrow> int \<Rightarrow> int \<Rightarrow> u32 \<Rightarrow> string" where
  "ref_int v width prec flags =
     (let neg = sint v < 0;
          sign = (if neg then ''-'' else if flags AND 8 \<noteq> 0 then ''+''
                  else if flags AND 16 \<noteq> 0 then '' '' else []);
          ds = ref_digits False 10 prec (if neg then - v else v);
          fill = width - int (length sign + length ds)
      in if flags AND 2 \<noteq> 0 then sign @ ds @ spaces fill
         else if flags AND 4 \<noteq> 0 then sign @ zeros fill @ ds
         else spaces fill @ sign @ ds)"

definition ref_str :: "memory \<Rightarrow> varg \<Rightarrow> int \<Rightarrow> string option" where
  "ref_str m a prec = map_option (\<lambda>n. map (str_char m a) [0..<n]) (str_len m a prec)"

definition ref_pad :: "string \<Rightarrow> int \<Rightarrow> u32 \<Rightarrow> string" where
  "ref_pad str width flags =
     (let fill = spaces (width - int (length str)) in if flags AND 2 \<noteq> 0 then str @ fill else fill @ str)"

text \<open>
  How a conversion specification is to be read: the flags are the characters before the width, in any order; a width or a precision is
  a decimal number or the next argument; the length modifier says how many bits of the argument count.
\<close>

definition is_digit :: "char \<Rightarrow> bool" where
  "is_digit c \<longleftrightarrow> c \<in> set ''0123456789''"

definition decimal :: "string \<Rightarrow> int" where
  "decimal ds = foldl (\<lambda>n c. n * 10 + (of_char c - of_char (CHR ''0''))) 0 ds"

definition ref_number :: "string \<Rightarrow> int \<times> string" where
  "ref_number p = (s32 (decimal (takeWhile is_digit p)), dropWhile is_digit p)"

definition flag_bits :: "string \<Rightarrow> u32" where
  "flag_bits fs = (if CHR ''#'' \<in> set fs then 1 else 0) OR (if CHR ''-'' \<in> set fs then 2 else 0) OR (if CHR ''0'' \<in> set fs then 4 else 0) OR
     (if CHR ''+'' \<in> set fs then 8 else 0) OR (if CHR '' '' \<in> set fs then 16 else 0)"

definition ref_flags :: "string \<Rightarrow> u32 \<times> string" where
  "ref_flags p = (flag_bits (takeWhile (\<lambda>c. c \<in> set ''#-0+ '') p), dropWhile (\<lambda>c. c \<in> set ''#-0+ '') p)"

text \<open>A star takes the next argument; a negative width stands for the flag of the left margin.\<close>

definition ref_star :: "varg list \<Rightarrow> (int \<times> varg list) option" where
  "ref_star args = (case args of VWord w # args \<Rightarrow> Some (sint (ucast w :: u32), args) | _ \<Rightarrow> None)"

definition ref_width :: "string \<Rightarrow> u32 \<Rightarrow> varg list \<Rightarrow> (u32 \<times> int \<times> varg list \<times> string) option" where
  "ref_width p flags args =
     (if take 1 p = ''*'' then
        map_option (\<lambda>(n, args). if n < 0 then (flags OR 2, s32 (- n), args, drop 1 p) else (flags, n, args, drop 1 p)) (ref_star args)
      else let (n, q) = ref_number p in Some (flags, n, args, q))"

definition ref_prec :: "string \<Rightarrow> varg list \<Rightarrow> (int \<times> varg list \<times> string) option" where
  "ref_prec p args =
     (if take 2 p = ''.*'' then map_option (\<lambda>(n, args). (n, args, drop 2 p)) (ref_star args)
      else if take 1 p = ''.'' then let (n, q) = ref_number (drop 1 p) in Some (n, args, q)
      else Some (- 1, args, p))"

definition ref_length :: "string \<Rightarrow> nat \<times> string" where
  "ref_length p =
     (if take 2 p = ''hh'' then (2, drop 2 p) else if take 1 p = ''h'' then (1, drop 1 p)
      else if take 2 p = ''ll'' then (4, drop 2 p) else if take 1 p = ''l'' then (3, drop 1 p)
      else if take 1 p = ''z'' then (5, drop 1 p) else if take 1 p = ''j'' then (6, drop 1 p)
      else if take 1 p = ''t'' then (7, drop 1 p) else (0, p))"

definition ref_spec :: "string \<Rightarrow> varg list \<Rightarrow> (u32 \<times> int \<times> int \<times> nat \<times> varg list \<times> string) option" where
  "ref_spec p args =
     (let (flags, p) = ref_flags p in
      case ref_width p flags args of None \<Rightarrow> None
      | Some (flags, width, args, p) \<Rightarrow>
          map_option (\<lambda>(prec, args, p). let (len, p) = ref_length p in (flags, width, prec, len, args, p)) (ref_prec p args))"

definition arg_bits :: "nat \<Rightarrow> nat" where
  "arg_bits len = (if len = 1 then 16 else if len = 2 then 8 else if 3 \<le> len \<and> len \<le> 7 then 64 else 32)"

definition ref_signed :: "nat \<Rightarrow> u64 \<Rightarrow> u64" where
  "ref_signed len w = of_int (signed_take_bit (arg_bits len - 1) (uint w))"

definition ref_unsigned :: "nat \<Rightarrow> u64 \<Rightarrow> u64" where
  "ref_unsigned len w = of_int (take_bit (arg_bits len) (uint w))"

definition ref_convert ::
  "memory \<Rightarrow> char \<Rightarrow> u32 \<Rightarrow> int \<Rightarrow> int \<Rightarrow> nat \<Rightarrow> varg list \<Rightarrow> (string \<times> varg list) option" where
  "ref_convert m c flags width prec len args =
     (if c = CHR ''c'' then
        (case args of VWord w # args \<Rightarrow>
           Some (ref_pad [char_of (unat (ucast w :: u8))] width flags, args) | _ \<Rightarrow> None)
      else if c = CHR ''s'' then
        (case args of [] \<Rightarrow> None | a # args \<Rightarrow>
           map_option (\<lambda>str. (ref_pad str width flags, args))
             (ref_str m (if a = VWord 0 then VLit ''(null)'' else a) prec))
      else if c = CHR ''d'' \<or> c = CHR ''i'' then
        (case args of VWord w # args \<Rightarrow> Some (ref_int (ref_signed len w) width prec flags, args) | _ \<Rightarrow> None)
      else if c = CHR ''u'' \<or> c = CHR ''o'' \<or> c = CHR ''x'' \<or> c = CHR ''X'' then
        (case args of VWord w # args \<Rightarrow>
           Some (ref_uint (ref_unsigned len w)
             (if c = CHR ''o'' then 8 else if c = CHR ''u'' then 10 else 16) width prec flags (c = CHR ''X''), args)
         | _ \<Rightarrow> None)
      else if c = CHR ''p'' then
        (case args of VWord w # args \<Rightarrow> Some (ref_uint w 16 width prec (flags OR 1) False, args) | _ \<Rightarrow> None)
      else if c = CHR ''%'' then Some (''%'', args)
      else Some ([CHR ''%'', c], args))"

section \<open>The parser reads what it should\<close>

lemma is_digit_code: "is_digit c \<longleftrightarrow> 48 \<le> (of_char c :: nat) \<and> (of_char c :: nat) \<le> 57"
proof
  assume r: "48 \<le> (of_char c :: nat) \<and> (of_char c :: nat) \<le> 57"
  define n where "n = (of_char c :: nat)"
  have "n \<in> set [48..<58]" using r unfolding set_upt by (simp add: n_def)
  moreover have "set ''0123456789'' = char_of ` set [48..<58 :: nat]" by code_simp
  moreover have "c = char_of n" by (simp add: n_def)
  ultimately show "is_digit c" unfolding is_digit_def by blast
qed (auto simp: is_digit_def)

lemma s32_step: "s32 (s32 x * 10 + d) = s32 (x * 10 + d)"
proof -
  have "s32 y = (y + 2 ^ 31) mod 2 ^ 32 - 2 ^ 31" for y by (simp add: s32_def signed_take_bit_eq_take_bit_shift take_bit_eq_mod)
  moreover have "((((x + 2 ^ 31) mod 2 ^ 32 - 2 ^ 31) * 10 + d) + 2 ^ 31) mod 2 ^ 32 = ((x * 10 + d) + 2 ^ 31) mod (2 ^ 32 :: int)"
  proof -
    have c: "((x + 2 ^ 31) mod 2 ^ 32 - 2 ^ 31) mod 2 ^ 32 = x mod (2 ^ 32 :: int)" by (simp only: mod_diff_left_eq) simp
    show ?thesis by (intro mod_add_cong mod_mult_cong c refl)
  qed
  ultimately show ?thesis by simp
qed

lemma parse_num_ref: "parse_num p 0 = ref_number p"
proof -
  have "parse_num p (s32 n) = (s32 (foldl (\<lambda>n c. n * 10 + (of_char c - of_char (CHR ''0''))) n (takeWhile is_digit p)), dropWhile is_digit p)" for n
    by (induction p arbitrary: n) (simp_all add: is_digit_code s32_step)
  from this [of 0] show ?thesis by (simp add: ref_number_def decimal_def s32_def)
qed

lemma flag_bits_Cons:
  "flag_bits (c # fs) = (if c = CHR ''#'' then 1 else if c = CHR ''-'' then 2 else if c = CHR ''0'' then 4 else if c = CHR ''+'' then 8
     else if c = CHR '' '' then 16 else 0) OR flag_bits fs"
  unfolding flag_bits_def by (simp add: ac_simps)

lemma parse_flags_ref: "parse_flags p 0 = ref_flags p"
proof -
  have "parse_flags p f = (f OR flag_bits (takeWhile (\<lambda>c. c \<in> set ''#-0+ '') p), dropWhile (\<lambda>c. c \<in> set ''#-0+ '') p)" for f
    by (induction p arbitrary: f) (simp_all add: flag_bits_Cons flag_bits_def [of "[]"] or.assoc)
  from this [of 0] show ?thesis by (simp add: ref_flags_def)
qed

lemma va_int_ref: "va_int args = ref_star args"
  by (cases args rule: va_int.cases) (simp_all add: ref_star_def s32_of_def)

lemma cur_take: "c \<noteq> nul \<Longrightarrow> cur p = c \<longleftrightarrow> take 1 p = [c]"
  by (cases p) (auto simp: cur_def)

lemma cur_take2: "c \<noteq> nul \<Longrightarrow> d \<noteq> nul \<Longrightarrow> take 2 p = [c, d] \<longleftrightarrow> cur p = c \<and> cur (tl p) = d"
  by (cases p; cases "tl p") (auto simp: cur_def)

lemma parse_width_ref: "parse_width p flags args = ref_width p flags args"
  unfolding parse_width_def ref_width_def parse_num_ref va_int_ref
  by (auto simp: cur_take drop_Suc split: option.splits prod.splits)

lemma drop_tl: "drop 1 p = tl p" "drop 2 p = tl (tl p)"
  by (simp_all add: drop_Suc numeral_2_eq_2)

lemma parse_prec_ref: "parse_prec p args = ref_prec p args"
proof -
  have "take 2 p = ''.*'' \<longleftrightarrow> cur p = CHR ''.'' \<and> cur (tl p) = CHR ''*''" "take 1 p = ''.'' \<longleftrightarrow> cur p = CHR ''.''"
    using cur_take2 [of "CHR ''.''" "CHR ''*''" p] cur_take [of "CHR ''.''" p] by auto
  then show ?thesis
    unfolding parse_prec_def ref_prec_def parse_num_ref va_int_ref drop_tl by (auto split: option.splits prod.splits)
qed

lemma parse_length_ref: "parse_length p = ref_length p"
proof -
  have c: "take 1 p = [c] \<longleftrightarrow> cur p = c" if "c \<noteq> nul" for c using cur_take [OF that, of p] by auto
  have "take 2 p = ''hh'' \<longleftrightarrow> cur p = CHR ''h'' \<and> cur (tl p) = CHR ''h''" "take 2 p = ''ll'' \<longleftrightarrow> cur p = CHR ''l'' \<and> cur (tl p) = CHR ''l''"
    using cur_take2 [of "CHR ''h''" "CHR ''h''" p] cur_take2 [of "CHR ''l''" "CHR ''l''" p] by auto
  then show ?thesis using c [of "CHR ''h''"] c [of "CHR ''l''"] c [of "CHR ''z''"] c [of "CHR ''j''"] c [of "CHR ''t''"]
    unfolding parse_length_def ref_length_def drop_tl by simp
qed

lemma ref_spec_parse: "ref_spec p args = parse_spec p args"
proof -
  obtain f q where f: "ref_flags p = (f, q)" by fastforce
  show ?thesis
  proof (cases "ref_width q f args")
    case None
    then show ?thesis by (simp add: ref_spec_def parse_spec_def parse_flags_ref parse_width_ref f)
  next
    case (Some w)
    obtain f' n as r where w: "w = (f', n, as, r)" by (cases w)
    show ?thesis
    proof (cases "ref_prec r as")
      case None
      then show ?thesis using Some w by (simp add: ref_spec_def parse_spec_def parse_flags_ref parse_width_ref parse_prec_ref f)
    next
      case pr: (Some pr)
      obtain k as' q' where "pr = (k, as', q')" by (cases pr)
      then show ?thesis
        using Some w pr by (simp add: ref_spec_def parse_spec_def parse_flags_ref parse_width_ref parse_prec_ref parse_length_ref f split: prod.split)
    qed
  qed
qed

lemma signed_parts:
  "(scast (ucast w :: u8) :: u64) = of_int (signed_take_bit 7 (uint w))" "(scast (ucast w :: u16) :: u64) = of_int (signed_take_bit 15 (uint w))"
  "(scast (ucast w :: u32) :: u64) = of_int (signed_take_bit 31 (uint w))" "(of_int (signed_take_bit 63 (uint w)) :: u64) = w" for w :: u64
proof -
  show "(scast (ucast w :: u8) :: u64) = of_int (signed_take_bit 7 (uint w))" by transfer simp
  show "(scast (ucast w :: u16) :: u64) = of_int (signed_take_bit 15 (uint w))" by transfer simp
  show "(scast (ucast w :: u32) :: u64) = of_int (signed_take_bit 31 (uint w))" by transfer simp
  show "(of_int (signed_take_bit 63 (uint w)) :: u64) = w" by transfer (simp add: take_bit_signed_take_bit)
qed

lemma unsigned_parts:
  "(ucast (ucast w :: u8) :: u64) = of_int (take_bit 8 (uint w))" "(ucast (ucast w :: u16) :: u64) = of_int (take_bit 16 (uint w))"
  "(ucast (ucast w :: u32) :: u64) = of_int (take_bit 32 (uint w))" "(of_int (take_bit 64 (uint w)) :: u64) = w" for w :: u64
proof -
  show "(ucast (ucast w :: u8) :: u64) = of_int (take_bit 8 (uint w))" by transfer simp
  show "(ucast (ucast w :: u16) :: u64) = of_int (take_bit 16 (uint w))" by transfer simp
  show "(ucast (ucast w :: u32) :: u64) = of_int (take_bit 32 (uint w))" by transfer simp
  show "(of_int (take_bit 64 (uint w)) :: u64) = w" by transfer simp
qed

lemma ref_args: "ref_signed len w = signed_arg len w" "ref_unsigned len w = unsigned_arg len w"
proof -
  have "3 \<le> len \<and> len \<le> 7 \<longleftrightarrow> len = 3 \<or> len = 4 \<or> len = 5 \<or> len = 6 \<or> len = 7" by auto
  then show "ref_signed len w = signed_arg len w" "ref_unsigned len w = unsigned_arg len w"
    by (simp_all add: ref_signed_def signed_arg_def ref_unsigned_def unsigned_arg_def arg_bits_def signed_parts unsigned_parts)
qed

section \<open>The text of a format\<close>

function ref_format :: "memory \<Rightarrow> string \<Rightarrow> varg list \<Rightarrow> string option" where
  "ref_format m [] args = Some []"
| "ref_format m (c # p) args =
     (if c \<noteq> CHR ''%'' then map_option ((#) c) (ref_format m p args)
      else (case ref_spec p args of None \<Rightarrow> None
            | Some (flags, width, prec, len, args, p') \<Rightarrow>
                (case p' of [] \<Rightarrow> None
                 | d # p'' \<Rightarrow>
                     (case ref_convert m d flags width prec len args of None \<Rightarrow> None
                      | Some (str, args) \<Rightarrow> map_option ((@) str) (ref_format m p'' args)))))"
  by pat_completeness auto
termination
  by (relation "measure (\<lambda>(m, p, args). length p)") (auto simp: ref_spec_parse dest!: parse_spec_len)

text \<open>Proofs about the formatter may use the parser and the argument readers of the code.\<close>

declare ref_format.simps [simp del]

lemmas ref_format_parse [simp] = ref_format.simps [unfolded ref_spec_parse]
lemmas ref_convert_code = ref_convert_def [unfolded ref_args]

text \<open>The string arguments a format string reads, each with its precision.\<close>

definition conv_strings :: "char \<Rightarrow> varg list \<Rightarrow> int \<Rightarrow> (varg \<times> int) list" where
  "conv_strings c args prec =
     (if c = CHR ''s'' then
        (case args of [] \<Rightarrow> [] | a # _ \<Rightarrow> [(if a = VWord 0 then VLit ''(null)'' else a, prec)])
      else [])"

function fmt_strings :: "string \<Rightarrow> varg list \<Rightarrow> (varg \<times> int) list" where
  "fmt_strings [] args = []"
| "fmt_strings (c # p) args =
     (if c \<noteq> CHR ''%'' then fmt_strings p args
      else (case parse_spec p args of None \<Rightarrow> []
            | Some (flags, width, prec, len, args, p') \<Rightarrow>
                (case p' of [] \<Rightarrow> []
                 | d # p'' \<Rightarrow> conv_strings d args prec
                     @ fmt_strings p'' (if d \<in> set ''csdiuoxXp'' then tl args else args))))"
  by pat_completeness auto
termination
  by (relation "measure (\<lambda>(p, args). length p)") (auto dest!: parse_spec_len)

lemma ref_convert_args:
  "ref_convert m c flags width prec len args = Some (str, args') \<Longrightarrow>
    args' = (if c \<in> set ''csdiuoxXp'' then tl args else args)"
  by (auto simp: ref_convert_code split: if_splits list.splits varg.splits)

text \<open>The text depends on memory only through the strings it reads.\<close>

lemma ref_convert_cong:
  assumes "\<And>a k. (a, k) \<in> set (conv_strings c args prec) \<Longrightarrow> ref_str m' a k = ref_str m a k"
  shows "ref_convert m' c flags width prec len args = ref_convert m c flags width prec len args"
proof (cases "c = CHR ''s''")
  case True
  then show ?thesis
    using assms by (auto simp: ref_convert_code conv_strings_def split: list.splits)
next
  case False
  then show ?thesis by (simp add: ref_convert_code)
qed

lemma ref_format_cong:
  assumes "\<And>a k. (a, k) \<in> set (fmt_strings p args) \<Longrightarrow> ref_str m' a k = ref_str m a k"
  shows "ref_format m' p args = ref_format m p args"
  using assms
proof (induction p args rule: fmt_strings.induct)
  case (1 args)
  then show ?case by simp
next
  case (2 c p args)
  show ?case
  proof (cases "c = CHR ''%'' \<and> parse_spec p args \<noteq> None")
    case False
    with 2 show ?thesis by (auto split: option.splits)
  next
    case True
    then obtain fl w pr ln as p' where sp: "parse_spec p args = Some (fl, w, pr, ln, as, p')"
      by (metis option.exhaust prod_cases6)
    show ?thesis
    proof (cases p')
      case Nil
      with True sp show ?thesis by simp
    next
      case (Cons d q)
      have conv: "ref_convert m' d fl w pr ln as = ref_convert m d fl w pr ln as"
        using "2.prems" True sp Cons by (intro ref_convert_cong) auto
      have rest: "ref_format m' q as' = ref_format m q as'"
        if "as' = (if d \<in> set ''csdiuoxXp'' then tl as else as)" for as'
        unfolding that using "2.prems" True sp Cons
        by (intro "2.IH"(2) [of "(fl, w, pr, ln, as, p')" fl _ w _ pr _ ln _ as p' d q]) auto
      from True sp Cons conv show ?thesis
        by (auto simp: rest [OF ref_convert_args] split: option.splits)
    qed
  qed
qed

section \<open>Digits\<close>

text \<open>The value of a digit string: the reader that undoes \<open>num_str\<close>.\<close>

definition digit_val :: "char \<Rightarrow> nat" where
  "digit_val c = (let n = of_char c in if n < 58 then n - 48 else if n < 71 then n - 55 else n - 87)"

definition num_val :: "nat \<Rightarrow> string \<Rightarrow> nat" where
  "num_val b str = foldl (\<lambda>v c. v * b + digit_val c) 0 str"

lemma digit_val_char: "d < 16 \<Longrightarrow> digit_val (digit_char upper d) = d"
proof -
  assume "d < 16"
  then have "d \<in> set [0..<16]" by simp
  moreover have "\<forall>d \<in> set [0..<16]. \<forall>u. digit_val (digit_char u d) = d"
    by code_simp
  ultimately show ?thesis by blast
qed

lemma num_val_num_str: "2 \<le> b \<Longrightarrow> b \<le> 16 \<Longrightarrow> num_val b (num_str upper b n) = n"
proof (induction upper b n rule: num_str.induct)
  case (1 upper b n)
  show ?case
  proof (cases "n = 0")
    case True
    then show ?thesis by (simp add: num_str.simps num_val_def)
  next
    case False
    then have "num_val b (num_str upper b (n div b)) = n div b" using 1 by simp
    moreover have "digit_val (digit_char upper (n mod b)) = n mod b"
    proof (rule digit_val_char)
      have "n mod b < b" using "1.prems" by simp
      with "1.prems" show "n mod b < 16" by linarith
    qed
    ultimately show ?thesis
      using False "1.prems" by (simp add: num_str.simps [of upper b n] num_val_def)
  qed
qed

lemma length_num_str: "2 \<le> b \<Longrightarrow> n < 2 ^ k \<Longrightarrow> length (num_str upper b n) \<le> k"
proof (induction k arbitrary: n)
  case 0
  then show ?case by (simp add: num_str.simps)
next
  case (Suc k)
  have "n div b \<le> n div 2" using Suc.prems(1) by (rule div_le_mono2 [rotated]) simp
  also have "\<dots> < 2 ^ k" using Suc.prems(2) by (simp add: less_mult_imp_div_less mult.commute)
  finally have "length (num_str upper b (n div b)) \<le> k" using Suc.IH Suc.prems(1) by blast
  then show ?case by (simp add: num_str.simps [of upper b n])
qed

text \<open>The digit buffer never overflows: 64 slots hold any 64-bit value in any base from 2 up.\<close>

lemma uint_digits_num_str:
  assumes "2 \<le> unat b" and "unat b \<le> 16" and "unat v < 2 ^ slots"
  shows "uint_digits slots v b (if upper then digits_upper else digits_lower) buf
    = Some (buf @ rev (num_str upper (unat b) (unat v)))"
  using assms(3)
proof (induction slots arbitrary: v buf)
  case 0
  then have "v = 0" by (simp add: unsigned_eq_0_iff)
  then show ?case by (subst uint_digits.simps) (simp add: num_str.simps)
next
  case (Suc k)
  show ?case
  proof (cases "v = 0")
    case True
    then show ?thesis by (subst uint_digits.simps) (simp add: num_str.simps)
  next
    case False
    have b: "b \<noteq> 0" "\<not> b > 16" using assms(1,2) by (auto simp: word_less_nat_alt)
    have "unat v div unat b \<le> unat v div 2" using assms(1) by (rule div_le_mono2 [rotated]) simp
    also have "\<dots> < 2 ^ k" using Suc.prems by (simp add: less_mult_imp_div_less mult.commute)
    finally have "unat (v div b) < 2 ^ k" by (simp add: unat_div)
    from Suc.IH [OF this] show ?thesis
      using False b assms(1) word_gt_0 [of v]
      by (subst uint_digits.simps)
        (simp add: unat_div unat_mod num_str.simps [of upper "unat b" "unat v"] digit_char_def unsigned_eq_0_iff)
  qed
qed

lemma dec_count_num_str: "dec_count v c = c + int (length (num_str False 10 (unat v)))"
proof (induction v c rule: dec_count.induct)
  case (1 v c)
  show ?case
  proof (cases "v = 0")
    case True
    then show ?thesis by (simp add: dec_count.simps num_str.simps)
  next
    case False
    then show ?thesis
      using 1 word_gt_0 [of v]
      by (simp add: dec_count.simps [of v] num_str.simps [of False 10 "unat v"] unat_div unsigned_eq_0_iff)
  qed
qed

section \<open>The contract of an output function\<close>

text \<open>
  \<open>ok\<close>: a state in which output returns. \<open>sent str s t\<close>: \<open>t\<close> is \<open>s\<close> after the characters of \<open>str\<close>.
  \<open>dirty\<close>: the addresses output may write (none for the serial port, the screen for the console).
\<close>

locale char_sink =
  fixes put :: "char \<Rightarrow> 'z hw_scheme \<Rightarrow> (unit, 'z hw_scheme) outcome"
    and ok :: "'z hw_scheme \<Rightarrow> bool"
    and sent :: "string \<Rightarrow> 'z hw_scheme \<Rightarrow> 'z hw_scheme \<Rightarrow> bool"
    and dirty :: "'z hw_scheme \<Rightarrow> u64 set"
  assumes put_sent: "ok s \<Longrightarrow> returns (put c s) (\<lambda>_ t. ok t \<and> sent [c] s t)"
    and sent_nil: "sent [] s s"
    and sent_trans: "sent xs s t \<Longrightarrow> sent ys t u \<Longrightarrow> sent (xs @ ys) s u"
    and sent_mem: "sent xs s t \<Longrightarrow> x \<notin> dirty s \<Longrightarrow> mem t x = mem s x"
    and sent_dirty: "sent xs s t \<Longrightarrow> dirty t = dirty s"
begin

text \<open>\<open>sends r str s\<close>: the operation started in \<open>s\<close> returns with exactly \<open>str\<close> sent.\<close>

definition sends :: "('a, 'z hw_scheme) outcome \<Rightarrow> string \<Rightarrow> 'z hw_scheme \<Rightarrow> ('a \<Rightarrow> bool) \<Rightarrow> bool" where
  "sends r str s Q \<longleftrightarrow> returns r (\<lambda>a t. Q a \<and> ok t \<and> sent str s t)"

lemma sends_Ret: "ok s \<Longrightarrow> Q a \<Longrightarrow> sends (Ret a s) [] s Q"
  by (simp add: sends_def sent_nil)

lemma sends_put: "ok s \<Longrightarrow> sends (put c s) [c] s (\<lambda>_. True)"
  using put_sent by (simp add: sends_def)

lemma sends_andthen:
  assumes "sends r xs s Q"
    and "\<And>a t. Q a \<Longrightarrow> ok t \<Longrightarrow> sent xs s t \<Longrightarrow> sends (k a t) ys t R"
  shows "sends (andthen r k) (xs @ ys) s R"
proof -
  from assms(1) obtain a t where t: "r = Ret a t" "Q a" "ok t" "sent xs s t"
    by (auto simp: sends_def returns_conv)
  from assms(2) [OF t(2-4)] show ?thesis
    using sent_trans [OF t(4)] by (auto simp: sends_def t(1) elim: returns_weaken)
qed

lemma sends_andthen_eq:
  assumes "sends r xs s Q"
    and "\<And>a t. Q a \<Longrightarrow> ok t \<Longrightarrow> sent xs s t \<Longrightarrow> sends (k a t) ys t R" and "zs = xs @ ys"
  shows "sends (andthen r k) zs s R"
  using sends_andthen [OF assms(1,2)] assms(3) by simp

lemma sends_put_str: "ok s \<Longrightarrow> sends (put_str put str s) str s (\<lambda>_. True)"
proof (induction str arbitrary: s)
  case Nil
  then show ?case by (simp add: sends_Ret)
next
  case (Cons c cs)
  have "sends (andthen (put c s) (\<lambda>_ s. put_str put cs s)) ([c] @ cs) s (\<lambda>_. True)"
    by (rule sends_andthen [OF sends_put [OF Cons.prems]]) (rule Cons.IH)
  then show ?case by simp
qed

lemma sends_put_while:
  "ok s \<Longrightarrow> sends (put_while put c width count s) (replicate (nat (width - count)) c) s
    (\<lambda>w. w = min width count)"
proof (induction "nat (width - count)" arbitrary: width s)
  case 0
  then show ?case by (simp add: put_while.simps [of put c width] sends_Ret)
next
  case (Suc n)
  then have gt: "width > count" and n: "n = nat (width - 1 - count)" by auto
  have "sends (andthen (put c s) (\<lambda>_ s. put_while put c (width - 1) count s))
      ([c] @ replicate (nat (width - 1 - count)) c) s (\<lambda>w. w = min (width - 1) count)"
    using Suc.hyps(1) [OF n] by (intro sends_andthen [OF sends_put [OF Suc.prems]])
  moreover have "c # replicate (nat (width - 1 - count)) c = replicate (nat (width - count)) c"
    using Suc.hyps(2) n by (metis replicate_Suc)
  moreover have "min (width - 1) count = count" "min width count = count" using gt by auto
  ultimately show ?case
    using gt by (simp add: put_while.simps [of put c width])
qed

lemma sends_put_predec:
  "ok s \<Longrightarrow> sends (put_predec put width s) (replicate (nat (width - 1)) (CHR '' '')) s (\<lambda>_. True)"
proof (induction "nat (width - 1)" arbitrary: width s)
  case 0
  then show ?case by (simp add: put_predec.simps [of put width] sends_Ret)
next
  case (Suc n)
  then have gt: "width - 1 > 0" and n: "n = nat (width - 1 - 1)" by auto
  have "sends (andthen (put (CHR '' '') s) (\<lambda>_ s. put_predec put (width - 1) s))
      ([CHR '' ''] @ replicate (nat (width - 1 - 1)) (CHR '' '')) s (\<lambda>_. True)"
    using Suc.hyps(1) [OF n] by (intro sends_andthen [OF sends_put [OF Suc.prems]])
  moreover have "CHR '' '' # replicate (nat (width - 1 - 1)) (CHR '' '') = replicate (nat (width - 1)) (CHR '' '')"
    using Suc.hyps(2) n by (metis replicate_Suc)
  ultimately show ?case
    using gt by (simp add: put_predec.simps [of put width])
qed

lemma sends_if:
  "(b \<Longrightarrow> sends r xs s Q) \<Longrightarrow> (\<not> b \<Longrightarrow> sends r' xs' s Q) \<Longrightarrow>
    sends (if b then r else r') (if b then xs else xs') s Q"
  by simp

text \<open>\<open>put_while\<close> under a guard, as the padding loops of the code use it.\<close>

lemma sends_pad:
  "ok s \<Longrightarrow> sends (if b then put_while put c width count s else Ret width s)
    (if b then replicate (nat (width - count)) c else []) s
    (\<lambda>w. w = (if b then min width count else width))"
  by (auto simp: sends_put_while sends_Ret)

lemma sends_pad_last:
  assumes "ok s" and "b \<Longrightarrow> w = width"
  shows "sends (andthen (if b then put_while put c w count s else Ret w s) (\<lambda>_ s. Ret () s))
    (if b then replicate (nat (width - count)) c else []) s (\<lambda>_. True)"
proof -
  have "(if b then replicate (nat (w - count)) c else []) = (if b then replicate (nat (width - count)) c else [])"
    using assms(2) by simp
  then show ?thesis
    using sends_andthen [OF sends_pad [OF assms(1), of b c w count], of "\<lambda>_ s. Ret () s" "[]" "\<lambda>_. True"]
    by (simp add: sends_Ret)
qed

lemma sends_print_uint:
  assumes "ok s" and b: "b = 8 \<or> b = 10 \<or> b = 16"
  shows "sends (print_uint put v (of_nat b) width prec flags upper s)
    (ref_uint v b width prec flags upper) s (\<lambda>_. True)"
proof -
  let ?tbl = "if upper then digits_upper else digits_lower"
  define ds where "ds = (if v = 0 \<and> prec \<noteq> 0 then ''0'' else num_str upper b (unat v))"
  have ub: "unat (of_nat b :: u64) = b" using b by auto
  have "unat v < 2 ^ 64" using unat64_bound [of v] by simp
  then have "uint_digits 64 v (of_nat b) ?tbl [] = Some (rev (num_str upper b (unat v)))"
    using uint_digits_num_str [of "of_nat b" v 64 upper "[]"] b unfolding ub by auto
  then have buf: "(if v = 0 \<and> prec \<noteq> 0 then Some [CHR ''0''] else uint_digits 64 v (of_nat b) ?tbl [])
      = Some (rev ds)" by (simp add: ds_def)
  define i where "i = int (length ds)"
  define ap where "ap = (if prec > i then prec else i)"
  define prefix where "prefix = (if flags AND 1 = 0 then [] else if b = 16 then (if upper then ''0X'' else ''0x'')
      else if b = 8 then ''0'' else [])"
  define count where "count = ap + int (length prefix)"
  have b16: "(of_nat b :: u64) = 16 \<longleftrightarrow> b = 16" and b8: "(of_nat b :: u64) = 8 \<longleftrightarrow> b = 8"
    using b by auto
  have cnt: "(if flags AND 1 \<noteq> 0 then if (of_nat b :: u64) = 16 then ap + 2
      else if (of_nat b :: u64) = 8 then ap + 1 else ap else ap) = count"
    by (simp add: count_def prefix_def b16 b8)
  have digits: "ref_digits upper b prec v = zeros (ap - i) @ ds"
    by (auto simp: ref_digits_def ds_def [symmetric] ap_def i_def zeros_def Let_def)
  have len: "int (length (prefix @ ref_digits upper b prec v)) = count"
    by (auto simp: digits count_def zeros_def ap_def i_def)
  have pre: "sends (if flags AND 1 \<noteq> 0 then if (of_nat b :: u64) = 16 then put_str put (if upper then ''0X'' else ''0x'') t
      else if (of_nat b :: u64) = 8 then put (CHR ''0'') t else Ret () t else Ret () t) prefix t (\<lambda>_. True)" if "ok t" for t
    using that sends_put_str [OF that] sends_put [OF that] by (auto simp: prefix_def b16 b8 sends_Ret)
  let ?lpad = "if flags AND 2 = 0 then replicate (nat (width - count)) (if flags AND 4 \<noteq> 0 then CHR ''0'' else CHR '' '') else []"
  let ?rpad = "if flags AND 2 \<noteq> 0 then spaces (width - count) else []"
  have ref: "ref_uint v b width prec flags upper = ?lpad @ prefix @ zeros (ap - i) @ ds @ ?rpad"
    unfolding ref_uint_def prefix_def [symmetric] Let_def len
    by (simp add: digits spaces_def zeros_def)
  show ?thesis
    unfolding ref print_uint_def Let_def buf option.case length_rev i_def [symmetric] ap_def [symmetric] cnt rev_rev_ident
  proof (rule sends_andthen [OF sends_pad [OF assms(1)]], goal_cases)
    case (1 w t)
    note w = 1(1)
    show ?case
    proof (rule sends_andthen [OF pre [OF 1(2)]], goal_cases)
      case (1 _ t)
      show ?case
      proof (rule sends_andthen [OF sends_put_while [OF 1(2), of "CHR ''0''", folded zeros_def]], goal_cases)
        case (1 _ t)
        show ?case
        proof (rule sends_andthen [OF sends_put_str [OF 1(2)]], goal_cases)
          case (1 _ t)
          show ?case
            unfolding spaces_def by (rule sends_pad_last [OF 1(2)]) (use w in auto)
        qed
      qed
    qed
  qed
qed

lemma sends_print_int:
  assumes "ok s"
  shows "sends (print_int put v width prec flags s) (ref_int v width prec flags) s (\<lambda>_. True)"
proof -
  define neg where "neg \<longleftrightarrow> sint v < 0"
  define vv where "vv = (if neg then - v else v)"
  define ds where "ds = ref_digits False 10 prec vv"
  define sign where "sign = (if neg then ''-'' else if flags AND 8 \<noteq> 0 then ''+''
      else if flags AND 16 \<noteq> 0 then '' '' else [])"
  define count where "count = int (length sign + length ds)"
  define c0 where "c0 = dec_count vv (if vv = 0 \<and> prec \<noteq> 0 then 1 else 0)"
  have "c0 = int (length (if vv = 0 \<and> prec \<noteq> 0 then ''0'' else num_str False 10 (unat vv)))"
    by (auto simp: c0_def dec_count_num_str num_str.simps)
  then have "(if prec > c0 then prec else c0) = int (length ds)"
    by (auto simp: ds_def ref_digits_def Let_def zeros_def)
  then have cnt: "(if neg \<or> flags AND 8 \<noteq> 0 \<or> flags AND 16 \<noteq> 0 then (if prec > c0 then prec else c0) + 1
      else (if prec > c0 then prec else c0)) = count"
    by (simp add: count_def sign_def)
  have sgn: "sends (if neg then put (CHR ''-'') t else if flags AND 8 \<noteq> 0 then put (CHR ''+'') t
      else if flags AND 16 \<noteq> 0 then put (CHR '' '') t else Ret () t) sign t (\<lambda>_. True)" if "ok t" for t
    using sends_put [OF that] that by (simp add: sign_def sends_Ret)
  have ref10: "ref_uint vv 10 0 prec 0 False = ds"
    by (simp add: ref_uint_def ds_def Let_def spaces_def)
  let ?l = "flags AND 2 = 0 \<and> flags AND 4 = 0" and ?z = "flags AND 2 = 0 \<and> flags AND 4 \<noteq> 0"
    and ?r = "flags AND 2 \<noteq> 0" and ?fill = "replicate (nat (width - count))"
  have ref: "ref_int v width prec flags = (if ?l then ?fill (CHR '' '') else []) @ sign
      @ (if ?z then ?fill (CHR ''0'') else []) @ ds @ (if ?r then ?fill (CHR '' '') else [])"
    unfolding ref_int_def Let_def neg_def [symmetric] vv_def [symmetric] ds_def [symmetric]
      sign_def [symmetric] count_def [symmetric]
    by (simp add: spaces_def zeros_def)
  show ?thesis
    unfolding ref print_int_def Let_def neg_def [symmetric] vv_def [symmetric] c0_def [symmetric] cnt
  proof (rule sends_andthen [OF sends_pad [OF assms]], goal_cases)
    case (1 w t)
    note w = 1(1)
    show ?case
    proof (rule sends_andthen [OF sgn [OF 1(2)]], goal_cases)
      case (1 _ t)
      have "(if ?z then ?fill (CHR ''0'') else []) = (if ?z then replicate (nat (w - count)) (CHR ''0'') else [])"
        using w by simp
      note pad = sends_pad [OF 1(2), of ?z "CHR ''0''" w count, folded this]
      show ?case
      proof (rule sends_andthen [OF pad], goal_cases)
        case (1 w' t)
        note w' = 1(1)
        have "sends (print_uint put vv 10 0 prec 0 False t) ds t (\<lambda>_. True)"
          using sends_print_uint [OF 1(2), of 10 vv 0 prec 0 False] by (simp add: ref10)
        then show ?case
        proof (rule sends_andthen, goal_cases)
          case (1 _ t)
          show ?case by (rule sends_pad_last [OF 1(2)]) (use w w' in auto)
        qed
      qed
    qed
  qed
qed

lemma put_arg_sends:
  assumes "ok s" and "\<And>m'. (\<And>x. x \<notin> dirty s \<Longrightarrow> m' x = mem s x) \<Longrightarrow> map (str_char m' a) [i..<n] = str" and "i \<le> n"
  shows "sends (put_arg put a i n s) str s (\<lambda>_. True)"
  using assms
proof (induction "n - i" arbitrary: i s str)
  case 0
  then have "str = []" "\<not> i < n" by auto
  with 0 show ?case by (subst put_arg.simps) (simp add: sends_Ret)
next
  case (Suc k)
  then have lt: "i < n" and k: "k = n - Suc i" by auto
  then have upt: "[i..<n] = i # [Suc i..<n]" by (simp add: upt_conv_Cons)
  have str: "str = [str_char (mem s) a i] @ tl str"
    using Suc.prems(2) [of "mem s"] upt by auto
  have "sends (andthen (put (str_char (mem s) a i) s) (\<lambda>_ s. put_arg put a (Suc i) n s))
      ([str_char (mem s) a i] @ tl str) s (\<lambda>_. True)"
  proof (rule sends_andthen [OF sends_put [OF Suc.prems(1)]])
    fix t assume t: "ok t" "sent [str_char (mem s) a i] s t"
    show "sends (put_arg put a (Suc i) n t) (tl str) t (\<lambda>_. True)"
    proof (rule Suc.hyps(1) [OF k t(1)])
      fix m' assume m': "\<And>x. x \<notin> dirty t \<Longrightarrow> m' x = mem t x"
      have "map (str_char m' a) [i..<n] = str"
        using m' sent_dirty [OF t(2)] sent_mem [OF t(2)] by (intro Suc.prems(2)) auto
      then show "map (str_char m' a) [Suc i..<n] = tl str" unfolding upt by auto
    qed (use lt in simp)
  qed
  with lt str show ?case by (subst put_arg.simps) simp
qed

text \<open>
  The reference text may depend on memory only where output does not write: \<open>agree s m\<close> says that \<open>m\<close>
  is the memory of \<open>s\<close> outside those addresses.
\<close>

definition agree :: "'z hw_scheme \<Rightarrow> memory \<Rightarrow> bool" where
  "agree s m \<longleftrightarrow> (\<forall>x. x \<notin> dirty s \<longrightarrow> m x = mem s x)"

lemma agree_refl: "agree s (mem s)"
  by (simp add: agree_def)

lemma agree_sent: "sent xs s t \<Longrightarrow> agree t m \<Longrightarrow> agree s m"
  using sent_mem sent_dirty by (auto simp: agree_def)

lemma ref_pad_parts:
  "ref_pad str width flags = (if flags AND 2 = 0 then replicate (nat (width - int (length str))) (CHR '' '') else [])
    @ str @ (if flags AND 2 \<noteq> 0 then replicate (nat (width - int (length str))) (CHR '' '') else [])"
  by (simp add: ref_pad_def spaces_def Let_def)

lemma sends_args:
  "sends r xs s (\<lambda>_. True) \<Longrightarrow> sends (andthen r (\<lambda>_ s. Ret args s)) xs s (\<lambda>a. a = args)"
  using sends_andthen [of r xs s "\<lambda>_. True" "\<lambda>_ s. Ret args s" "[]" "\<lambda>a. a = args"]
  by (simp add: sends_Ret)

lemma sends_convert_c:
  assumes "ok s"
  shows "sends (convert put (CHR ''c'') flags width prec len (VWord w # args) s)
    (ref_pad [char_of (unat (ucast w :: u8))] width flags) s (\<lambda>a. a = args)"
proof -
  let ?pre = "\<lambda>b width s. if b then put_predec put width s else Ret width s"
  have pre: "sends (?pre b width t) (if b then replicate (nat (width - 1)) (CHR '' '') else []) t
      (\<lambda>w. \<not> b \<longrightarrow> w = width)" if "ok t" for b t width
    using sends_put_predec [OF that] that by (auto simp: sends_Ret)
  show ?thesis
    unfolding ref_pad_parts convert_def
  proof (simp only: refl if_True list.case varg.case length_Cons list.size of_nat_1 One_nat_def [symmetric] add_0,
      rule sends_andthen [OF pre [OF assms]], goal_cases)
    case (1 w' t)
    note w' = 1(1)
    show ?case
    proof (rule sends_andthen [OF sends_put [OF 1(2)]], goal_cases)
      case (1 _ t)
      have "sends (?pre (flags AND 2 \<noteq> 0) w' t)
         (if flags AND 2 \<noteq> 0 then replicate (nat (w' - 1)) (CHR '' '') else []) t (\<lambda>_. True)"
        using pre [OF 1(2), of "flags AND 2 \<noteq> 0" w'] unfolding sends_def by (rule returns_weaken) simp
      from sends_args [OF this, of args]
      show ?case using w' by (cases "flags AND 2 = 0") auto
    qed
  qed
qed

text \<open>A string argument is stable when output cannot change what \<open>%s\<close> prints for it.\<close>

definition stable :: "'z hw_scheme \<Rightarrow> varg \<times> int \<Rightarrow> bool" where
  "stable s ap \<longleftrightarrow> (\<forall>m. agree s m \<longrightarrow> ref_str m (fst ap) (snd ap) = ref_str (mem s) (fst ap) (snd ap))"

lemma stable_sent: "sent xs s t \<Longrightarrow> stable s ap \<Longrightarrow> stable t ap"
  unfolding stable_def using agree_sent agree_refl by metis

lemma stable_sent_eq: "sent xs s t \<Longrightarrow> stable s (a, prec) \<Longrightarrow> ref_str (mem t) a prec = ref_str (mem s) a prec"
  unfolding stable_def using agree_sent agree_refl by (metis fst_conv snd_conv)

lemma sends_convert_s:
  assumes "ok s" and "stable s (a, prec)" and "ref_str (mem s) a prec = Some str"
  shows "sends (case str_len (mem s) a prec of None \<Rightarrow> Hang | Some n \<Rightarrow>
      andthen (if flags AND 2 = 0 then put_while put (CHR '' '') width (int n) s else Ret width s) (\<lambda>width s.
      andthen (put_arg put a 0 n s) (\<lambda>_ s.
      andthen (if flags AND 2 \<noteq> 0 then put_while put (CHR '' '') width (int n) s else Ret width s) (\<lambda>_ s.
      Ret args s)))) (ref_pad str width flags) s (\<lambda>x. x = args)"
proof -
  obtain n where n: "str_len (mem s) a prec = Some n" "str = map (str_char (mem s) a) [0..<n]"
    using assms(3) by (auto simp: ref_str_def)
  then have len: "length str = n" by simp
  have all: "map (str_char m' a) [0..<n] = str" if "agree s m'" for m'
  proof -
    have "ref_str m' a prec = Some str" using assms(2,3) that by (simp add: stable_def)
    then obtain k where "str = map (str_char m' a) [0..<k]" by (auto simp: ref_str_def)
    moreover from this len have "k = n" by simp
    ultimately show ?thesis by simp
  qed
  show ?thesis
    unfolding ref_pad_parts n(1) option.case len
  proof (rule sends_andthen [OF sends_pad [OF assms(1)]], goal_cases)
    case (1 w t)
    note w = 1(1)
    have arg: "sends (put_arg put a 0 n t) str t (\<lambda>_. True)"
      using 1(2) agree_sent [OF 1(3)] all by (intro put_arg_sends) (auto simp: agree_def)
    show ?case
    proof (rule sends_andthen [OF arg], goal_cases)
      case (1 _ t)
      show ?case
        using sends_args [OF sends_pad_last [OF 1(2), of "flags AND 2 \<noteq> 0" w width "CHR '' ''" "int n"], of args] w
        by (cases "flags AND 2 = 0") (simp_all add: andthen_assoc)
    qed
  qed
qed

lemma sends_convert:
  assumes "ok s" and "\<And>ap. ap \<in> set (conv_strings c args prec) \<Longrightarrow> stable s ap"
    and ref: "ref_convert (mem s) c flags width prec len args = Some (str, args')"
  shows "sends (convert put c flags width prec len args s) str s (\<lambda>a. a = args')"
proof -
  consider "c = CHR ''c''" | "c = CHR ''s''" | "c = CHR ''d'' \<or> c = CHR ''i''"
    | "c = CHR ''u''" | "c = CHR ''o''" | "c = CHR ''x'' \<or> c = CHR ''X''" | "c = CHR ''p''"
    | "c = CHR ''%''" | "c \<notin> set ''csdiuoxXp%''" by auto
  then show ?thesis
  proof cases
    case 1
    then show ?thesis
      using ref sends_convert_c [OF assms(1)]
      by (auto simp: ref_convert_code split: list.splits varg.splits)
  next
    case 2
    then obtain a as where a: "args = a # as" "args' = as"
      using ref by (auto simp: ref_convert_code split: list.splits)
    define sa where "sa = (if a = VWord 0 then VLit ''(null)'' else a)"
    obtain t where t: "ref_str (mem s) sa prec = Some t" "str = ref_pad t width flags"
      using ref 2 a by (auto simp: ref_convert_code sa_def)
    have "stable s (sa, prec)" using assms(2) 2 a by (simp add: conv_strings_def sa_def)
    from sends_convert_s [OF assms(1) this t(1), of flags width as] show ?thesis
      using 2 a t by (simp only: convert_def sa_def [symmetric] Let_def list.case) (simp add: sa_def)
  next
    case 3
    then show ?thesis
      using ref by (auto simp: ref_convert_code convert_def intro!: sends_args sends_print_int assms(1)
          split: list.splits varg.splits)
  next
    case 4
    then show ?thesis
      using ref sends_args [OF sends_print_uint [OF assms(1), of 10]]
      by (auto simp: ref_convert_code convert_def split: list.splits varg.splits)
  next
    case 5
    then show ?thesis
      using ref sends_args [OF sends_print_uint [OF assms(1), of 8]]
      by (auto simp: ref_convert_code convert_def split: list.splits varg.splits)
  next
    case 6
    then obtain w as where w: "args = VWord w # as"
      using ref by (auto simp: ref_convert_code split: list.splits varg.splits)
    from 6 show ?thesis
      using ref w sends_args [OF sends_print_uint [OF assms(1), of 16 "unsigned_arg len w" width prec flags True], of as]
        sends_args [OF sends_print_uint [OF assms(1), of 16 "unsigned_arg len w" width prec flags False], of as]
      by (elim disjE) (simp_all add: ref_convert_code convert_def)
  next
    case 7
    then show ?thesis
      using ref sends_args [OF sends_print_uint [OF assms(1), of 16]]
      by (auto simp: ref_convert_code convert_def split: list.splits varg.splits)
  next
    case 8
    then show ?thesis
      using ref by (auto simp: ref_convert_code convert_def intro!: sends_args sends_put assms(1))
  next
    case 9
    have "sends (andthen (put (CHR ''%'') s) (\<lambda>_ s. andthen (put c s) (\<lambda>_ s. Ret args s)))
        ([CHR ''%''] @ [c]) s (\<lambda>a. a = args)"
      by (rule sends_andthen [OF sends_put [OF assms(1)]]) (rule sends_args [OF sends_put])
    with 9 ref show ?thesis by (auto simp: ref_convert_code convert_def)
  qed
qed

lemma ref_format_sent:
  assumes "sent xs s t" and "\<And>ap. ap \<in> set (fmt_strings p args) \<Longrightarrow> stable s ap"
  shows "ref_format (mem t) p args = ref_format (mem s) p args"
  using stable_sent_eq [OF assms(1)] assms(2) by (intro ref_format_cong) auto

theorem sends_vprintf:
  assumes "ok s" and "\<And>ap. ap \<in> set (fmt_strings fmt args) \<Longrightarrow> stable s ap"
    and "ref_format (mem s) fmt args = Some out"
  shows "sends (vprintf put fmt args s) out s (\<lambda>_. True)"
  using assms
proof (induction fmt args arbitrary: s out rule: fmt_strings.induct)
  case (1 args)
  then show ?case by (simp add: sends_Ret)
next
  case (2 c p args)
  show ?case
  proof (cases "c = CHR ''%''")
    case False
    then obtain out' where o: "ref_format (mem s) p args = Some out'" "out = [c] @ out'"
      using "2.prems"(3) by auto
    have "sends (andthen (put c s) (\<lambda>_ s. vprintf put p args s)) ([c] @ out') s (\<lambda>_. True)"
    proof (rule sends_andthen [OF sends_put [OF "2.prems"(1)]], goal_cases)
      case (1 _ t)
      show ?case
        using False "2.prems"(2) stable_sent [OF 1(3)] o(1) ref_format_sent [OF 1(3)] 1(2)
        by (intro "2.IH"(1)) auto
    qed
    with False o show ?thesis by simp
  next
    case True
    then obtain fl w pr ln as d q where sp: "parse_spec p args = Some (fl, w, pr, ln, as, d # q)"
      using "2.prems"(3) by (auto split: option.splits list.splits)
    obtain str as' out' where r: "ref_convert (mem s) d fl w pr ln as = Some (str, as')"
      "ref_format (mem s) q as' = Some out'" "out = str @ out'"
      using "2.prems"(3) True sp by (auto split: option.splits)
    have st: "stable s ap" if "ap \<in> set (conv_strings d as pr) \<or> ap \<in> set (fmt_strings q as')" for ap
      using that "2.prems"(2) True sp ref_convert_args [OF r(1)] by auto
    have conv: "sends (convert put d fl w pr ln as s) str s (\<lambda>a. a = as')"
      using st by (intro sends_convert [OF "2.prems"(1) _ r(1)]) auto
    have "sends (andthen (convert put d fl w pr ln as s) (\<lambda>as s. vprintf put q as s)) (str @ out') s (\<lambda>_. True)"
    proof (rule sends_andthen [OF conv], goal_cases)
      case (1 a t)
      have "sends (vprintf put q as' t) out' t (\<lambda>_. True)"
        using True sp st stable_sent [OF 1(3)] r(2) ref_format_sent [OF 1(3)] 1(2)
        unfolding ref_convert_args [OF r(1)]
        by (intro "2.IH"(2) [of "(fl, w, pr, ln, as, d # q)" fl _ w _ pr _ ln _ as "d # q" d q]) auto
      with 1(1) show ?case by simp
    qed
    with True sp r(3) show ?thesis by simp
  qed
qed

end

section \<open>The serial port as a sink\<close>

interpretation ser: char_sink serial_putchar uart_live serial_sent "\<lambda>_. {}"
  by unfold_locales
    (auto simp: serial_putchar_sent serial_sent_nil serial_sent_mem intro: serial_sent_trans)

lemma ser_stable: "ser.stable s ap"
proof -
  have "m = mem s" if "ser.agree s m" for m
    using that by (auto simp: ser.agree_def)
  then show ?thesis by (auto simp: ser.stable_def)
qed

lemma serial_print_put_str: "serial_print str s = put_str serial_putchar str s"
  by (induction str arbitrary: s) (simp_all cong: andthen_cong)

lemma svprintf_returns:
  assumes "uart_live s" and "ref_format (mem s) fmt args = Some out"
  shows "returns (svprintf fmt args s) (\<lambda>_ t. uart_live t \<and> serial_sent out s t)"
  using ser.sends_vprintf [OF assms(1) ser_stable assms(2)] by (simp add: ser.sends_def svprintf_def)

section \<open>Properties\<close>

text \<open>
  C1. Formatted serial output: with a UART that becomes ready again and again, \<open>svprintf\<close> returns, and
  it has sent exactly the text that the format string and its arguments stand for, in order, and
  changed nothing else of the machine. The format is one whose arguments are all present and whose
  last specification is complete (\<open>ref_format\<close> is defined on it).
\<close>

theorem svprintf_sends_reference_text:
  assumes "uart_live s" and "ref_format (mem s) fmt args = Some out"
  shows "\<exists>t. svprintf fmt args s =
    Ret () (s\<lparr>now := t, events := events s @ map (\<lambda>c. OutB COM1 (of_char c)) out\<rparr>)"
  using svprintf_returns [OF assms] by (auto simp: returns_conv serial_sent_def)

definition demo_hw :: hw where
  "demo_hw = \<lparr>mem = (\<lambda>_. 0), now = 0, port_in = (\<lambda>_ _. 0x20), mmio_in = (\<lambda>_ _. 0), tsc = (\<lambda>_. 0),
     events = [], rflags = 0x202, cr3 = 0, msr = (\<lambda>_. 0)\<rparr>"

lemma demo_hw_live: "uart_live demo_hw"
  by (simp add: uart_live_def uart_ready_def demo_hw_def)

lemma demo_format: "ref_format m ''a=%04x %s'' [VWord 0x1f, VLit ''ok''] = Some ''a=001f ok''"
  by code_simp

theorem svprintf_sends_reference_text_witness:
  "uart_live demo_hw \<and> ref_format (mem demo_hw) ''a=%04x %s'' [VWord 0x1f, VLit ''ok''] = Some ''a=001f ok'' \<and>
   (\<exists>t. svprintf ''a=%04x %s'' [VWord 0x1f, VLit ''ok''] demo_hw =
      Ret () (demo_hw\<lparr>now := t, events := events demo_hw @ map (\<lambda>c. OutB COM1 (of_char c)) ''a=001f ok''\<rparr>))"
  using svprintf_sends_reference_text [OF demo_hw_live demo_format] demo_hw_live demo_format by blast

text \<open>
  C28. Round trip of numbers: printing an unsigned value in base 8, 10 or 16 with no flags, width or
  precision sends a text that reads back, digit by digit, as the value.
\<close>

theorem sprint_uint_roundtrip:
  assumes "uart_live s" and "b = 8 \<or> b = 10 \<or> b = 16"
  shows "\<exists>str t. sprint_uint v (of_nat b) 0 (- 1) 0 upper s = Ret () t \<and>
    serial_sent str s t \<and> str \<noteq> [] \<and> num_val b str = unat v"
proof -
  let ?str = "ref_uint v b 0 (- 1) 0 upper"
  have str: "?str = (if v = 0 then ''0'' else num_str upper b (unat v))"
    by (simp add: ref_uint_def ref_digits_def zeros_def spaces_def Let_def)
  have "num_val b ?str = unat v"
    using assms(2) num_val_num_str [of b upper "unat v"]
    by (auto simp: str num_val_def digit_val_def)
  moreover have "?str \<noteq> []"
    using assms(2) by (auto simp: str num_str.simps [of upper b "unat v"] unsigned_eq_0_iff)
  ultimately show ?thesis
    using ser.sends_print_uint [OF assms, of v 0 "- 1" 0 upper]
    by (fastforce simp: ser.sends_def returns_conv sprint_uint_def)
qed

theorem sprint_uint_roundtrip_witness:
  "uart_live demo_hw \<and> (\<exists>str t. sprint_uint 0xBEEF (of_nat 16) 0 (- 1) 0 False demo_hw = Ret () t \<and>
    serial_sent str demo_hw t \<and> str \<noteq> [] \<and> num_val 16 str = unat (0xBEEF :: u64))"
  using sprint_uint_roundtrip [OF demo_hw_live, of 16 "0xBEEF" False] demo_hw_live by blast

lemma vprintf_plain:
  assumes "CHR ''%'' \<notin> set pre"
  shows "vprintf put (pre @ p) args s = andthen (put_str put pre s) (\<lambda>_ s. vprintf put p args s)"
  using assms by (induction pre arbitrary: s) (auto simp: andthen_assoc cong: andthen_cong)

text \<open>
  A format string that ends in a percent sign is undefined behaviour: the percent sign is printed
  and the loop steps past the terminator of the string, whatever the text before it.
\<close>

theorem svprintf_trailing_percent:
  assumes "uart_live s" and "CHR ''%'' \<notin> set pre"
  shows "svprintf (pre @ ''%'') args s = Undef"
proof -
  have "returns (put_str serial_putchar pre s) (\<lambda>_ t. uart_live t)"
    using ser.sends_put_str [OF assms(1), of pre] by (auto simp: ser.sends_def elim: returns_weaken)
  then obtain t where t: "put_str serial_putchar pre s = Ret () t" "uart_live t"
    by (auto simp: returns_conv)
  obtain u where "serial_putchar (CHR ''%'') t = Ret () u"
    using serial_putchar_sent [OF t(2)] by (auto simp: returns_conv)
  then show ?thesis
    by (simp add: svprintf_def vprintf_plain [OF assms(2)] t(1) parse_spec_def parse_width_def
        parse_prec_def parse_length_def cur_def)
qed

lemma ref_format_plain: "CHR ''%'' \<notin> set str \<Longrightarrow> ref_format m str args = Some str"
  by (induction str) auto

lemma uart_live_rflags [simp]: "uart_live (s\<lparr>rflags := f\<rparr>) = uart_live s"
  by (simp add: uart_live_def uart_ready_def)

lemma sprintf_plain_sent:
  assumes "uart_live s" and "CHR ''%'' \<notin> set str"
  obtains t where "sprintf str [] s = Ret () t" and "uart_live t" and "serial_sent str s t"
  using svprintf_returns [OF assms(1) ref_format_plain [OF assms(2)], of "[]"]
  by (auto simp: returns_conv sprintf_def)

lemma kpanic_result:
  assumes "uart_live s" and "ref_format (mem s) fmt args = Some out"
  obtains n where "kpanic fmt args s = Panic (s\<lparr>now := n, rflags := rflags s AND NOT (push_bit 9 1),
    events := events s @ map (\<lambda>c. OutB COM1 (of_char c)) (''KERNEL PANIC:'' @ newline @ out @ newline) @ [Halted]\<rparr>)"
proof -
  let ?s0 = "x86_disable_interrupts s"
  have nl: "CHR ''%'' \<notin> set newline" by (simp add: newline_def)
  have live0: "uart_live ?s0" using assms(1) by (simp add: x86_disable_interrupts_def)
  obtain s1 where s1: "sprintf (''KERNEL PANIC:'' @ newline) [] ?s0 = Ret () s1" "uart_live s1"
    "serial_sent (''KERNEL PANIC:'' @ newline) ?s0 s1"
    by (rule sprintf_plain_sent [OF live0, of "''KERNEL PANIC:'' @ newline"]) (auto simp: newline_def)
  have "mem s1 = mem s" using serial_sent_mem [OF s1(3)] by (simp add: x86_disable_interrupts_def)
  then obtain s2 where s2: "svprintf fmt args s1 = Ret () s2" "uart_live s2" "serial_sent out s1 s2"
    using svprintf_returns [OF s1(2), of fmt args out] assms(2) by (auto simp: returns_conv)
  obtain s3 where s3: "sprintf newline [] s2 = Ret () s3" "serial_sent newline s2 s3"
    by (rule sprintf_plain_sent [OF s2(2) nl])
  have "serial_sent ((''KERNEL PANIC:'' @ newline) @ out @ newline) ?s0 s3"
    using serial_sent_trans [OF s1(3) serial_sent_trans [OF s2(3) s3(2)]] .
  then obtain n where "s3 = ?s0\<lparr>now := n, events := events ?s0 @
      map (\<lambda>c. OutB COM1 (of_char c)) (''KERNEL PANIC:'' @ newline @ out @ newline)\<rparr>"
    by (auto simp: serial_sent_def)
  then have "kpanic fmt args s = Panic (s\<lparr>now := n, rflags := rflags s AND NOT (push_bit 9 1),
    events := events s @ map (\<lambda>c. OutB COM1 (of_char c)) (''KERNEL PANIC:'' @ newline @ out @ newline) @ [Halted]\<rparr>)"
    using s1(1) s2(1) s3(1) by (simp add: kpanic_def Let_def x86_hlt_def emit_def x86_disable_interrupts_def)
  then show thesis by (rule that)
qed

text \<open>
  C29. The panic path: \<open>kpanic\<close> never returns to its caller; with a live UART and a complete format it
  sends the banner, the message and a line end, and stops with interrupts disabled and the processor
  halted.
\<close>

theorem kpanic_stops:
  fixes s :: "'z hw_scheme"
  assumes "uart_live s" and "ref_format (mem s) fmt args = Some out"
  shows "\<exists>t. (kpanic fmt args s :: ('a, 'z hw_scheme) outcome) = Panic t \<and> \<not> x86_are_interrupts_enabled t \<and>
      events t = events s @ map (\<lambda>c. OutB COM1 (of_char c)) (''KERNEL PANIC:'' @ newline @ out @ newline) @ [Halted]"
proof (rule kpanic_result [OF assms])
  fix n
  let ?t = "s\<lparr>now := n, rflags := rflags s AND NOT (push_bit 9 1),
    events := events s @ map (\<lambda>c. OutB COM1 (of_char c)) (''KERNEL PANIC:'' @ newline @ out @ newline) @ [Halted]\<rparr>"
  assume "(kpanic fmt args s :: ('a, 'z hw_scheme) outcome) = Panic ?t"
  moreover have "(rflags s AND NOT (push_bit 9 1)) AND push_bit 9 1 = (0 :: u64)"
    by (rule bit_word_eqI) (auto simp: bit_simps)
  then have "\<not> x86_are_interrupts_enabled ?t" by (simp add: x86_are_interrupts_enabled_def)
  ultimately show ?thesis by (intro exI [of _ ?t]) simp
qed

theorem kpanic_stops_witness:
  "uart_live demo_hw \<and>
   (\<exists>t. (kpanic ''Heap size too small'' [] demo_hw :: (unit, hw) outcome) = Panic t \<and> \<not> x86_are_interrupts_enabled t \<and>
      events t = events demo_hw @ map (\<lambda>c. OutB COM1 (of_char c))
        (''KERNEL PANIC:'' @ newline @ ''Heap size too small'' @ newline) @ [Halted])"
  using kpanic_stops [OF demo_hw_live ref_format_plain [of "''Heap size too small''"], of "[]"] demo_hw_live
  by auto

end
