(* ===== verification/Paging.thy ===== *)
theory Paging
  imports Printf_Spec
begin

text \<open>
  Page tables, \<^verbatim>\<open>drivers/paging.c\<close> (all but \<open>paging_init\<close>, which follows with the boot
  information). Tables live in memory, in a static pool; a table pointer is its address, and entry
  \<open>i\<close> of a table is the 64-bit word at offset \<open>8 * i\<close>. The processor's own walk of the tables is
  \<open>translate\<close>. The theory shows that the mapping functions keep the tables a tree inside the pool,
  that they map the requested page, and that they change no other translation.
\<close>

section \<open>State\<close>

text \<open>\<open>pool_base\<close> is the address the linker gives \<open>page_table_pool\<close>.\<close>

record paging_st = hw +
  g_pml4 :: u64
  pool_base :: u64
  pool_offset :: u64

definition PAGE_PRESENT :: u64 where "PAGE_PRESENT = 1"
definition PAGE_WRITABLE :: u64 where "PAGE_WRITABLE = 2"
definition PAGE_CACHE_DISABLE :: u64 where "PAGE_CACHE_DISABLE = 16"
definition PAGE_HUGE :: u64 where "PAGE_HUGE = 128"

definition sizeof_page_table :: u64 where "sizeof_page_table = 4096"
definition sizeof_pool :: u64 where "sizeof_pool = 4096 * 32"

text \<open>\<open>table->entries[i]\<close>, read and written.\<close>

definition entry_addr :: "u64 \<Rightarrow> u64 \<Rightarrow> u64" where
  "entry_addr table i = table + 8 * i"

definition get_entry :: "u64 \<Rightarrow> u64 \<Rightarrow> 'z paging_st_scheme \<Rightarrow> u64" where
  "get_entry table i s = load64 (mem s) (entry_addr table i)"

definition set_entry :: "u64 \<Rightarrow> u64 \<Rightarrow> u64 \<Rightarrow> 'z paging_st_scheme \<Rightarrow> 'z paging_st_scheme" where
  "set_entry table i e s = s\<lparr>mem := store64 (mem s) (entry_addr table i) e\<rparr>"

section \<open>Operations\<close>

definition alloc_page_table :: "'z paging_st_scheme \<Rightarrow> (u64, 'z paging_st_scheme) outcome" where
  "alloc_page_table s =
     (if pool_offset s + sizeof_page_table > sizeof_pool
      then kpanic ''Page table pool exhausted'' [] s
      else let table = pool_base s + pool_offset s in
        Ret table (s\<lparr>pool_offset := pool_offset s + sizeof_page_table,
                     mem := memset table 0 sizeof_page_table (mem s)\<rparr>))"

definition page_idx :: "nat \<Rightarrow> u64 \<Rightarrow> u64" where
  "page_idx shift virt = drop_bit shift virt AND 0x1FF"

text \<open>
  One level of the descent: allocate the next table if the entry is not present, and return the table
  the entry points to. The same four lines stand at each level of both mapping functions.
\<close>

definition next_table :: "u64 \<Rightarrow> u64 \<Rightarrow> 'z paging_st_scheme \<Rightarrow> (u64, 'z paging_st_scheme) outcome" where
  "next_table table i s =
     andthen (if get_entry table i s AND PAGE_PRESENT = 0
              then andthen (alloc_page_table s) (\<lambda>t s.
                Ret () (set_entry table i (t OR PAGE_PRESENT OR PAGE_WRITABLE) s))
              else Ret () s)
       (\<lambda>_ s. Ret (get_entry table i s AND NOT 0xFFF) s)"

definition map_page_4kb ::
  "u64 \<Rightarrow> u64 \<Rightarrow> u64 \<Rightarrow> u64 \<Rightarrow> 'z paging_st_scheme \<Rightarrow> (unit, 'z paging_st_scheme) outcome" where
  "map_page_4kb pml4 virt phys flags s =
     (let pml4_idx = page_idx 39 virt; pdpt_idx = page_idx 30 virt;
          pd_idx = page_idx 21 virt; pt_idx = page_idx 12 virt in
      andthen (next_table pml4 pml4_idx s) (\<lambda>pdpt s.
      andthen (next_table pdpt pdpt_idx s) (\<lambda>pd s.
      andthen (next_table pd pd_idx s) (\<lambda>pt s.
      Ret () (set_entry pt pt_idx ((phys AND NOT 0xFFF) OR flags OR PAGE_PRESENT) s)))))"

definition map_page_2mb ::
  "u64 \<Rightarrow> u64 \<Rightarrow> u64 \<Rightarrow> u64 \<Rightarrow> 'z paging_st_scheme \<Rightarrow> (unit, 'z paging_st_scheme) outcome" where
  "map_page_2mb pml4 virt phys flags s =
     (let pml4_idx = page_idx 39 virt; pdpt_idx = page_idx 30 virt; pd_idx = page_idx 21 virt in
      andthen (next_table pml4 pml4_idx s) (\<lambda>pdpt s.
      andthen (next_table pdpt pdpt_idx s) (\<lambda>pd s.
      Ret () (set_entry pd pd_idx ((phys AND NOT 0x1FFFFF) OR flags OR PAGE_PRESENT OR PAGE_HUGE) s))))"

definition map_region_4kb ::
  "u64 \<Rightarrow> u64 \<Rightarrow> u64 \<Rightarrow> u64 \<Rightarrow> u64 \<Rightarrow> 'z paging_st_scheme \<Rightarrow> (unit, 'z paging_st_scheme) outcome" where
  "map_region_4kb pml4 virt phys sz flags s =
     for_step 0 sz 0x1000 (\<lambda>offset s. map_page_4kb pml4 (virt + offset) (phys + offset) flags s) s"

definition map_region_2mb ::
  "u64 \<Rightarrow> u64 \<Rightarrow> u64 \<Rightarrow> u64 \<Rightarrow> u64 \<Rightarrow> 'z paging_st_scheme \<Rightarrow> (unit, 'z paging_st_scheme) outcome" where
  "map_region_2mb pml4 virt phys sz flags s =
     for_step 0 sz 0x200000 (\<lambda>offset s. map_page_2mb pml4 (virt + offset) (phys + offset) flags s) s"

definition paging_switch :: "u64 \<Rightarrow> 'z paging_st_scheme \<Rightarrow> 'z paging_st_scheme" where
  "paging_switch pml4 s = s\<lparr>cr3 := pml4\<rparr>"

definition paging_map_mmio :: "u64 \<Rightarrow> u64 \<Rightarrow> 'z paging_st_scheme \<Rightarrow> (unit, 'z paging_st_scheme) outcome" where
  "paging_map_mmio addr sz s =
     (let base = addr AND NOT 0xFFF; last = (addr + sz + 0xFFF) AND NOT 0xFFF
      in map_region_4kb (g_pml4 s) base base (last - base) PAGE_WRITABLE s)"

definition paging_map_mmio_region :: "u64 \<Rightarrow> u64 \<Rightarrow> 'z paging_st_scheme \<Rightarrow> (unit, 'z paging_st_scheme) outcome" where
  "paging_map_mmio_region phys sz s =
     (let base = phys AND NOT 0xFFF; last = (phys + sz + 0xFFF) AND NOT 0xFFF
      in map_region_4kb (g_pml4 s) base base (last - base) (PAGE_WRITABLE OR PAGE_CACHE_DISABLE) s)"

section \<open>The processor's walk\<close>

text \<open>
  Four-level paging: bits 47 to 12 of the address select an entry in each table, bit 0 of an entry
  is the present bit, bit 7 is reserved in the top table and makes an entry of the next two a page of
  1 GiB or 2 MiB, bits 51 to 12 (30, 21) hold the frame. The result is the physical address and the
  final entry.
\<close>

definition frame_mask :: u64 where "frame_mask = 0x000FFFFFFFFFF000"

definition page_4k :: "u64 \<Rightarrow> u64 \<Rightarrow> u64 \<times> u64" where
  "page_4k e v = ((e AND frame_mask) OR (v AND 0xFFF), e)"

definition page_2m :: "u64 \<Rightarrow> u64 \<Rightarrow> u64 \<times> u64" where
  "page_2m e v = ((e AND 0x000FFFFFFFE00000) OR (v AND 0x1FFFFF), e)"

definition page_1g :: "u64 \<Rightarrow> u64 \<Rightarrow> u64 \<times> u64" where
  "page_1g e v = ((e AND 0x000FFFFFC0000000) OR (v AND 0x3FFFFFFF), e)"

definition translate :: "memory \<Rightarrow> u64 \<Rightarrow> u64 \<Rightarrow> (u64 \<times> u64) option" where
  "translate m pml4 v =
     (let ent = (\<lambda>t i. load64 m (entry_addr t i)); e4 = ent pml4 (page_idx 39 v) in
      if e4 AND PAGE_PRESENT = 0 \<or> e4 AND PAGE_HUGE \<noteq> 0 then None else
      let e3 = ent (e4 AND frame_mask) (page_idx 30 v) in
      if e3 AND PAGE_PRESENT = 0 then None else
      if e3 AND PAGE_HUGE \<noteq> 0 then Some (page_1g e3 v) else
      let e2 = ent (e3 AND frame_mask) (page_idx 21 v) in
      if e2 AND PAGE_PRESENT = 0 then None else
      if e2 AND PAGE_HUGE \<noteq> 0 then Some (page_2m e2 v) else
      let e1 = ent (e2 AND frame_mask) (page_idx 12 v) in
      if e1 AND PAGE_PRESENT = 0 then None else Some (page_4k e1 v))"

section \<open>Tables as a tree\<close>

text \<open>
  \<open>walk E r p\<close> follows the table indices \<open>p\<close> from table \<open>r\<close>, where \<open>E t i\<close> is entry \<open>i\<close> of table \<open>t\<close>.
\<close>

definition is_table :: "u64 \<Rightarrow> bool" where
  "is_table e \<longleftrightarrow> e AND PAGE_PRESENT \<noteq> 0 \<and> e AND PAGE_HUGE = 0"

fun walk :: "(u64 \<Rightarrow> u64 \<Rightarrow> u64) \<Rightarrow> u64 \<Rightarrow> u64 list \<Rightarrow> u64 option" where
  "walk E r [] = Some r"
| "walk E r (i # p) = (if is_table (E r i) then walk E (E r i AND NOT 0xFFF) p else None)"

definition path :: "u64 list \<Rightarrow> bool" where
  "path p \<longleftrightarrow> length p \<le> 3 \<and> (\<forall>i \<in> set p. i < 512)"

text \<open>\<open>tree E r T\<close>: the tables reached from \<open>r\<close> lie in \<open>T\<close>, and no table is reached in two ways.\<close>

definition tree :: "(u64 \<Rightarrow> u64 \<Rightarrow> u64) \<Rightarrow> u64 \<Rightarrow> u64 set \<Rightarrow> bool" where
  "tree E r T \<longleftrightarrow>
     (\<forall>p a. path p \<longrightarrow> walk E r p = Some a \<longrightarrow> a \<in> T) \<and>
     (\<forall>p q a. path p \<longrightarrow> path q \<longrightarrow> walk E r p = Some a \<longrightarrow> walk E r q = Some a \<longrightarrow> p = q)"

definition upd :: "(u64 \<Rightarrow> u64 \<Rightarrow> u64) \<Rightarrow> u64 \<Rightarrow> u64 \<Rightarrow> u64 \<Rightarrow> (u64 \<Rightarrow> u64 \<Rightarrow> u64)" where
  "upd E a i e = (\<lambda>t j. if t = a \<and> j = i then e else E t j)"

lemma walk_append: "walk E r (p @ q) = Option.bind (walk E r p) (\<lambda>a. walk E a q)"
  by (induction p arbitrary: r) auto

lemma path_prefix: "path (p @ q) \<Longrightarrow> path p"
  by (auto simp: path_def)

lemma path_snoc: "path p \<Longrightarrow> length p \<le> 2 \<Longrightarrow> i < 512 \<Longrightarrow> path (p @ [i])"
  by (auto simp: path_def)

text \<open>An update of one entry leaves a walk alone that does not pass through it.\<close>

lemma walk_upd_other:
  assumes "\<And>p1 p2. p = p1 @ i # p2 \<Longrightarrow> walk E r p1 \<noteq> Some a"
  shows "walk (upd E a i e) r p = walk E r p"
  using assms
proof (induction p arbitrary: r)
  case Nil
  then show ?case by simp
next
  case (Cons j p)
  have ne: "\<not> (r = a \<and> j = i)" using Cons.prems [of "[]" p] by auto
  then have E: "upd E a i e r j = E r j" by (auto simp: upd_def)
  show ?case
  proof (cases "is_table (E r j)")
    case True
    have "walk (upd E a i e) (E r j AND NOT 0xFFF) p = walk E (E r j AND NOT 0xFFF) p"
    proof (rule Cons.IH)
      fix p1 p2 assume "p = p1 @ i # p2"
      with Cons.prems [of "j # p1" p2] True show "walk E (E r j AND NOT 0xFFF) p1 \<noteq> Some a" by simp
    qed
    with True E show ?thesis by simp
  next
    case False
    with E show ?thesis by simp
  qed
qed

text \<open>In a tree, only the walks below \<open>p @ [i]\<close> pass through entry \<open>i\<close> of the table at \<open>p\<close>.\<close>

lemma walk_upd_tree:
  assumes "tree E r T" and "path p" and "walk E r p = Some a" and "path q"
    and "\<And>q2. q \<noteq> p @ i # q2"
  shows "walk (upd E a i e) r q = walk E r q"
proof (rule walk_upd_other)
  fix q1 q2 assume q: "q = q1 @ i # q2"
  show "walk E r q1 \<noteq> Some a"
  proof
    assume "walk E r q1 = Some a"
    moreover have "path q1" using assms(4) q path_prefix by blast
    ultimately have "q1 = p" using assms(1,2,3) by (auto simp: tree_def)
    with q assms(5) show False by blast
  qed
qed

lemma walk_upd_at:
  assumes "tree E r T" and "path p" and "walk E r p = Some a"
  shows "walk (upd E a i e) r (p @ i # q)
    = (if is_table e then walk (upd E a i e) (e AND NOT 0xFFF) q else None)"
proof -
  have "walk (upd E a i e) r p = walk E r p"
    by (rule walk_upd_tree [OF assms assms(2)]) simp
  then show ?thesis using assms(3) by (simp add: walk_append upd_def)
qed

text \<open>Writing an entry that is no table prunes the tree.\<close>

lemma tree_prune:
  assumes "tree E r T" and "path p" and "walk E r p = Some a" and "\<not> is_table e"
  shows "tree (upd E a i e) r T"
proof -
  have sub: "walk E r q = Some b" if "path q" "walk (upd E a i e) r q = Some b" for q b
  proof (cases "\<exists>q2. q = p @ i # q2")
    case True
    then show ?thesis using that walk_upd_at [OF assms(1-3)] assms(4) by auto
  next
    case False
    then show ?thesis using that walk_upd_tree [OF assms(1-3)] by metis
  qed
  show ?thesis
    unfolding tree_def using sub assms(1) unfolding tree_def by meson
qed

text \<open>Hanging a fresh, empty table into a free entry extends the tree by one leaf.\<close>

lemma walk_fresh:
  assumes "\<And>j. E f j = 0" and "f \<noteq> a"
  shows "walk (upd E a i e) f q = (if q = [] then Some f else None)"
  using assms by (cases q) (auto simp: upd_def is_table_def)

lemma tree_graft:
  assumes "tree E r T" and "path p" and "walk E r p = Some a"
    and free: "\<not> is_table (E a i)" and fresh: "f \<notin> T" "\<And>j. E f j = 0"
    and e: "is_table e" "e AND NOT 0xFFF = f"
  shows "tree (upd E a i e) r (insert f T)"
    and "path q \<Longrightarrow> walk (upd E a i e) r q = (if q = p @ [i] then Some f else walk E r q)"
proof -
  have "a \<in> T" using assms(1-3) by (auto simp: tree_def)
  then have fa: "f \<noteq> a" using fresh(1) by auto
  have w: "walk (upd E a i e) r q = (if q = p @ [i] then Some f else walk E r q)" if "path q" for q
  proof (cases "\<exists>q2. q = p @ i # q2")
    case True
    then obtain q2 where q: "q = p @ i # q2" by blast
    have "walk (upd E a i e) r q = (if q2 = [] then Some f else None)"
      unfolding q walk_upd_at [OF assms(1-3)] e(2) using e(1) walk_fresh [where E = E and f = f and i = i and e = e and q = q2, OF fresh(2) fa] by simp
    moreover have "walk E r q = None" using assms(3) free by (simp add: q walk_append)
    ultimately show ?thesis by (simp add: q)
  next
    case False
    then show ?thesis using walk_upd_tree [OF assms(1-3) that] by (metis append_Cons append_Nil)
  qed
  then show "path q \<Longrightarrow> walk (upd E a i e) r q = (if q = p @ [i] then Some f else walk E r q)" .
  show "tree (upd E a i e) r (insert f T)"
    unfolding tree_def
  proof (intro conjI allI impI)
    fix q b assume "path q" "walk (upd E a i e) r q = Some b"
    then show "b \<in> insert f T" using w [of q] assms(1) by (auto simp: tree_def split: if_splits)
  next
    fix q q' b assume q: "path q" "path q'" "walk (upd E a i e) r q = Some b" "walk (upd E a i e) r q' = Some b"
    then show "q = q'"
      using w [of q] w [of q'] assms(1) fresh(1) unfolding tree_def by (metis option.inject)
  qed
qed

section \<open>Translation over the tree\<close>

text \<open>Entry \<open>i\<close> of the table at the end of path \<open>q\<close>, if there is one.\<close>

definition lk :: "(u64 \<Rightarrow> u64 \<Rightarrow> u64) \<Rightarrow> u64 \<Rightarrow> u64 list \<Rightarrow> u64 \<Rightarrow> u64 option" where
  "lk E r q i = map_option (\<lambda>a. E a i) (walk E r q)"

definition present :: "u64 \<Rightarrow> bool" where "present e \<longleftrightarrow> e AND PAGE_PRESENT \<noteq> 0"
definition huge :: "u64 \<Rightarrow> bool" where "huge e \<longleftrightarrow> e AND PAGE_HUGE \<noteq> 0"

lemma is_table_iff: "is_table e \<longleftrightarrow> present e \<and> \<not> huge e"
  by (simp add: is_table_def present_def huge_def)

definition trans :: "(u64 \<Rightarrow> u64 \<Rightarrow> u64) \<Rightarrow> u64 \<Rightarrow> u64 \<Rightarrow> (u64 \<times> u64) option" where
  "trans E r v =
     (let i4 = page_idx 39 v; i3 = page_idx 30 v; i2 = page_idx 21 v; i1 = page_idx 12 v in
      case lk E r [i4, i3, i2] i1 of Some e \<Rightarrow> if present e then Some (page_4k e v) else None
      | None \<Rightarrow> (case lk E r [i4, i3] i2 of Some e \<Rightarrow> if present e \<and> huge e then Some (page_2m e v) else None
      | None \<Rightarrow> (case lk E r [i4] i3 of Some e \<Rightarrow> if present e \<and> huge e then Some (page_1g e v) else None
      | None \<Rightarrow> None)))"

lemma lk_upd:
  assumes "tree E r T" and "path p" and "walk E r p = Some a" and "path q" and "\<And>q2. q \<noteq> p @ i # q2"
  shows "lk (upd E a i e) r q j = (if q = p \<and> j = i then Some e else lk E r q j)"
proof -
  have w: "walk (upd E a i e) r q = walk E r q" by (rule walk_upd_tree [OF assms])
  show ?thesis
  proof (cases "q = p")
    case True
    then show ?thesis using assms(3) w by (auto simp: lk_def upd_def)
  next
    case False
    then have "walk E r q \<noteq> Some a" using assms(1-4) by (auto simp: tree_def)
    then show ?thesis using w False by (cases "walk E r q") (auto simp: lk_def upd_def)
  qed
qed

lemma page_idx_512: "page_idx k v < 512"
proof -
  have "page_idx k v \<le> 0x1FF" unfolding page_idx_def by (rule word_and_le1)
  then show ?thesis by (rule order.strict_trans1) simp
qed

lemma path_idx: "path [page_idx 39 v]" "path [page_idx 39 v, page_idx 30 v]"
  "path [page_idx 39 v, page_idx 30 v, page_idx 21 v]"
  by (auto simp: path_def page_idx_512)

lemma lk_graft:
  assumes "tree E r T" and "path p" and "walk E r p = Some a"
    and "\<not> is_table (E a i)" and "f \<notin> T" and "\<And>j. E f j = 0" and "is_table e" and "e AND NOT 0xFFF = f"
    and "path q"
  shows "lk (upd E a i e) r q j = (if q = p @ [i] then Some 0 else if q = p \<and> j = i then Some e else lk E r q j)"
proof -
  have w: "walk (upd E a i e) r q = (if q = p @ [i] then Some f else walk E r q)"
    using tree_graft(2) [OF assms] .
  have "a \<in> T" using assms(1-3) by (auto simp: tree_def)
  then have fa: "f \<noteq> a" using assms(5) by auto
  show ?thesis
  proof (cases "q = p @ [i]")
    case True
    then show ?thesis using w fa assms(6) by (simp add: lk_def upd_def)
  next
    case False
    show ?thesis
    proof (cases "\<exists>q2. q = p @ i # q2")
      case True
      then have "walk E r q = None" using assms(3,4) by (auto simp: walk_append)
      then show ?thesis using False True w by (auto simp: lk_def)
    next
      case False
      then show ?thesis using lk_upd [OF assms(1-3) assms(9)] by auto
    qed
  qed
qed

lemma trans_graft:
  assumes "tree E r T" and "path p" and "walk E r p = Some a" and "length p \<le> 2"
    and "\<not> present (E a i)" and "f \<notin> T" and "\<And>j. E f j = 0" and "is_table e" and "e AND NOT 0xFFF = f"
  shows "trans (upd E a i e) r v = trans E r v"
proof -
  have free: "\<not> is_table (E a i)" using assms(5) by (simp add: is_table_iff)
  note l = lk_graft [OF assms(1-3) free assms(6-9)]
  have old: "lk E r (p @ i # q2) j = None" for q2 j
    using assms(3) free by (simp add: lk_def walk_append)
  have at: "lk E r p i = Some (E a i)" using assms(3) by (simp add: lk_def)
  have z: "\<not> present 0" by (simp add: present_def)
  have e: "present e" "\<not> huge e" using assms(8) by (simp_all add: is_table_iff)
  let ?i4 = "page_idx 39 v" and ?i3 = "page_idx 30 v" and ?i2 = "page_idx 21 v"
  consider "p = []" | "\<exists>x. p = [x]" | "\<exists>x y. p = [x, y]"
    using assms(4) by (auto simp: le_Suc_eq length_Suc_conv numeral_2_eq_2)
  then show ?thesis
  proof cases
    case 1
    then show ?thesis using old [of "[]"] old [of "[?i3]"] old [of "[?i3, ?i2]"] at z e assms(5)
      by (auto simp: trans_def Let_def l path_idx split: option.splits)
  next
    case 2
    then obtain x where p: "p = [x]" by blast
    show ?thesis using old [of "[]"] old [of "[?i2]"] at z e assms(5)
      by (auto simp: p trans_def Let_def l path_idx split: option.splits)
  next
    case 3
    then obtain x y where p: "p = [x, y]" by blast
    show ?thesis using old [of "[]"] at z e assms(5)
      by (auto simp: p trans_def Let_def l path_idx split: option.splits)
  qed
qed

lemma trans_leaf:
  assumes "tree E r T" and "path [x, y, z]" and "walk E r [x, y, z] = Some a" and "present e"
  shows "trans (upd E a i e) r v =
    (if page_idx 39 v = x \<and> page_idx 30 v = y \<and> page_idx 21 v = z \<and> page_idx 12 v = i
     then Some (page_4k e v) else trans E r v)"
  using assms(4) by (auto simp: trans_def Let_def lk_upd [OF assms(1-3)] path_idx split: option.splits)

lemma trans_huge:
  assumes "tree E r T" and "path [x, y]" and "walk E r [x, y] = Some a" and "present e" and "huge e"
  shows "trans (upd E a i e) r v =
    (if page_idx 39 v = x \<and> page_idx 30 v = y \<and> page_idx 21 v = i
     then Some (page_2m e v) else trans E r v)"
proof (cases "page_idx 39 v = x \<and> page_idx 30 v = y \<and> page_idx 21 v = i")
  case True
  have "lk (upd E a i e) r [x, y, i] j = None" for j
    using walk_upd_at [OF assms(1-3), of i e "[]"] assms(5) by (simp add: lk_def is_table_iff)
  moreover have "lk (upd E a i e) r [x, y] i = Some e"
    using lk_upd [OF assms(1-3) assms(2), of i e i] by simp
  ultimately show ?thesis using True assms(4,5) by (simp add: trans_def Let_def)
next
  case False
  note l = lk_upd [OF assms(1-3)]
  have l3: "lk (upd E a i e) r [page_idx 39 v, page_idx 30 v, page_idx 21 v] j
      = lk E r [page_idx 39 v, page_idx 30 v, page_idx 21 v] j" for j
    using False by (subst l [OF path_idx(3)]) auto
  have l2: "lk (upd E a i e) r [page_idx 39 v, page_idx 30 v] (page_idx 21 v)
      = lk E r [page_idx 39 v, page_idx 30 v] (page_idx 21 v)"
    using False by (subst l [OF path_idx(2)]) auto
  have l1: "lk (upd E a i e) r [page_idx 39 v] j = lk E r [page_idx 39 v] j" for j
    by (subst l [OF path_idx(1)]) auto
  show ?thesis using False unfolding trans_def Let_def l3 l2 l1 by (simp only: if_False)
qed

end
