(* ===== verification/Framebuffer.thy ===== *)
theory Framebuffer
  imports Paging
begin

text \<open>
  The linear framebuffer, \<^verbatim>\<open>drivers/framebuffer.c\<close>. Pixels are three bytes (blue, green, red) in memory at
  \<open>addr + y * pitch + x * (bpp / 8)\<close>, with the 32-bit products of the source. The locale \<open>canvas\<close> states what
  the drawing code of this and the later components relies on; the module's own model interprets it.
\<close>

section \<open>State and operations\<close>

text \<open>\<open>logo_raw\<close> is the address the linker gives \<open>_binary_logo_raw_start\<close>.\<close>

record fb_st = paging_st +
  fb_addr :: u64
  fb_width :: u32
  fb_height :: u32
  fb_pitch :: u32
  fb_bpp :: u8
  logo_raw :: u64

definition LOGO_WIDTH :: u32 where "LOGO_WIDTH = 64"
definition LOGO_HEIGHT :: u32 where "LOGO_HEIGHT = 64"
definition LOGO_GAP :: u32 where "LOGO_GAP = 4"

text \<open>Fields of \<open>mb2_tag_framebuffer_t\<close>, packed: address at 8, pitch at 16, width at 20, height at 24, bpp at 28.\<close>

text \<open>\<open>mb2_tag_framebuffer_t\<close>: address at 8, pitch at 16, width at 20, height at 24, bits per pixel at 28.\<close>

definition framebuffer_addr :: "memory \<Rightarrow> u64 \<Rightarrow> u64" where "framebuffer_addr m tag = load64 m (tag + 8)"
definition framebuffer_pitch :: "memory \<Rightarrow> u64 \<Rightarrow> u32" where "framebuffer_pitch m tag = load32 m (tag + 16)"
definition framebuffer_width :: "memory \<Rightarrow> u64 \<Rightarrow> u32" where "framebuffer_width m tag = load32 m (tag + 20)"
definition framebuffer_height :: "memory \<Rightarrow> u64 \<Rightarrow> u32" where "framebuffer_height m tag = load32 m (tag + 24)"
definition framebuffer_bpp :: "memory \<Rightarrow> u64 \<Rightarrow> u8" where "framebuffer_bpp m tag = load8 m (tag + 28)"

definition fb_init :: "u64 \<Rightarrow> 'z fb_st_scheme \<Rightarrow> (unit, 'z fb_st_scheme) outcome" where
  "fb_init tag s =
     (let s = s\<lparr>fb_addr := framebuffer_addr (mem s) tag, fb_width := framebuffer_width (mem s) tag,
                fb_height := framebuffer_height (mem s) tag, fb_pitch := framebuffer_pitch (mem s) tag,
                fb_bpp := framebuffer_bpp (mem s) tag\<rparr>;
          sz = ucast (fb_pitch s * fb_height s) :: u64;
          base = fb_addr s AND NOT 0xFFF;
          last = (fb_addr s + sz + 0xFFF) AND NOT 0xFFF
      in paging_map_mmio_region base (last - base) s)"

definition pixel_addr :: "u32 \<Rightarrow> u32 \<Rightarrow> 'z fb_st_scheme \<Rightarrow> u64" where
  "pixel_addr x y s = fb_addr s + ucast (y * fb_pitch s) + ucast (x * ucast (fb_bpp s div 8))"

definition fb_put_pixel :: "u32 \<Rightarrow> u32 \<Rightarrow> u32 \<Rightarrow> 'z fb_st_scheme \<Rightarrow> 'z fb_st_scheme" where
  "fb_put_pixel x y color s =
     (if x \<ge> fb_width s \<or> y \<ge> fb_height s then s
      else let p = pixel_addr x y s in
        s\<lparr>mem := (mem s)(p := ucast (color AND 0xFF),
                          p + 1 := ucast (drop_bit 8 color AND 0xFF),
                          p + 2 := ucast (drop_bit 16 color AND 0xFF))\<rparr>)"

definition fb_color :: "u8 \<Rightarrow> u8 \<Rightarrow> u8 \<Rightarrow> u32" where
  "fb_color r g b = push_bit 16 (ucast r) OR push_bit 8 (ucast g) OR ucast b"

definition fb_clear :: "u32 \<Rightarrow> 'z fb_st_scheme \<Rightarrow> 'z fb_st_scheme" where
  "fb_clear color s =
     for_word 0 (fb_height s) (\<lambda>y s. for_word 0 (fb_width s) (\<lambda>x s. fb_put_pixel x y color s) s) s"

definition fb_fill_rect :: "u32 \<Rightarrow> u32 \<Rightarrow> u32 \<Rightarrow> u32 \<Rightarrow> u32 \<Rightarrow> 'z fb_st_scheme \<Rightarrow> 'z fb_st_scheme" where
  "fb_fill_rect x y w h color s =
     for_word y (y + h) (\<lambda>row s. for_word x (x + w) (\<lambda>col s. fb_put_pixel col row color s) s) s"

definition fb_get_addr :: "'z fb_st_scheme \<Rightarrow> u64" where "fb_get_addr s = fb_addr s"
definition fb_get_width :: "'z fb_st_scheme \<Rightarrow> u32" where "fb_get_width s = fb_width s"
definition fb_get_height :: "'z fb_st_scheme \<Rightarrow> u32" where "fb_get_height s = fb_height s"
definition fb_get_pitch :: "'z fb_st_scheme \<Rightarrow> u32" where "fb_get_pitch s = fb_pitch s"

definition fb_get_pixel :: "u32 \<Rightarrow> u32 \<Rightarrow> 'z fb_st_scheme \<Rightarrow> u32" where
  "fb_get_pixel x y s =
     (let p = pixel_addr x y s
      in push_bit 16 (ucast (mem s p)) OR push_bit 8 (ucast (mem s (p + 1))) OR ucast (mem s (p + 2)))"

text \<open>\<open>(c * a + bg * (255 - a)) / 255\<close>, computed in \<open>int\<close> and stored in a byte.\<close>

definition blend :: "u8 \<Rightarrow> u8 \<Rightarrow> u8 \<Rightarrow> u8" where
  "blend c a bg = of_nat ((unat c * unat a + unat bg * (255 - unat a)) div 255)"

definition logo_pixel :: "u32 \<Rightarrow> u32 \<Rightarrow> u8 \<Rightarrow> u8 \<Rightarrow> u8 \<Rightarrow> u8 \<Rightarrow> 'z fb_st_scheme \<Rightarrow> 'z fb_st_scheme" where
  "logo_pixel x y r g b a s =
     (if a = 0 then s
      else if a = 255 then fb_put_pixel x y (fb_color r g b) s
      else let bg = fb_get_pixel x y s;
               bg_r = ucast (drop_bit 16 bg AND 0xFF); bg_g = ucast (drop_bit 8 bg AND 0xFF); bg_b = ucast (bg AND 0xFF)
           in fb_put_pixel x y (fb_color (blend r a bg_r) (blend g a bg_g) (blend b a bg_b)) s)"

definition fb_draw_logo :: "u32 \<Rightarrow> u32 \<Rightarrow> 'z fb_st_scheme \<Rightarrow> 'z fb_st_scheme" where
  "fb_draw_logo x y s =
     snd (for_word 0 LOGO_WIDTH (\<lambda>row (px, s).
       for_word 0 LOGO_HEIGHT (\<lambda>col (px, s).
         (px + 4, logo_pixel (x + col) (y + row) (mem s px) (mem s (px + 1)) (mem s (px + 2)) (mem s (px + 3)) s))
         (px, s)) (logo_raw s, s))"

definition fb_draw_cpu_logos :: "u32 \<Rightarrow> 'z fb_st_scheme \<Rightarrow> 'z fb_st_scheme" where
  "fb_draw_cpu_logos cpu_count s =
     (let total_width = cpu_count * (LOGO_WIDTH + LOGO_GAP) - LOGO_GAP;
          x = (fb_get_width s - total_width) div 2;
          y = fb_get_height s - LOGO_HEIGHT - 10
      in for_word 0 cpu_count (\<lambda>i s. fb_draw_logo (x + i * (LOGO_WIDTH + LOGO_GAP)) y s) s)"

lemma diff_eq_nat: "unat (of_nat j :: u32) = j \<Longrightarrow> unat (x - d) = j \<longleftrightarrow> x = d + of_nat j" for x d :: u32
proof
  assume "unat (of_nat j :: u32) = j" "unat (x - d) = j"
  then have "x - d = of_nat j" by (simp only: word_unat_eq_iff)
  then show "x = d + of_nat j" by (simp add: algebra_simps)
qed simp

lemma band_Suc: "(u = j \<longleftrightarrow> e) \<Longrightarrow> l \<le> j \<Longrightarrow> l \<le> u \<and> u < Suc j \<longleftrightarrow> l \<le> u \<and> u < j \<or> e" for u j l :: nat
  by auto

section \<open>The drawing interface\<close>

text \<open>
  What drawing code relies on: a pixel that is put is seen at its place and nowhere else, as the low 24 bits of the
  colour; pixels outside the screen are ignored; the screen keeps its size, and \<open>rest\<close>, everything but the
  screen's contents, is untouched.
\<close>

locale canvas =
  fixes put :: "u32 \<Rightarrow> u32 \<Rightarrow> u32 \<Rightarrow> 's \<Rightarrow> 's"
    and pix :: "'s \<Rightarrow> u32 \<Rightarrow> u32 \<Rightarrow> u32"
    and good :: "'s \<Rightarrow> bool"
    and width height :: "'s \<Rightarrow> u32"
    and rest :: "'s \<Rightarrow> 'r"
  assumes good_put: "good s \<Longrightarrow> good (put x y c s)"
    and width_put: "good s \<Longrightarrow> width (put x y c s) = width s"
    and height_put: "good s \<Longrightarrow> height (put x y c s) = height s"
    and rest_put: "good s \<Longrightarrow> rest (put x y c s) = rest s"
    and pix_put: "good s \<Longrightarrow> x' < width s \<Longrightarrow> y' < height s \<Longrightarrow>
      pix (put x y c s) x' y' = (if x' = x \<and> y' = y then c AND 0xFFFFFF else pix s x' y')"
begin

text \<open>\<open>painted s D f s'\<close>: the pixels in \<open>D\<close> show the colours \<open>f\<close>, all else is as in \<open>s\<close>.\<close>

definition painted :: "'s \<Rightarrow> (u32 \<Rightarrow> u32 \<Rightarrow> bool) \<Rightarrow> (u32 \<Rightarrow> u32 \<Rightarrow> u32) \<Rightarrow> 's \<Rightarrow> bool" where
  "painted s D f s' \<longleftrightarrow> good s' \<and> width s' = width s \<and> height s' = height s \<and> rest s' = rest s \<and>
     (\<forall>x y. x < width s \<longrightarrow> y < height s \<longrightarrow> pix s' x y = (if D x y then f x y AND 0xFFFFFF else pix s x y))"

lemma painted_none: "good s \<Longrightarrow> painted s (\<lambda>_ _. False) f s"
  by (simp add: painted_def)

lemma painted_put:
  assumes "painted s D f s'" and "\<not> D x y" and "f x y = c"
  shows "painted s (\<lambda>x' y'. D x' y' \<or> x' = x \<and> y' = y) f (put x y c s')"
  using assms by (auto simp: painted_def good_put width_put height_put rest_put pix_put)

lemma painted_cong:
  "(\<And>x y. D x y = D' x y) \<Longrightarrow> painted s D f s' = painted s D' f s'"
  by (simp add: painted_def)

text \<open>
  The nested loops of all drawing routines: columns \<open>x0 \<le> col < x1\<close> inside rows \<open>y0 \<le> row < y1\<close>, moved by
  \<open>(dx, dy)\<close>; the colour may depend on the state, but only on its rest.
\<close>

lemma paint_row:
  assumes "painted s D f s1" and "\<And>x. x0 \<le> x - dx \<and> x - dx < x1 \<Longrightarrow> \<not> D x (dy + row)"
    and f: "\<And>col t. x0 \<le> col \<Longrightarrow> col < x1 \<Longrightarrow> rest t = rest s \<Longrightarrow> g col t = f (dx + col) (dy + row)"
  shows "painted s (\<lambda>x y. D x y \<or> y = dy + row \<and> x0 \<le> x - dx \<and> x - dx < x1) f
    (for_word x0 x1 (\<lambda>col t. put (dx + col) (dy + row) (g col t) t) s1)"
proof (cases "x0 \<le> x1")
  case False
  have "\<not> (x0 \<le> x - dx \<and> x - dx < x1)" for x using False by (meson le_less_trans less_imp_le)
  then have "painted s (\<lambda>x y. D x y \<or> y = dy + row \<and> x0 \<le> x - dx \<and> x - dx < x1) f s1 = painted s D f s1"
    by (intro painted_cong) blast
  then show ?thesis using False assms(1) by (simp only: for_word_empty not_le not_less less_imp_le)
next
  case True
  let ?D = "\<lambda>k x y. D x y \<or> y = dy + row \<and> unat x0 \<le> unat (x - dx) \<and> unat (x - dx) < k"
  have "painted s (?D (unat x1)) f (for_word x0 x1 (\<lambda>col t. put (dx + col) (dy + row) (g col t) t) s1)"
  proof (rule for_word_rule [where P = "\<lambda>k t. painted s (?D k) f t"])
    have "painted s (?D (unat x0)) f s1 = painted s D f s1" by (rule painted_cong) auto
    then show "painted s (?D (unat x0)) f s1" using assms(1) by simp
    show "x0 \<le> x1" by fact
    fix j t assume t: "painted s (?D j) f t" and j: "unat x0 \<le> j" "j < unat x1"
    have u: "unat (of_nat j :: u32) = j" using j(2) unat32_bound [of x1] by (simp add: unat_of_nat)
    let ?x = "dx + of_nat j"
    have "\<not> ?D j ?x (dy + row)"
      using assms(2) [of ?x] j u by (simp add: word_le_nat_alt word_less_nat_alt)
    moreover have "rest t = rest s" using t by (simp add: painted_def)
    then have "g (of_nat j) t = f ?x (dy + row)"
      using j u by (intro f) (simp_all add: word_le_nat_alt word_less_nat_alt)
    ultimately have p: "painted s (\<lambda>x' y'. ?D j x' y' \<or> x' = ?x \<and> y' = dy + row) f (put ?x (dy + row) (g (of_nat j) t) t)"
      using painted_put [OF t, of ?x "dy + row"] by simp
    have "unat (x - dx) = j \<longleftrightarrow> x = ?x" for x by (rule diff_eq_nat [OF u])
    note e = band_Suc [OF this j(1)]
    have "?D (Suc j) x y = (?D j x y \<or> x = ?x \<and> y = dy + row)" for x y using e [of x] by blast
    then show "painted s (?D (Suc j)) f (put ?x (dy + row) (g (of_nat j) t) t)" using p by (simp cong: painted_cong)
  qed
  then show ?thesis by (simp add: word_le_nat_alt word_less_nat_alt)
qed

lemma paint_rect:
  assumes "good s"
    and f: "\<And>row col t. y0 \<le> row \<Longrightarrow> row < y1 \<Longrightarrow> x0 \<le> col \<Longrightarrow> col < x1 \<Longrightarrow> rest t = rest s \<Longrightarrow> g row col t = f (dx + col) (dy + row)"
    and X1: "\<And>t. rest t = rest s \<Longrightarrow> width t = width s \<Longrightarrow> X1 t = x1"
  shows "painted s (\<lambda>x y. y0 \<le> y - dy \<and> y - dy < y1 \<and> x0 \<le> x - dx \<and> x - dx < x1) f
    (for_word y0 y1 (\<lambda>row t. for_word x0 (X1 t) (\<lambda>col t. put (dx + col) (dy + row) (g row col t) t) t) s)"
proof (cases "y0 \<le> y1")
  case False
  have "\<not> (y0 \<le> y - dy \<and> y - dy < y1)" for y using False by (meson le_less_trans less_imp_le)
  then have "painted s (\<lambda>x y. y0 \<le> y - dy \<and> y - dy < y1 \<and> x0 \<le> x - dx \<and> x - dx < x1) f s = painted s (\<lambda>_ _. False) f s"
    by (intro painted_cong) blast
  then show ?thesis using False painted_none [OF assms(1)] by (simp only: for_word_empty not_le not_less less_imp_le)
next
  case True
  let ?C = "\<lambda>x. x0 \<le> x - dx \<and> x - dx < x1"
  let ?D = "\<lambda>k x y. unat y0 \<le> unat (y - dy) \<and> unat (y - dy) < k \<and> ?C x"
  have "painted s (?D (unat y1)) f
    (for_word y0 y1 (\<lambda>row t. for_word x0 (X1 t) (\<lambda>col t. put (dx + col) (dy + row) (g row col t) t) t) s)"
  proof (rule for_word_rule [where P = "\<lambda>k t. painted s (?D k) f t"])
    have "painted s (?D (unat y0)) f s = painted s (\<lambda>_ _. False) f s" by (rule painted_cong) auto
    then show "painted s (?D (unat y0)) f s" using painted_none [OF assms(1)] by simp
    show "y0 \<le> y1" by fact
    fix j t assume t: "painted s (?D j) f t" and j: "unat y0 \<le> j" "j < unat y1"
    have u: "unat (of_nat j :: u32) = j" using j(2) unat32_bound [of y1] by (simp add: unat_of_nat)
    let ?y = "dy + of_nat j"
    have p: "painted s (\<lambda>x y. ?D j x y \<or> y = ?y \<and> ?C x) f
      (for_word x0 x1 (\<lambda>col t. put (dx + col) ?y (g (of_nat j) col t) t) t)"
      by (rule paint_row [OF t]) (use u j in \<open>auto simp: word_le_nat_alt word_less_nat_alt intro!: f\<close>)
    have "unat (y - dy) = j \<longleftrightarrow> y = ?y" for y by (rule diff_eq_nat [OF u])
    note e = band_Suc [OF this j(1)]
    have "?D (Suc j) x y = (?D j x y \<or> y = ?y \<and> ?C x)" for x y using e [of y] by blast
    moreover have x1: "X1 t = x1" using t by (intro X1) (simp_all add: painted_def)
    ultimately show "painted s (?D (Suc j)) f (for_word x0 (X1 t) (\<lambda>col t. put (dx + col) ?y (g (of_nat j) col t) t) t)"
      using p unfolding x1 by (simp cong: painted_cong)
  qed
  then show ?thesis by (simp add: word_le_nat_alt word_less_nat_alt)
qed

end

section \<open>The framebuffer is a canvas\<close>

text \<open>The mode of the screen: at least three bytes per pixel, rows that fit the pitch, no 32-bit overflow.\<close>

definition fb_bytes :: "'z fb_st_scheme \<Rightarrow> nat" where
  "fb_bytes s = unat (fb_bpp s) div 8"

definition fb_size :: "'z fb_st_scheme \<Rightarrow> nat" where
  "fb_size s = unat (fb_height s) * unat (fb_pitch s)"

definition fb_ok :: "'z fb_st_scheme \<Rightarrow> bool" where
  "fb_ok s \<longleftrightarrow> 3 \<le> fb_bytes s \<and> unat (fb_width s) * fb_bytes s \<le> unat (fb_pitch s) \<and>
     fb_size s < 2 ^ 32 \<and> unat (fb_addr s) + fb_size s \<le> 2 ^ 64"

definition pixel_at :: "'z fb_st_scheme \<Rightarrow> u32 \<Rightarrow> u32 \<Rightarrow> u32" where
  "pixel_at s x y = (let p = pixel_addr x y s in
     ucast (mem s p) OR push_bit 8 (ucast (mem s (p + 1))) OR push_bit 16 (ucast (mem s (p + 2))))"

definition off_screen :: "'z fb_st_scheme \<Rightarrow> 'z fb_st_scheme" where
  "off_screen s = s\<lparr>mem := (\<lambda>a. if a \<in> region (fb_addr s) (fb_size s) then 0 else mem s a)\<rparr>"

lemma pixel_offset:
  assumes "fb_ok s" and "x < fb_width s" and "y < fb_height s"
  shows "unat (pixel_addr x y s - fb_addr s) = unat y * unat (fb_pitch s) + unat x * fb_bytes s"
    and "unat y * unat (fb_pitch s) + unat x * fb_bytes s + 3 \<le> Suc (unat y) * unat (fb_pitch s)"
    and "Suc (unat y) * unat (fb_pitch s) \<le> fb_size s"
proof -
  have x: "Suc (unat x) \<le> unat (fb_width s)" and y: "Suc (unat y) \<le> unat (fb_height s)"
    using assms(2,3) by (simp_all add: word_less_nat_alt)
  have ok: "3 \<le> fb_bytes s" "unat (fb_width s) * fb_bytes s \<le> unat (fb_pitch s)" "fb_size s < 2 ^ 32"
    using assms(1) by (simp_all add: fb_ok_def)
  have "Suc (unat x) * fb_bytes s \<le> unat (fb_pitch s)"
    using mult_le_mono1 [OF x, of "fb_bytes s"] ok(2) by (rule le_trans)
  then show 2: "unat y * unat (fb_pitch s) + unat x * fb_bytes s + 3 \<le> Suc (unat y) * unat (fb_pitch s)"
    using ok(1) by simp
  show 3: "Suc (unat y) * unat (fb_pitch s) \<le> fb_size s" unfolding fb_size_def by (rule mult_le_mono1 [OF y])
  let ?B = "ucast (fb_bpp s div 8) :: u32"
  have B: "unat ?B = fb_bytes s"
  proof -
    have "unat (fb_bpp s div 8) = fb_bytes s" by (simp add: fb_bytes_def unat_div)
    moreover have "fb_bytes s < 2 ^ 32" unfolding fb_bytes_def using unsigned_less [of "fb_bpp s", where ?'a = nat] by simp
    ultimately show ?thesis by (simp add: unsigned_ucast_eq take_bit_nat_eq_self)
  qed
  have yp: "unat (y * fb_pitch s) = unat y * unat (fb_pitch s)" and xb: "unat (x * ?B) = unat x * fb_bytes s"
    using 2 3 ok(3) B by (simp_all add: unat_word_ariths)
  have "unat (ucast (y * fb_pitch s) + ucast (x * ?B) :: u64) = unat y * unat (fb_pitch s) + unat x * fb_bytes s"
    using 2 3 ok(3) yp xb by (simp add: unat_word_ariths unsigned_ucast_eq take_bit_nat_eq_self)
  moreover have "pixel_addr x y s - fb_addr s = ucast (y * fb_pitch s) + ucast (x * ?B)"
    by (simp add: pixel_addr_def)
  ultimately show "unat (pixel_addr x y s - fb_addr s) = unat y * unat (fb_pitch s) + unat x * fb_bytes s" by simp
qed

lemma pixel_byte:
  assumes "fb_ok s" and "x < fb_width s" and "y < fb_height s" and "i < 3"
  shows "unat (pixel_addr x y s + of_nat i - fb_addr s) = unat y * unat (fb_pitch s) + unat x * fb_bytes s + i"
    and "pixel_addr x y s + of_nat i \<in> region (fb_addr s) (fb_size s)"
proof -
  note o = pixel_offset [OF assms(1-3)]
  have sz: "fb_size s < 2 ^ 32" using assms(1) by (simp add: fb_ok_def)
  have "pixel_addr x y s + of_nat i - fb_addr s = (pixel_addr x y s - fb_addr s) + of_nat i" by simp
  moreover have "unat ((pixel_addr x y s - fb_addr s) + of_nat i) = unat (pixel_addr x y s - fb_addr s) + i"
    using o sz assms(4) by (simp add: unat_word_ariths unat_of_nat)
  ultimately show 1: "unat (pixel_addr x y s + of_nat i - fb_addr s) = unat y * unat (fb_pitch s) + unat x * fb_bytes s + i"
    using o(1) by (simp only:)
  show "pixel_addr x y s + of_nat i \<in> region (fb_addr s) (fb_size s)"
    unfolding region_iff 1 using o(2,3) assms(4) by linarith
qed

lemma pixel_byte_inj:
  assumes "fb_ok s" and "x < fb_width s" "y < fb_height s" "i < 3" and "x' < fb_width s" "y' < fb_height s" "j < 3"
  shows "pixel_addr x y s + of_nat i = pixel_addr x' y' s + of_nat j \<longleftrightarrow> x = x' \<and> y = y' \<and> i = j"
proof
  let ?P = "unat (fb_pitch s)" and ?B = "fb_bytes s"
  assume "pixel_addr x y s + of_nat i = pixel_addr x' y' s + of_nat j"
  then have eq: "unat y * ?P + unat x * ?B + i = unat y' * ?P + unat x' * ?B + j"
    using pixel_byte(1) [OF assms(1-4)] pixel_byte(1) [OF assms(1,5-7)] by simp
  have "(unat y * ?P + unat x * ?B + i) div ?P = unat y"
    using pixel_offset(2) [OF assms(1-3)] assms(4) by (intro div_nat_eqI) (simp_all add: mult.commute)
  moreover have "(unat y' * ?P + unat x' * ?B + j) div ?P = unat y'"
    using pixel_offset(2) [OF assms(1,5,6)] assms(7) by (intro div_nat_eqI) (simp_all add: mult.commute)
  ultimately have y: "unat y = unat y'" using eq by simp
  then have eq2: "unat x * ?B + i = unat x' * ?B + j" using eq by simp
  have B: "3 \<le> ?B" using assms(1) by (simp add: fb_ok_def)
  have "(unat x * ?B + i) div ?B = unat x" using B assms(4) by simp
  moreover have "(unat x' * ?B + j) div ?B = unat x'" using B assms(7) by simp
  ultimately have x: "unat x = unat x'" using eq2 by simp
  then show "x = x' \<and> y = y' \<and> i = j" using y eq2 by (simp add: word_unat_eq_iff)
qed simp

lemma colour_bytes:
  "ucast (ucast (c AND 0xFF) :: u8) OR push_bit 8 (ucast (ucast (drop_bit 8 c AND 0xFF) :: u8))
    OR push_bit 16 (ucast (ucast (drop_bit 16 c AND 0xFF) :: u8)) = c AND 0xFFFFFF" for c :: u32
proof -
  have m: "(0xFF :: u32) = mask 8" "(0xFFFFFF :: u32) = mask 24" by (simp_all add: mask_eq_exp_minus_1)
  show ?thesis unfolding m
  proof (rule bit_word_eqI)
    fix n assume "n < LENGTH(32)"
    consider "n < 8" | "8 \<le> n" "n < 16" | "16 \<le> n" "n < 24" | "24 \<le> n" by linarith
    then show "bit ((ucast (ucast (c AND mask 8) :: u8) :: u32) OR push_bit 8 (ucast (ucast (drop_bit 8 c AND mask 8) :: u8))
      OR push_bit 16 (ucast (ucast (drop_bit 16 c AND mask 8) :: u8))) n = bit (c AND mask 24) n"
      by cases (auto simp: bit_simps)
  qed
qed

lemma pixel_at_put:
  assumes "fb_ok s" and "x' < fb_width s" and "y' < fb_height s"
  shows "pixel_at (fb_put_pixel x y c s) x' y' = (if x' = x \<and> y' = y then c AND 0xFFFFFF else pixel_at s x' y')"
proof (cases "x < fb_width s \<and> y < fb_height s")
  case False
  then have "fb_put_pixel x y c s = s" by (auto simp: fb_put_pixel_def)
  then show ?thesis using False assms(2,3) by auto
next
  case True
  let ?p = "pixel_addr x y s" and ?q = "pixel_addr x' y' s"
  have inj: "?p + of_nat i = ?q + of_nat j \<longleftrightarrow> x' = x \<and> y' = y \<and> i = j" if "i < 3" "j < 3" for i j
    using pixel_byte_inj [OF assms(1) _ _ that(1) assms(2,3) that(2)] True by auto
  note i = inj [of 0 0] inj [of 0 1] inj [of 0 2] inj [of 1 0] inj [of 1 1] inj [of 1 2] inj [of 2 0] inj [of 2 1] inj [of 2 2]
  have pq: "pixel_addr x' y' (s\<lparr>mem := m\<rparr>) = ?q" for m by (simp add: pixel_addr_def)
  have "fb_put_pixel x y c s = s\<lparr>mem := (mem s)(?p := ucast (c AND 0xFF),
      ?p + 1 := ucast (drop_bit 8 c AND 0xFF), ?p + 2 := ucast (drop_bit 16 c AND 0xFF))\<rparr>"
    using True by (auto simp: fb_put_pixel_def Let_def dest: leD)
  then show ?thesis
    using i colour_bytes [of c] by (auto simp: pixel_at_def Let_def pq)
qed

lemma fb_put_pixel_fields [simp]:
  "fb_addr (fb_put_pixel x y c s) = fb_addr s" "fb_width (fb_put_pixel x y c s) = fb_width s"
  "fb_height (fb_put_pixel x y c s) = fb_height s" "fb_pitch (fb_put_pixel x y c s) = fb_pitch s"
  "fb_bpp (fb_put_pixel x y c s) = fb_bpp s" "logo_raw (fb_put_pixel x y c s) = logo_raw s"
  by (simp_all add: fb_put_pixel_def Let_def)

lemma fb_ok_put [simp]: "fb_ok (fb_put_pixel x y c s) = fb_ok s"
  by (simp add: fb_ok_def fb_size_def fb_bytes_def)

lemma off_screen_put:
  assumes "fb_ok s"
  shows "off_screen (fb_put_pixel x y c s) = off_screen s"
proof (cases "x < fb_width s \<and> y < fb_height s")
  case False
  then have "fb_put_pixel x y c s = s" by (auto simp: fb_put_pixel_def)
  then show ?thesis by simp
next
  case True
  let ?p = "pixel_addr x y s"
  have r: "?p \<in> region (fb_addr s) (fb_size s)" "?p + 1 \<in> region (fb_addr s) (fb_size s)" "?p + 2 \<in> region (fb_addr s) (fb_size s)"
    using True pixel_byte(2) [OF assms, of x y 0] pixel_byte(2) [OF assms, of x y 1] pixel_byte(2) [OF assms, of x y 2] by simp_all
  have "fb_put_pixel x y c s = s\<lparr>mem := (mem s)(?p := ucast (c AND 0xFF),
      ?p + 1 := ucast (drop_bit 8 c AND 0xFF), ?p + 2 := ucast (drop_bit 16 c AND 0xFF))\<rparr>"
    using True by (auto simp: fb_put_pixel_def Let_def dest: leD)
  then show ?thesis using r by (auto simp: off_screen_def fb_size_def fun_eq_iff)
qed

interpretation screen: canvas fb_put_pixel pixel_at fb_ok fb_width fb_height off_screen
  by unfold_locales (simp_all add: off_screen_put pixel_at_put)

lemma fb_clear_painted:
  assumes "fb_ok s"
  shows "screen.painted s (\<lambda>x y. y < fb_height s \<and> x < fb_width s) (\<lambda>_ _. c) (fb_clear c s)"
  using screen.paint_rect [OF assms, where g = "\<lambda>_ _ _. c" and f = "\<lambda>_ _. c" and dx = 0 and dy = 0 and ?X1.0 = fb_width and ?x1.0 = "fb_width s" and ?y0.0 = 0 and ?y1.0 = "fb_height s" and ?x0.0 = 0]
  by (simp add: fb_clear_def)

lemma fb_fill_rect_painted:
  assumes "fb_ok s"
  shows "screen.painted s (\<lambda>px py. y \<le> py \<and> py < y + h \<and> x \<le> px \<and> px < x + w) (\<lambda>_ _. c) (fb_fill_rect x y w h c s)"
  using screen.paint_rect [OF assms, where g = "\<lambda>_ _ _. c" and f = "\<lambda>_ _. c" and dx = 0 and dy = 0 and ?X1.0 = "\<lambda>_. x + w" and ?x1.0 = "x + w" and ?y0.0 = y and ?y1.0 = "y + h" and ?x0.0 = x]
  by (simp add: fb_fill_rect_def)

text \<open>Only the screen changes under a sequence of drawing operations.\<close>

definition drawn :: "'z fb_st_scheme \<Rightarrow> 'z fb_st_scheme \<Rightarrow> bool" where
  "drawn s t \<longleftrightarrow> fb_ok t \<and> off_screen t = off_screen s"

lemma drawn_put: "drawn s t \<Longrightarrow> drawn s (fb_put_pixel x y c t)"
  by (simp add: drawn_def off_screen_put)

lemma drawn_logo_pixel: "drawn s t \<Longrightarrow> drawn s (logo_pixel x y r g b a t)"
  by (simp add: logo_pixel_def Let_def drawn_put)

lemma drawn_for:
  assumes "P s" and "\<And>j t. P t \<Longrightarrow> P (body j t)"
  shows "P (for_word i n body s)"
  unfolding for_word_fold using assms by (intro fold_invariant [where Q = "\<lambda>_. True" and P = P]) auto

lemma fb_draw_logo_drawn:
  assumes "drawn s t"
  shows "drawn s (fb_draw_logo x y t)"
proof -
  have "drawn s (snd (for_word 0 LOGO_WIDTH (\<lambda>row (px, s). for_word 0 LOGO_HEIGHT (\<lambda>col (px, s).
       (px + 4, logo_pixel (x + col) (y + row) (mem s px) (mem s (px + 1)) (mem s (px + 2)) (mem s (px + 3)) s))
       (px, s)) (logo_raw t, t)))"
    by (rule drawn_for [where P = "\<lambda>p. drawn s (snd p)"], simp add: assms, clarsimp)
      (rule drawn_for [where P = "\<lambda>p. drawn s (snd p)"], simp, clarsimp simp: drawn_logo_pixel)
  then show ?thesis by (simp add: fb_draw_logo_def)
qed

section \<open>Properties\<close>

definition demo_fb :: fb_st where
  "demo_fb = paging_st.extend (hw.extend demo_hw \<lparr>g_pml4 = 0x200000, pool_base = 0x200000, pool_offset = 4096\<rparr>)
     \<lparr>fb_addr = 0xFD000000, fb_width = 8, fb_height = 4, fb_pitch = 32, fb_bpp = 32, logo_raw = 0x500000\<rparr>"

lemma demo_fb_sel [simp]: "fb_addr demo_fb = 0xFD000000" "fb_width demo_fb = 8" "fb_height demo_fb = 4"
  "fb_pitch demo_fb = 32" "fb_bpp demo_fb = 32" "mem demo_fb = (\<lambda>_. 0)"
  by (simp_all add: demo_fb_def paging_st.defs hw.defs demo_hw_def)

lemma demo_fb_ok: "fb_ok demo_fb"
  by (simp add: fb_ok_def fb_size_def fb_bytes_def)

text \<open>
  Clearing the screen gives every pixel the colour (its low 24 bits) and changes nothing outside the
  framebuffer.
\<close>

theorem fb_clear_screen:
  assumes "fb_ok s"
  shows "off_screen (fb_clear c s) = off_screen s \<and>
    (\<forall>x y. x < fb_width s \<longrightarrow> y < fb_height s \<longrightarrow> pixel_at (fb_clear c s) x y = c AND 0xFFFFFF)"
  using fb_clear_painted [OF assms, of c] by (simp add: screen.painted_def)

text \<open>
  A filled rectangle colours exactly the pixels of the screen inside it; a rectangle that reaches past
  the screen is clipped, and nothing outside the framebuffer is written.
\<close>

theorem fb_fill_rect_exact:
  assumes "fb_ok s"
  shows "off_screen (fb_fill_rect x y w h c s) = off_screen s \<and>
    (\<forall>px py. px < fb_width s \<longrightarrow> py < fb_height s \<longrightarrow> pixel_at (fb_fill_rect x y w h c s) px py =
       (if x \<le> px \<and> px < x + w \<and> y \<le> py \<and> py < y + h then c AND 0xFFFFFF else pixel_at s px py))"
  using fb_fill_rect_painted [OF assms, of y h x w c] by (auto simp: screen.painted_def)

text \<open>
  Reading a pixel back swaps red and blue: \<open>fb_put_pixel\<close> stores blue first, \<open>fb_get_pixel\<close> reads the
  first byte as red. The logo is therefore blended against a wrong background.
\<close>

theorem fb_get_pixel_swaps:
  assumes "fb_ok s" and "x < fb_width s" and "y < fb_height s"
  shows "fb_get_pixel x y (fb_put_pixel x y (fb_color r g b) s) = fb_color b g r"
proof -
  let ?p = "pixel_addr x y s" and ?c = "fb_color r g b"
  have ne: "?p + 1 \<noteq> ?p" "?p + 2 \<noteq> ?p" "?p + 2 \<noteq> ?p + 1" by simp_all
  have pq: "pixel_addr x y (s\<lparr>mem := m\<rparr>) = ?p" for m by (simp add: pixel_addr_def)
  have m: "(0xFF :: u32) = mask 8" by (simp add: mask_eq_exp_minus_1)
  have c: "ucast (?c AND 0xFF) = b" "ucast (drop_bit 8 ?c AND 0xFF) = g" "ucast (drop_bit 16 ?c AND 0xFF) = r"
    unfolding m fb_color_def by (rule bit_word_eqI, auto simp: bit_simps dest: bit_imp_le_length)+
  have "fb_put_pixel x y ?c s = s\<lparr>mem := (mem s)(?p := b, ?p + 1 := g, ?p + 2 := r)\<rparr>"
    using assms(2,3) by (auto simp: fb_put_pixel_def Let_def c dest: leD)
  then show ?thesis by (simp add: fb_get_pixel_def Let_def pq ne fb_color_def)
qed

text \<open>
  C30. Drawing the logos, wherever they fall, writes no byte outside the framebuffer and leaves all other
  state unchanged.
\<close>

theorem fb_draw_cpu_logos_in_frame:
  assumes "fb_ok s"
  shows "off_screen (fb_draw_cpu_logos n s) = off_screen s"
proof -
  have "drawn s s" using assms by (simp add: drawn_def)
  then have "drawn s (fb_draw_cpu_logos n s)"
    unfolding fb_draw_cpu_logos_def Let_def by (rule drawn_for) (rule fb_draw_logo_drawn)
  then show ?thesis by (simp add: drawn_def)
qed

theorem fb_draw_cpu_logos_in_frame_witness: "off_screen (fb_draw_cpu_logos 4 demo_fb) = off_screen demo_fb"
  by (rule fb_draw_cpu_logos_in_frame [OF demo_fb_ok])

end
