(* ===== verification/Font.thy ===== *)
theory Font
  imports Framebuffer
begin

text \<open>
  Bitmap glyphs, \<^verbatim>\<open>drivers/font.c\<close> (without \<open>font_init\<close>, which logs and follows with the logger): drawing a
  character paints its glyph, foreground and background, at the given place of the screen.
\<close>

text \<open>\<open>psf_start\<close> is the address the linker gives the embedded font file.\<close>

record font_st = fb_st +
  psf_start :: u64
  font_header_v1 :: u64
  font_header_v2 :: u64
  font_glyphs :: u64
  font_width :: u32
  font_height :: u32
  font_glyph_size :: u32

definition font_get_width :: "'z font_st_scheme \<Rightarrow> u32" where "font_get_width s = font_width s"
definition font_get_height :: "'z font_st_scheme \<Rightarrow> u32" where "font_get_height s = font_height s"

definition glyph_byte_addr :: "char \<Rightarrow> u32 \<Rightarrow> u32 \<Rightarrow> 'z font_st_scheme \<Rightarrow> u64" where
  "glyph_byte_addr c row col s =
     (let glyph = font_glyphs s + ucast (ucast (of_char c :: u8) * font_glyph_size s :: u32);
          bytes_per_row = (font_width s + 7) div 8
      in glyph + ucast (row * bytes_per_row + col div 8))"

definition glyph_bit :: "char \<Rightarrow> u32 \<Rightarrow> u32 \<Rightarrow> 'z font_st_scheme \<Rightarrow> bool" where
  "glyph_bit c row col s \<longleftrightarrow>
     drop_bit (unat (7 - col mod 8)) (mem s (glyph_byte_addr c row col s)) AND 1 \<noteq> 0"

definition font_draw_char ::
  "char \<Rightarrow> u32 \<Rightarrow> u32 \<Rightarrow> u32 \<Rightarrow> u32 \<Rightarrow> 'z font_st_scheme \<Rightarrow> 'z font_st_scheme" where
  "font_draw_char c x y fg bg s =
     (if font_glyphs s = 0 then s
      else for_word 0 (font_height s) (\<lambda>row s. for_word 0 (font_width s) (\<lambda>col s.
        fb_put_pixel (x + col) (y + row) (if glyph_bit c row col s then fg else bg) s) s) s)"

section \<open>The glyph is painted\<close>

text \<open>The glyph data does not lie in the framebuffer.\<close>

definition font_ok :: "'z font_st_scheme \<Rightarrow> bool" where
  "font_ok s \<longleftrightarrow> fb_ok s \<and> (\<forall>c row col. row < font_height s \<longrightarrow> col < font_width s \<longrightarrow>
     glyph_byte_addr c row col s \<notin> region (fb_addr s) (fb_size s))"

lemma off_screen_mem:
  assumes "off_screen t = off_screen s" and "a \<notin> region (fb_addr s) (fb_size s)"
  shows "mem t a = mem s a"
proof -
  have r: "fb_addr t = fb_addr s" "fb_size t = fb_size s"
    using arg_cong [OF assms(1), of fb_addr] arg_cong [OF assms(1), of fb_size] by (simp_all add: off_screen_def fb_size_def)
  have "mem (off_screen t) a = mem (off_screen s) a" using assms(1) by simp
  then show ?thesis using assms(2) by (simp add: off_screen_def r)
qed

lemma off_screen_font:
  assumes "off_screen t = off_screen s"
  shows "font_glyphs t = font_glyphs s" "font_width t = font_width s" "font_height t = font_height s"
    "font_glyph_size t = font_glyph_size s" "glyph_byte_addr c row col t = glyph_byte_addr c row col s"
proof -
  note e = arg_cong [OF assms, of font_glyphs] arg_cong [OF assms, of font_width] arg_cong [OF assms, of font_height]
    arg_cong [OF assms, of font_glyph_size]
  show g: "font_glyphs t = font_glyphs s" "font_width t = font_width s" "font_height t = font_height s"
    "font_glyph_size t = font_glyph_size s" using e by (simp_all add: off_screen_def)
  show "glyph_byte_addr c row col t = glyph_byte_addr c row col s" by (simp add: glyph_byte_addr_def g)
qed

lemma glyph_bit_stable:
  assumes "font_ok s" and "off_screen t = off_screen s" and "row < font_height s" and "col < font_width s"
  shows "glyph_bit c row col t = glyph_bit c row col s"
  using off_screen_mem [OF assms(2)] assms by (simp add: glyph_bit_def off_screen_font [OF assms(2)] font_ok_def)

lemma font_draw_char_painted:
  assumes "font_ok s" and "font_glyphs s \<noteq> 0"
  shows "screen.painted s (\<lambda>px py. py - y < font_height s \<and> px - x < font_width s)
    (\<lambda>px py. if glyph_bit c (py - y) (px - x) s then fg else bg) (font_draw_char c x y fg bg s)"
proof -
  have ok: "fb_ok s" using assms(1) by (simp add: font_ok_def)
  have "screen.painted s (\<lambda>px py. 0 \<le> py - y \<and> py - y < font_height s \<and> 0 \<le> px - x \<and> px - x < font_width s)
    (\<lambda>px py. if glyph_bit c (py - y) (px - x) s then fg else bg)
    (for_word 0 (font_height s) (\<lambda>row s. for_word 0 (font_width s) (\<lambda>col s.
        fb_put_pixel (x + col) (y + row) (if glyph_bit c row col s then fg else bg) s) s) s)"
    by (rule screen.paint_rect [OF ok, where g = "\<lambda>row col s. if glyph_bit c row col s then fg else bg"
        and f = "\<lambda>px py. if glyph_bit c (py - y) (px - x) s then fg else bg" and ?X1.0 = font_width])
      (subst glyph_bit_stable [OF assms(1)], simp_all, rule off_screen_font(2))
  then show ?thesis using assms(2) by (simp add: font_draw_char_def)
qed

section \<open>Properties\<close>

text \<open>
  C27. Drawing a character paints exactly its cell: inside the font's box each pixel has the foreground colour
  where the glyph has a bit and the background colour elsewhere; every other pixel, the glyph data and all
  other state are unchanged.
\<close>

theorem font_draw_char_exact:
  assumes "font_ok s" and "font_glyphs s \<noteq> 0"
  shows "off_screen (font_draw_char c x y fg bg s) = off_screen s \<and>
    (\<forall>px py. px < fb_width s \<longrightarrow> py < fb_height s \<longrightarrow> pixel_at (font_draw_char c x y fg bg s) px py =
       (if px - x < font_width s \<and> py - y < font_height s
        then (if glyph_bit c (py - y) (px - x) s then fg else bg) AND 0xFFFFFF else pixel_at s px py))"
  using font_draw_char_painted [OF assms, of y x c fg bg] by (auto simp: screen.painted_def)

text \<open>A font of one glyph size, 8 by 2 pixels, whose bytes are all \<open>0xF0\<close>.\<close>

definition demo_font :: font_st where
  "demo_font = fb_st.extend (demo_fb\<lparr>mem := (\<lambda>a. if a < 0x700000 then 0xF0 else 0)\<rparr>)
     \<lparr>psf_start = 0x600000, font_header_v1 = 0x600000, font_header_v2 = 0, font_glyphs = 0x600004,
      font_width = 4, font_height = 2, font_glyph_size = 2\<rparr>"

lemma demo_font_sel [simp]: "fb_addr demo_font = 0xFD000000" "fb_width demo_font = 8" "fb_height demo_font = 4"
  "fb_pitch demo_font = 32" "fb_bpp demo_font = 32" "mem demo_font = (\<lambda>a. if a < 0x700000 then 0xF0 else 0)"
  "font_glyphs demo_font = 0x600004" "font_width demo_font = 4" "font_height demo_font = 2" "font_glyph_size demo_font = 2"
  by (simp_all add: demo_font_def demo_fb_def fb_st.defs paging_st.defs hw.defs demo_hw_def)

lemma demo_glyph_addr:
  assumes "row < 2" and "col < 4"
  shows "unat (glyph_byte_addr c row col demo_font) < 0x700000"
proof -
  have r: "unat row < 2" "unat (col div 8) = 0" using assms by (simp_all add: word_less_nat_alt unat_div)
  let ?c = "ucast (ucast (of_char c :: u8) * 2 :: u32) :: u64"
  have c: "unat (of_char c :: u8) < 256" using unsigned_less [of "of_char c :: u8", where ?'a = nat] by simp
  have "unat ?c = 2 * unat (of_char c :: u8)" using c by (simp add: unat_word_ariths unsigned_ucast_eq take_bit_nat_eq_self)
  moreover have "unat (ucast (row * (11 div 8) + col div 8) :: u64) = unat row"
    using r by (simp add: unat_word_ariths unsigned_ucast_eq take_bit_nat_eq_self)
  ultimately show ?thesis using r c by (simp add: glyph_byte_addr_def Let_def unat_word_ariths)
qed

lemma demo_font_ok: "font_ok demo_font"
proof -
  have "a \<notin> region 0xFD000000 128" if "unat a < 0x700000" for a :: u64
  proof -
    have "separate a 1 0xFD000000 128" using that by (intro separate_by_order) (simp_all add: fits_def)
    moreover have "a \<in> region a 1" by (simp add: region_iff)
    ultimately show ?thesis using separate_disjoint by blast
  qed
  then show ?thesis using demo_glyph_addr by (auto simp: font_ok_def fb_ok_def fb_size_def fb_bytes_def)
qed

theorem font_draw_char_exact_witness:
  "pixel_at (font_draw_char (CHR ''A'') 1 1 0xFFFFFF 0 demo_font) 2 2 = 0xFFFFFF \<and>
   pixel_at (font_draw_char (CHR ''A'') 1 1 0xFFFFFF 0 demo_font) 6 2 = pixel_at demo_font 6 2"
proof -
  have "glyph_bit (CHR ''A'') 1 1 demo_font" by code_simp
  then show ?thesis using font_draw_char_exact [OF demo_font_ok, of "CHR ''A''" 1 1 "0xFFFFFF" 0] by simp
qed

end
