(* ===== verification/Console.thy ===== *)
theory Console
  imports Font
begin

text \<open>
  The text console, \<^verbatim>\<open>lib/console.c\<close> (without \<open>console_init\<close>, which allocates and follows with the heap): a
  buffer of character cells in memory, a cursor, and the screen on which every cell is drawn. The formatted
  output functions are the generic ones of theory Printf over \<open>console_putchar\<close>; the source repeats the text of
  \<^verbatim>\<open>lib/sprintf.c\<close> with the other output function.
\<close>

section \<open>State and operations\<close>

record con_st = font_st +
  con_initialized :: bool
  cursor_x :: u32
  cursor_y :: u32
  fg_color :: u32
  bg_color :: u32
  cols :: u32
  rows :: u32
  char_w :: u32
  char_h :: u32
  con_buffer :: u64

text \<open>\<open>console_char_t\<close>: the character at 0, the colours at 4 and 8; its size is 12.\<close>

definition sizeof_cell :: u64 where "sizeof_cell = 12"

definition cell_addr :: "u32 \<Rightarrow> 'z con_st_scheme \<Rightarrow> u64" where
  "cell_addr i s = con_buffer s + sizeof_cell * ucast i"

definition set_cell :: "u32 \<Rightarrow> char \<Rightarrow> u32 \<Rightarrow> u32 \<Rightarrow> 'z con_st_scheme \<Rightarrow> 'z con_st_scheme" where
  "set_cell i c fg bg s =
     (let a = cell_addr i s
      in s\<lparr>mem := store32 (store32 (store8 (mem s) a (of_char c)) (a + 4) fg) (a + 8) bg\<rparr>)"

definition console_ready :: "'z con_st_scheme \<Rightarrow> bool" where
  "console_ready s = con_initialized s"

definition console_clear :: "'z con_st_scheme \<Rightarrow> 'z con_st_scheme" where
  "console_clear s =
     (let s = fb_clear (bg_color s) s;
          s = (if con_buffer s \<noteq> 0
               then for_word 0 (cols s * rows s) (\<lambda>i s. set_cell i (CHR '' '') (fg_color s) (bg_color s) s) s
               else s)
      in s\<lparr>cursor_x := 0, cursor_y := 0\<rparr>)"

definition console_set_color :: "u32 \<Rightarrow> u32 \<Rightarrow> 'z con_st_scheme \<Rightarrow> 'z con_st_scheme" where
  "console_set_color fg bg s = s\<lparr>fg_color := fg, bg_color := bg\<rparr>"

definition redraw_all :: "'z con_st_scheme \<Rightarrow> 'z con_st_scheme" where
  "redraw_all s =
     for_word 0 (rows s) (\<lambda>y s. for_word 0 (cols s) (\<lambda>x s.
       let a = cell_addr (y * cols s + x) s
       in font_draw_char (char_of (unat (load8 (mem s) a))) (x * char_w s) (y * char_h s)
            (load32 (mem s) (a + 4)) (load32 (mem s) (a + 8)) s) s) s"

definition scroll :: "'z con_st_scheme \<Rightarrow> 'z con_st_scheme" where
  "scroll s =
     (let s = s\<lparr>mem := memmove (con_buffer s) (con_buffer s + sizeof_cell * ucast (cols s))
                          (ucast ((rows s - 1) * cols s) * sizeof_cell) (mem s)\<rparr>;
          s = for_word 0 (cols s) (\<lambda>x s. set_cell ((rows s - 1) * cols s + x) (CHR '' '') (fg_color s) (bg_color s) s) s
      in redraw_all s)"

definition console_putchar :: "char \<Rightarrow> 'z con_st_scheme \<Rightarrow> 'z con_st_scheme" where
  "console_putchar c s =
     (let s =
        (if c = CHR 0x0A then s\<lparr>cursor_x := 0, cursor_y := cursor_y s + 1\<rparr>
         else if c = CHR 0x0D then s\<lparr>cursor_x := 0\<rparr>
         else if c = CHR 0x08 then (if cursor_x s > 0 then s\<lparr>cursor_x := cursor_x s - 1\<rparr> else s)
         else
           let s = (if con_buffer s \<noteq> 0 then set_cell (cursor_y s * cols s + cursor_x s) c (fg_color s) (bg_color s) s else s);
               s = font_draw_char c (cursor_x s * char_w s) (cursor_y s * char_h s) (fg_color s) (bg_color s) s;
               s = s\<lparr>cursor_x := cursor_x s + 1\<rparr>
           in if cursor_x s \<ge> cols s then s\<lparr>cursor_x := 0, cursor_y := cursor_y s + 1\<rparr> else s)
      in if cursor_y s \<ge> rows s then (scroll s)\<lparr>cursor_y := rows s - 1\<rparr> else s)"

fun console_print :: "string \<Rightarrow> 'z con_st_scheme \<Rightarrow> 'z con_st_scheme" where
  "console_print [] s = s"
| "console_print (c # cs) s = console_print cs (console_putchar c s)"

definition con_put :: "char \<Rightarrow> 'z con_st_scheme \<Rightarrow> (unit, 'z con_st_scheme) outcome" where
  "con_put c s = Ret () (console_putchar c s)"

definition cprint_uint ::
  "u64 \<Rightarrow> u64 \<Rightarrow> int \<Rightarrow> int \<Rightarrow> u32 \<Rightarrow> bool \<Rightarrow> 'z con_st_scheme \<Rightarrow> (unit, 'z con_st_scheme) outcome" where
  "cprint_uint = print_uint con_put"

definition cprint_int ::
  "u64 \<Rightarrow> int \<Rightarrow> int \<Rightarrow> u32 \<Rightarrow> 'z con_st_scheme \<Rightarrow> (unit, 'z con_st_scheme) outcome" where
  "cprint_int = print_int con_put"

definition cvprintf :: "string \<Rightarrow> varg list \<Rightarrow> 'z con_st_scheme \<Rightarrow> (unit, 'z con_st_scheme) outcome" where
  "cvprintf fmt args s = vprintf con_put fmt args s"

definition cprintf :: "string \<Rightarrow> varg list \<Rightarrow> 'z con_st_scheme \<Rightarrow> (unit, 'z con_st_scheme) outcome" where
  "cprintf fmt args s = cvprintf fmt args s"

section \<open>The abstract terminal\<close>

text \<open>A terminal: cells row by row, a cursor, and the current colours.\<close>

type_synonym cell = "char \<times> u32 \<times> u32"

record terminal =
  t_cells :: "cell list"
  t_x :: nat
  t_y :: nat
  t_cols :: nat
  t_rows :: nat
  t_fg :: u32
  t_bg :: u32

definition term_blank :: "terminal \<Rightarrow> cell" where
  "term_blank t = (CHR '' '', t_fg t, t_bg t)"

definition term_newline :: "terminal \<Rightarrow> terminal" where
  "term_newline t =
     (if Suc (t_y t) < t_rows t then t\<lparr>t_y := Suc (t_y t)\<rparr>
      else t\<lparr>t_cells := drop (t_cols t) (t_cells t) @ replicate (t_cols t) (term_blank t)\<rparr>)"

definition term_putchar :: "char \<Rightarrow> terminal \<Rightarrow> terminal" where
  "term_putchar c t =
     (if c = CHR 0x0A then term_newline (t\<lparr>t_x := 0\<rparr>)
      else if c = CHR 0x0D then t\<lparr>t_x := 0\<rparr>
      else if c = CHR 0x08 then t\<lparr>t_x := t_x t - 1\<rparr>
      else let t = t\<lparr>t_cells := (t_cells t)[t_y t * t_cols t + t_x t := (c, t_fg t, t_bg t)]\<rparr>
           in if Suc (t_x t) < t_cols t then t\<lparr>t_x := Suc (t_x t)\<rparr> else term_newline (t\<lparr>t_x := 0\<rparr>))"

definition cell_at :: "memory \<Rightarrow> u64 \<Rightarrow> nat \<Rightarrow> cell" where
  "cell_at m buf i = (let a = buf + of_nat (12 * i)
     in (char_of (unat (load8 m a)), load32 m (a + 4), load32 m (a + 8)))"

definition con_cells :: "'z con_st_scheme \<Rightarrow> nat" where
  "con_cells s = unat (cols s) * unat (rows s)"

definition con_abs :: "'z con_st_scheme \<Rightarrow> terminal" where
  "con_abs s = \<lparr>t_cells = map (cell_at (mem s) (con_buffer s)) [0..<con_cells s], t_x = unat (cursor_x s), t_y = unat (cursor_y s),
     t_cols = unat (cols s), t_rows = unat (rows s), t_fg = fg_color s, t_bg = bg_color s\<rparr>"

text \<open>The buffer's bytes, and the well-formedness that \<open>console_init\<close> sets up.\<close>

definition con_bytes :: "'z con_st_scheme \<Rightarrow> u64 set" where
  "con_bytes s = region (con_buffer s) (12 * con_cells s)"

definition con_ok :: "'z con_st_scheme \<Rightarrow> bool" where
  "con_ok s \<longleftrightarrow> font_ok s \<and> font_glyphs s \<noteq> 0 \<and> con_buffer s \<noteq> 0 \<and>
     0 < cols s \<and> 0 < rows s \<and> con_cells s < 2 ^ 32 \<and> unat (con_buffer s) + 12 * con_cells s \<le> 2 ^ 64 \<and>
     char_w s = font_width s \<and> char_h s = font_height s \<and>
     unat (cols s) * unat (char_w s) \<le> unat (fb_width s) \<and> unat (rows s) * unat (char_h s) \<le> unat (fb_height s) \<and>
     con_bytes s \<inter> region (fb_addr s) (fb_size s) = {} \<and>
     (\<forall>c row col. row < font_height s \<longrightarrow> col < font_width s \<longrightarrow> glyph_byte_addr c row col s \<notin> con_bytes s) \<and>
     cursor_x s < cols s \<and> cursor_y s < rows s"

text \<open>The screen shows the cells: every pixel of every cell has the colour its glyph bit selects.\<close>

definition cell_shown :: "'z con_st_scheme \<Rightarrow> nat \<Rightarrow> nat \<Rightarrow> cell \<Rightarrow> bool" where
  "cell_shown s cx cy cc \<longleftrightarrow> (\<forall>col row. col < char_w s \<longrightarrow> row < char_h s \<longrightarrow>
     pixel_at s (of_nat cx * char_w s + col) (of_nat cy * char_h s + row)
       = (if glyph_bit (fst cc) row col s then fst (snd cc) else snd (snd cc)) AND 0xFFFFFF)"

definition con_shown :: "'z con_st_scheme \<Rightarrow> bool" where
  "con_shown s \<longleftrightarrow> (\<forall>cx cy. cx < unat (cols s) \<longrightarrow> cy < unat (rows s) \<longrightarrow>
     cell_shown s cx cy (cell_at (mem s) (con_buffer s) (cy * unat (cols s) + cx)))"

end
