(* ===== verification/Console_Spec.thy ===== *)
theory Console_Spec
  imports Console
begin

text \<open>
  The console against its specification: \<open>console_putchar\<close> refines the terminal of theory Console on the cells in
  memory, and keeps the screen equal to the cells. The module's output function is then a second instance of
  the formatter's interface \<open>char_sink\<close>, so \<open>cvprintf\<close> writes the reference text to the terminal.
\<close>

section \<open>Geometry\<close>

definition con_geo :: "'z con_st_scheme \<Rightarrow> bool" where
  "con_geo s \<longleftrightarrow> font_ok s \<and> font_glyphs s \<noteq> 0 \<and> con_buffer s \<noteq> 0 \<and>
     0 < cols s \<and> 0 < rows s \<and> con_cells s < 2 ^ 32 \<and> unat (con_buffer s) + 12 * con_cells s \<le> 2 ^ 64 \<and>
     char_w s = font_width s \<and> char_h s = font_height s \<and>
     unat (cols s) * unat (char_w s) \<le> unat (fb_width s) \<and> unat (rows s) * unat (char_h s) \<le> unat (fb_height s) \<and>
     con_bytes s \<inter> region (fb_addr s) (fb_size s) = {} \<and>
     (\<forall>c row col. row < font_height s \<longrightarrow> col < font_width s \<longrightarrow> glyph_byte_addr c row col s \<notin> con_bytes s)"

lemma con_ok_geo: "con_ok s \<longleftrightarrow> con_geo s \<and> cursor_x s < cols s \<and> cursor_y s < rows s"
  by (auto simp: con_ok_def con_geo_def)

text \<open>\<open>con_step s t\<close>: only the cells, the screen and the cursor differ.\<close>

definition con_step :: "'z con_st_scheme \<Rightarrow> 'z con_st_scheme \<Rightarrow> bool" where
  "con_step s t \<longleftrightarrow> t = s\<lparr>mem := mem t, cursor_x := cursor_x t, cursor_y := cursor_y t\<rparr> \<and>
     (\<forall>x. x \<notin> con_bytes s \<union> region (fb_addr s) (fb_size s) \<longrightarrow> mem t x = mem s x)"

lemma con_step_refl: "con_step s s"
  by (simp add: con_step_def)

lemma con_step_sel:
  assumes "con_step s t"
  shows "cols t = cols s" "rows t = rows s" "char_w t = char_w s" "char_h t = char_h s" "con_buffer t = con_buffer s"
    "fg_color t = fg_color s" "bg_color t = bg_color s" "font_glyphs t = font_glyphs s" "font_width t = font_width s"
    "font_height t = font_height s" "font_glyph_size t = font_glyph_size s" "fb_addr t = fb_addr s" "fb_width t = fb_width s"
    "fb_height t = fb_height s" "fb_pitch t = fb_pitch s" "fb_bpp t = fb_bpp s" "con_initialized t = con_initialized s"
proof -
  have e: "t = s\<lparr>mem := mem t, cursor_x := cursor_x t, cursor_y := cursor_y t\<rparr>" using assms by (simp add: con_step_def)
  show "cols t = cols s" "rows t = rows s" "char_w t = char_w s" "char_h t = char_h s" "con_buffer t = con_buffer s"
    "fg_color t = fg_color s" "bg_color t = bg_color s" "font_glyphs t = font_glyphs s" "font_width t = font_width s"
    "font_height t = font_height s" "font_glyph_size t = font_glyph_size s" "fb_addr t = fb_addr s" "fb_width t = fb_width s"
    "fb_height t = fb_height s" "fb_pitch t = fb_pitch s" "fb_bpp t = fb_bpp s" "con_initialized t = con_initialized s"
    by (subst e, simp)+
qed

lemma con_step_derived:
  assumes "con_step s t"
  shows "con_bytes t = con_bytes s" "fb_size t = fb_size s" "con_cells t = con_cells s" "fb_ok t = fb_ok s"
    "glyph_byte_addr c row col t = glyph_byte_addr c row col s" "con_geo t = con_geo s"
proof -
  note e = con_step_sel [OF assms]
  show 1: "con_bytes t = con_bytes s" "fb_size t = fb_size s" "con_cells t = con_cells s" "fb_ok t = fb_ok s"
    by (simp_all add: con_bytes_def con_cells_def fb_size_def fb_ok_def fb_bytes_def e)
  have g: "glyph_byte_addr c row col t = glyph_byte_addr c row col s" for c row col by (simp add: glyph_byte_addr_def e)
  show "glyph_byte_addr c row col t = glyph_byte_addr c row col s" by (rule g)
  show "con_geo t = con_geo s" by (simp add: con_geo_def font_ok_def e 1 g)
qed

lemma con_step_trans:
  assumes "con_step s t" and "con_step t u"
  shows "con_step s u"
proof -
  have "u = t\<lparr>mem := mem u, cursor_x := cursor_x u, cursor_y := cursor_y u\<rparr>" using assms(2) by (simp add: con_step_def)
  also have "t = s\<lparr>mem := mem t, cursor_x := cursor_x t, cursor_y := cursor_y t\<rparr>" using assms(1) by (simp add: con_step_def)
  finally have "u = s\<lparr>mem := mem u, cursor_x := cursor_x u, cursor_y := cursor_y u\<rparr>" by simp
  then show ?thesis
    using assms con_step_sel(12) [OF assms(1)] con_step_derived(1,2) [OF assms(1)] by (simp add: con_step_def)
qed

lemma con_step_cursor [simp]: "con_step s (t\<lparr>cursor_x := x\<rparr>) = con_step s t" "con_step s (t\<lparr>cursor_y := y\<rparr>) = con_step s t"
proof -
  show "con_step s (t\<lparr>cursor_x := x\<rparr>) = con_step s t"
    unfolding con_step_def by (cases s; cases t) (simp add: con_st.defs)
  show "con_step s (t\<lparr>cursor_y := y\<rparr>) = con_step s t"
    unfolding con_step_def by (cases s; cases t) (simp add: con_st.defs)
qed

lemma glyph_bit_step:
  assumes "con_step s t" and "con_geo s" and "row < font_height s" and "col < font_width s"
  shows "glyph_bit c row col t = glyph_bit c row col s"
  using assms by (simp add: glyph_bit_def con_step_derived [OF assms(1)] con_geo_def font_ok_def) (simp add: con_step_def)

lemma off_screen_eqD:
  assumes "off_screen t = off_screen s"
  shows "t = s\<lparr>mem := mem t\<rparr>"
proof -
  have "t = (off_screen t)\<lparr>mem := mem t\<rparr>" by (simp add: off_screen_def)
  also have "\<dots> = s\<lparr>mem := mem t\<rparr>" unfolding assms by (simp add: off_screen_def)
  finally show ?thesis .
qed

lemma off_screen_con_step:
  fixes s t :: "'z con_st_scheme"
  assumes "off_screen t = off_screen s"
  shows "con_step s t"
proof -
  note e = off_screen_eqD [OF assms]
  have "cursor_x t = cursor_x s" "cursor_y t = cursor_y s" by (subst e, simp)+
  then have "t = s\<lparr>mem := mem t, cursor_x := cursor_x t, cursor_y := cursor_y t\<rparr>" using e by simp
  then show ?thesis using off_screen_mem [OF assms] by (simp add: con_step_def)
qed

section \<open>Cells\<close>

lemma cell_addr_nat: "cell_addr i s = con_buffer s + of_nat (12 * unat i)"
  by (simp add: cell_addr_def sizeof_cell_def)

text \<open>A cell is its twelve bytes.\<close>

lemma load_cong: "(\<And>k. k < n \<Longrightarrow> m' (a + of_nat k) = m (a + of_nat k)) \<Longrightarrow> load n m' a = load n m a"
  by (auto simp: load_def read_bytes_def intro!: arg_cong [where f = le_nat])

lemma cell_at_cong:
  assumes "\<And>k. k < 12 \<Longrightarrow> m' (b' + of_nat (12 * j + k)) = m (b + of_nat (12 * i + k))"
  shows "cell_at m' b' j = cell_at m b i"
proof -
  have l: "load n m' (b' + of_nat (12 * j) + of_nat d) = load n m (b + of_nat (12 * i) + of_nat d)" if "d + n \<le> 12" for d n
  proof -
    have "m' (b' + of_nat (12 * j) + of_nat d + of_nat k) = m (b + of_nat (12 * i) + of_nat d + of_nat k)" if "k < n" for k
      using assms [of "d + k"] that \<open>d + n \<le> 12\<close> by (simp add: algebra_simps)
    then show ?thesis unfolding load_def read_bytes_def by (intro arg_cong [where f = le_nat] map_cong) auto
  qed
  show ?thesis
    using l [of 4 4] l [of 8 4] assms [of 0] by (simp add: cell_at_def Let_def load32_def load8_def)
qed

lemma region_offset: "n \<le> 2 ^ 64 \<Longrightarrow> x \<in> region a n \<longleftrightarrow> (\<exists>k<n. x = a + of_nat k)"
proof -
  assume n: "n \<le> 2 ^ 64"
  have "x = a + of_nat (unat (x - a))" by simp
  then show ?thesis using region_elem [of _ n a] n by (auto simp: region_iff)
qed

definition cells_fit :: "u64 \<Rightarrow> nat \<Rightarrow> bool" where
  "cells_fit b n \<longleftrightarrow> unat b + 12 * n \<le> 2 ^ 64"

lemma cell_byte_eq:
  assumes "cells_fit b n" and "i < n" "j < n" "k < 12" "l < 12"
  shows "b + of_nat (12 * i + k) = b + of_nat (12 * j + l) \<longleftrightarrow> i = j \<and> k = l"
proof
  assume e: "b + of_nat (12 * i + k) = b + of_nat (12 * j + l)"
  have lt: "12 * i + k < 2 ^ 64" "12 * j + l < 2 ^ 64" using assms by (simp_all add: cells_fit_def)
  have "(of_nat (12 * i + k) :: u64) = of_nat (12 * j + l)" using e by (simp only: add_left_cancel)
  then have "12 * i + k = 12 * j + l" using unat_of_nat_less [OF lt(1)] unat_of_nat_less [OF lt(2)] by metis
  then have "(12 * i + k) div 12 = (12 * j + l) div 12" by simp
  then have "i = j" using assms(4,5) by simp
  then show "i = j \<and> k = l" using \<open>12 * i + k = 12 * j + l\<close> by simp
qed simp

lemma store8_elsewhere: "x \<noteq> a \<Longrightarrow> store8 m a v x = m x"
  by (simp add: store8_def)

lemma store32_elsewhere: "(\<And>k. k < 4 \<Longrightarrow> x \<noteq> a + of_nat k) \<Longrightarrow> store32 m a v x = m x"
  using region_offset [of 4 x a] by (auto simp: store32_def store_def write_bytes_def region_iff)

definition put_cell :: "u64 \<Rightarrow> nat \<Rightarrow> cell \<Rightarrow> memory \<Rightarrow> memory" where
  "put_cell b i cc m = (let a = b + of_nat (12 * i)
     in store32 (store32 (store8 m a (of_char (fst cc))) (a + 4) (fst (snd cc))) (a + 8) (snd (snd cc)))"

lemma set_cell_put: "set_cell i c fg bg s = s\<lparr>mem := put_cell (con_buffer s) (unat i) (c, fg, bg) (mem s)\<rparr>"
  by (simp add: set_cell_def put_cell_def cell_addr_nat Let_def)

lemma put_cell_elsewhere:
  assumes "\<And>k. k < 12 \<Longrightarrow> x \<noteq> b + of_nat (12 * i + k)"
  shows "put_cell b i cc m x = m x"
proof -
  have 0: "x \<noteq> b + of_nat (12 * i)" using assms [of 0] by simp
  have 4: "x \<noteq> b + of_nat (12 * i) + 4 + of_nat k" if "k < 4" for k using assms [of "4 + k"] that by (simp add: algebra_simps)
  have 8: "x \<noteq> b + of_nat (12 * i) + 8 + of_nat k" if "k < 4" for k using assms [of "8 + k"] that by (simp add: algebra_simps)
  show ?thesis
    unfolding put_cell_def Let_def
    using store8_elsewhere [OF 0] store32_elsewhere [OF 4] store32_elsewhere [OF 8] by simp
qed

lemma char_byte: "char_of (unat (of_char c :: u8)) = c"
proof -
  have "unat (of_char c :: u8) = unat (of_nat (of_char c) :: u8)" by (simp only: of_nat_of_char)
  also have "\<dots> = of_char c" by (simp add: unat_of_nat)
  finally show ?thesis by simp
qed

lemma offsets_separate: "d + n \<le> e \<Longrightarrow> e + k \<le> 4096 \<Longrightarrow> 0 < n \<Longrightarrow> 0 < k \<Longrightarrow>
    separate (a + of_nat d) n (a + of_nat e) k" for a :: u64
proof -
  assume h: "d + n \<le> e" "e + k \<le> 4096" "0 < n" "0 < k"
  have q: "a + of_nat e - (a + of_nat d) = of_nat (e - d)" using h by (simp add: of_nat_diff)
  have 1: "unat (a + of_nat e - (a + of_nat d)) = e - d" unfolding q using h by (subst unat_of_nat) simp
  have "a + of_nat d \<noteq> a + of_nat e" using 1 h by auto
  then have "unat (a + of_nat d - (a + of_nat e)) = 2 ^ 64 - (e - d)" using 1 unat_minus_swap by metis
  moreover have "k \<le> 2 ^ 64 - (e - d)" "n \<le> e - d" using h by auto
  ultimately show ?thesis using 1 by (simp only: separate_def)
qed

lemma cell_at_put_same: "cell_at (put_cell b i cc m) b i = cc"
proof -
  let ?a = "b + of_nat (12 * i)"
  have s48: "separate (?a + 4) 4 (?a + 8) 4" using offsets_separate [of 4 4 8 4 ?a] by simp
  have ne: "?a \<notin> region (?a + 4) 4" "?a \<notin> region (?a + 8) 4" by (simp_all add: region_iff)
  have l4: "load32 (put_cell b i cc m) (?a + 4) = fst (snd cc)"
    unfolding put_cell_def Let_def load32_def using s48
    by (subst store32_def [of _ "?a + 8"], subst load_store_separate) (simp_all flip: load32_def)
  have l8: "load32 (put_cell b i cc m) (?a + 8) = snd (snd cc)" by (simp add: put_cell_def Let_def)
  have l0: "load8 (put_cell b i cc m) ?a = of_char (fst cc)"
    using ne by (simp add: put_cell_def Let_def load8_def store32_def store_def write_bytes_def store8_def region_iff)
  show ?thesis by (simp add: cell_at_def Let_def l4 l8 l0 char_byte del: of_nat_mult)
qed

lemma cell_at_put_other:
  assumes "cells_fit b n" and "i < n" "j < n" "j \<noteq> i"
  shows "cell_at (put_cell b i cc m) b j = cell_at m b j"
  using cell_byte_eq [OF assms(1)] assms by (intro cell_at_cong put_cell_elsewhere) blast

lemma cells_put:
  assumes "cells_fit b n" and "i < n"
  shows "map (cell_at (put_cell b i cc m) b) [0..<n] = (map (cell_at m b) [0..<n])[i := cc]"
  using cell_at_put_other [OF assms] cell_at_put_same assms(2)
  by (intro nth_equalityI) (auto simp: nth_list_update)

text \<open>Scrolling moves the cells of all rows but the first up by one row.\<close>

lemma cell_at_moved:
  assumes "cells_fit b n" and "c + r = n" and "j < n"
  shows "cell_at (moved b (b + of_nat (12 * c)) (12 * r) m) b j = (if j < r then cell_at m b (j + c) else cell_at m b j)"
proof -
  have u: "unat (b + of_nat (12 * j + k) - b) = 12 * j + k" if "k < 12" for k
    using assms that by (intro unat_off) (simp add: cells_fit_def)
  show ?thesis
  proof (cases "j < r")
    case True
    have "moved b (b + of_nat (12 * c)) (12 * r) m (b + of_nat (12 * j + k)) = m (b + of_nat (12 * (j + c) + k))" if "k < 12" for k
      using u [OF that] True that unfolding moved_def by (simp add: algebra_simps)
    then have "cell_at (moved b (b + of_nat (12 * c)) (12 * r) m) b j = cell_at m b (j + c)" by (rule cell_at_cong)
    then show ?thesis using True by simp
  next
    case False
    have "moved b (b + of_nat (12 * c)) (12 * r) m (b + of_nat (12 * j + k)) = m (b + of_nat (12 * j + k))" if "k < 12" for k
      using u [OF that] False that unfolding moved_def by (simp add: algebra_simps)
    then have "cell_at (moved b (b + of_nat (12 * c)) (12 * r) m) b j = cell_at m b j" by (rule cell_at_cong)
    then show ?thesis using False by simp
  qed
qed

section \<open>Drawing a cell\<close>

lemma cell_pos:
  fixes w :: u32
  assumes "n * unat w \<le> unat lim" and "b < n" and "col < w"
  shows "unat (of_nat b * w + col) = b * unat w + unat col" and "of_nat b * w + col < (lim :: u32)"
proof -
  have "b * unat w + unat w \<le> n * unat w" using mult_le_mono1 [of "Suc b" n "unat w"] assms(2) by simp
  then have lt: "b * unat w + unat col < unat lim" using assms(1,3) by (simp add: word_less_nat_alt)
  have "of_nat b * w + col = of_nat (b * unat w + unat col)" by simp
  also have "unat \<dots> = b * unat w + unat col"
    using lt unat32_bound [of lim] by (subst unat_of_nat) (simp del: of_nat_add of_nat_mult)
  finally show u: "unat (of_nat b * w + col) = b * unat w + unat col" .
  show "of_nat b * w + col < lim" unfolding word_less_nat_alt u by (rule lt)
qed

lemma cell_box:
  fixes w lim :: u32
  assumes "n * unat w \<le> unat lim" and "a < n" and "b < n" and "col < w"
  shows "of_nat b * w + col - of_nat a * w < w \<longleftrightarrow> a = b"
proof
  assume h: "of_nat b * w + col - of_nat a * w < w"
  have w0: "0 < w" using assms(4) by (cases "w = 0") (auto simp: word_gt_0)
  have u: "unat (of_nat b * w + col) = b * unat w + unat col" using cell_pos(1) [OF assms(1,3,4)] .
  have v: "unat (of_nat a * w) = a * unat w" using cell_pos(1) [OF assms(1,2) w0] by simp
  have c: "unat col < unat w" using assms(4) by (simp add: word_less_nat_alt)
  show "a = b"
  proof (rule ccontr)
    assume "a \<noteq> b"
    then consider "b < a" | "a < b" by linarith
    then show False
    proof cases
      case 1
      have "Suc b * unat w \<le> a * unat w" using 1 by (intro mult_le_mono1) simp
      then have lt: "unat (of_nat b * w + col) < unat (of_nat a * w)" unfolding u v using c by simp
      have "a * unat w + unat w \<le> unat lim" using mult_le_mono1 [of "Suc a" n "unat w"] assms(1,2) by simp
      then have "a * unat w + unat w < 2 ^ 32" using unat32_bound [of lim] by simp
      moreover have "unat (of_nat b * w + col - of_nat a * w) = 2 ^ 32 + unat (of_nat b * w + col) - unat (of_nat a * w)"
        using lt by (simp add: unat_sub_if')
      ultimately show False using h unfolding word_less_nat_alt u v by linarith
    next
      case 2
      have "Suc a * unat w \<le> b * unat w" using 2 by (intro mult_le_mono1) simp
      then have "of_nat a * w \<le> of_nat b * w + col" unfolding word_le_nat_alt u v by simp
      then have "unat (of_nat b * w + col - of_nat a * w) = b * unat w + unat col - a * unat w"
        by (simp add: unat_sub u v)
      then show False using h \<open>Suc a * unat w \<le> b * unat w\<close> unfolding word_less_nat_alt by simp
    qed
  qed
next
  assume "a = b"
  then show "of_nat b * w + col - of_nat a * w < w" using assms(4) by simp
qed

lemma draw_cell:
  fixes s :: "'z con_st_scheme" and cc :: cell
  assumes "con_geo s" and "cx < unat (cols s)" and "cy < unat (rows s)"
  defines "t \<equiv> font_draw_char (fst cc) (of_nat cx * char_w s) (of_nat cy * char_h s) (fst (snd cc)) (snd (snd cc)) s"
  shows "off_screen t = off_screen s" and "cell_shown t cx cy cc"
    and "cx' < unat (cols s) \<Longrightarrow> cy' < unat (rows s) \<Longrightarrow> (cx', cy') \<noteq> (cx, cy) \<Longrightarrow> cell_shown t cx' cy' d = cell_shown s cx' cy' d"
proof -
  have fo: "font_ok s" "font_glyphs s \<noteq> 0" and cw: "char_w s = font_width s" "char_h s = font_height s"
    and bw: "unat (cols s) * unat (char_w s) \<le> unat (fb_width s)" and bh: "unat (rows s) * unat (char_h s) \<le> unat (fb_height s)"
    using assms(1) unfolding con_geo_def by blast+
  have p: "screen.painted s (\<lambda>px py. py - of_nat cy * char_h s < font_height s \<and> px - of_nat cx * char_w s < font_width s)
    (\<lambda>px py. if glyph_bit (fst cc) (py - of_nat cy * char_h s) (px - of_nat cx * char_w s) s then fst (snd cc) else snd (snd cc)) t"
    unfolding t_def by (rule font_draw_char_painted [OF fo])
  then show off: "off_screen t = off_screen s" by (simp add: screen.painted_def)
  have st: "con_step s t" using off by (rule off_screen_con_step)
  note sel = con_step_sel [OF st]
  have pix: "pixel_at t x y = (if y - of_nat cy * char_h s < char_h s \<and> x - of_nat cx * char_w s < char_w s
      then (if glyph_bit (fst cc) (y - of_nat cy * char_h s) (x - of_nat cx * char_w s) s then fst (snd cc) else snd (snd cc)) AND 0xFFFFFF
      else pixel_at s x y)" if "x < fb_width s" "y < fb_height s" for x y
    using p that by (simp add: screen.painted_def cw)
  have gb: "glyph_bit ch row col t = glyph_bit ch row col s" if "row < char_h s" "col < char_w s" for ch row col
    using glyph_bit_step [OF st assms(1)] that by (simp add: cw)
  show "cell_shown t cx cy cc"
    unfolding cell_shown_def sel
  proof (intro allI impI)
    fix col row assume c: "col < char_w s" "row < char_h s"
    show "pixel_at t (of_nat cx * char_w s + col) (of_nat cy * char_h s + row)
      = (if glyph_bit (fst cc) row col t then fst (snd cc) else snd (snd cc)) AND 0xFFFFFF"
      using pix [OF cell_pos(2) [OF bw assms(2) c(1)] cell_pos(2) [OF bh assms(3) c(2)]] c gb by simp
  qed
  assume c': "cx' < unat (cols s)" "cy' < unat (rows s)" "(cx', cy') \<noteq> (cx, cy)"
  have "pixel_at t (of_nat cx' * char_w s + col) (of_nat cy' * char_h s + row)
      = pixel_at s (of_nat cx' * char_w s + col) (of_nat cy' * char_h s + row)" if c: "col < char_w s" "row < char_h s" for col row
    using pix [OF cell_pos(2) [OF bw c'(1) c(1)] cell_pos(2) [OF bh c'(2) c(2)]]
      cell_box [OF bw assms(2) c'(1) c(1)] cell_box [OF bh assms(3) c'(2) c(2)] c'(3) by auto
  then show "cell_shown t cx' cy' d = cell_shown s cx' cy' d"
    unfolding cell_shown_def sel using gb by simp
qed

lemma cell_index:
  assumes "con_cells s < 2 ^ 32" and "cx < unat (cols s)" and "cy < unat (rows s)"
  shows "cy * unat (cols s) + cx < con_cells s" and "unat (of_nat cy * cols s + of_nat cx) = cy * unat (cols s) + cx"
proof -
  have "Suc cy * unat (cols s) \<le> unat (rows s) * unat (cols s)" using assms(3) by (intro mult_le_mono1) simp
  then show lt: "cy * unat (cols s) + cx < con_cells s" using assms(2) by (simp add: con_cells_def mult.commute)
  have "of_nat cy * cols s + of_nat cx = of_nat (cy * unat (cols s) + cx)" by simp
  also have "unat \<dots> = cy * unat (cols s) + cx" using lt assms(1) by (subst unat_of_nat) (simp del: of_nat_add of_nat_mult)
  finally show "unat (of_nat cy * cols s + of_nat cx) = cy * unat (cols s) + cx" .
qed

lemma cells_off_screen:
  assumes "con_geo s" and "off_screen t = off_screen s" and "i < con_cells s"
  shows "cell_at (mem t) (con_buffer s) i = cell_at (mem s) (con_buffer s) i"
proof (rule cell_at_cong)
  fix k :: nat assume k: "k < 12"
  have "12 * con_cells s \<le> 2 ^ 64" using assms(1) by (simp add: con_geo_def)
  then have "con_buffer s + of_nat (12 * i + k) \<in> con_bytes s"
    unfolding con_bytes_def using k assms(3) by (intro region_elem) auto
  then have "con_buffer s + of_nat (12 * i + k) \<notin> region (fb_addr s) (fb_size s)" using assms(1) by (auto simp: con_geo_def)
  then show "mem t (con_buffer s + of_nat (12 * i + k)) = mem s (con_buffer s + of_nat (12 * i + k))"
    by (rule off_screen_mem [OF assms(2)])
qed

lemma redraw_body:
  assumes "con_geo t" and "cx < unat (cols t)" and "cy < unat (rows t)"
  shows "(let a = cell_addr (of_nat cy * cols t + of_nat cx) t
     in font_draw_char (char_of (unat (load8 (mem t) a))) (of_nat cx * char_w t) (of_nat cy * char_h t)
          (load32 (mem t) (a + 4)) (load32 (mem t) (a + 8)) t)
    = (let cc = cell_at (mem t) (con_buffer t) (cy * unat (cols t) + cx)
       in font_draw_char (fst cc) (of_nat cx * char_w t) (of_nat cy * char_h t) (fst (snd cc)) (snd (snd cc)) t)"
proof -
  have "con_cells t < 2 ^ 32" using assms(1) by (simp add: con_geo_def)
  note u = cell_index(2) [OF this assms(2,3)]
  show ?thesis by (simp only: cell_addr_nat u cell_at_def Let_def fst_conv snd_conv)
qed

definition rows_shown :: "'z con_st_scheme \<Rightarrow> nat \<Rightarrow> nat \<Rightarrow> 'z con_st_scheme \<Rightarrow> bool" where
  "rows_shown s j i t \<longleftrightarrow> off_screen t = off_screen s \<and>
     (\<forall>cx cy. cx < unat (cols s) \<longrightarrow> cy < unat (rows s) \<longrightarrow> cy < j \<or> cy = j \<and> cx < i \<longrightarrow>
        cell_shown t cx cy (cell_at (mem s) (con_buffer s) (cy * unat (cols s) + cx)))"

lemma rows_shown_step:
  assumes "con_geo s" and "rows_shown s j i t" and "i < unat (cols s)" and "j < unat (rows s)"
  shows "rows_shown s j (Suc i) (let a = cell_addr (of_nat j * cols t + of_nat i) t
     in font_draw_char (char_of (unat (load8 (mem t) a))) (of_nat i * char_w t) (of_nat j * char_h t)
          (load32 (mem t) (a + 4)) (load32 (mem t) (a + 8)) t)" (is "rows_shown s j (Suc i) ?u")
proof -
  have off: "off_screen t = off_screen s" using assms(2) by (simp add: rows_shown_def)
  have st: "con_step s t" using off by (rule off_screen_con_step)
  note sel = con_step_sel [OF st]
  have geo: "con_geo t" using con_step_derived(6) [OF st] assms(1) by simp
  have ij: "i < unat (cols t)" "j < unat (rows t)" using assms(3,4) sel by simp_all
  let ?cc = "cell_at (mem s) (con_buffer s) (j * unat (cols s) + i)"
  have "con_cells s < 2 ^ 32" using assms(1) by (simp add: con_geo_def)
  note ix = cell_index(1) [OF this assms(3,4)]
  have cc: "cell_at (mem t) (con_buffer t) (j * unat (cols t) + i) = ?cc"
    using cells_off_screen [OF assms(1) off ix] sel by simp
  have u: "?u = font_draw_char (fst ?cc) (of_nat i * char_w t) (of_nat j * char_h t) (fst (snd ?cc)) (snd (snd ?cc)) t"
    using redraw_body [OF geo ij] unfolding cc by (simp only: Let_def)
  note d = draw_cell [OF geo ij, where cc = ?cc, folded u]
  show ?thesis
    unfolding rows_shown_def
  proof (intro conjI allI impI)
    show "off_screen ?u = off_screen s" using d(1) off by simp
    fix cx cy assume c: "cx < unat (cols s)" "cy < unat (rows s)" "cy < j \<or> cy = j \<and> cx < Suc i"
    show "cell_shown ?u cx cy (cell_at (mem s) (con_buffer s) (cy * unat (cols s) + cx))"
    proof (cases "(cx, cy) = (i, j)")
      case True
      then show ?thesis using d(2) by simp
    next
      case False
      then have "cy < j \<or> cy = j \<and> cx < i" using c(3) by auto
      then have "cell_shown t cx cy (cell_at (mem s) (con_buffer s) (cy * unat (cols s) + cx))"
        using assms(2) c(1,2) unfolding rows_shown_def by blast
      then show ?thesis using d(3) [of cx cy] False c(1,2) sel by simp
    qed
  qed
qed

lemma redraw_all_shows:
  assumes "con_geo s"
  shows "off_screen (redraw_all s) = off_screen s" and "con_shown (redraw_all s)"
proof -
  let ?body = "\<lambda>y x s. let a = cell_addr (y * cols s + x) s
       in font_draw_char (char_of (unat (load8 (mem s) a))) (x * char_w s) (y * char_h s)
            (load32 (mem s) (a + 4)) (load32 (mem s) (a + 8)) s"
  have row: "rows_shown s j (unat (cols s)) (for_word 0 (cols t) (?body (of_nat j)) t)"
    if t: "rows_shown s j 0 t" and j: "j < unat (rows s)" for j t
  proof -
    have "cols t = cols s" using t con_step_sel(1) [OF off_screen_con_step] by (auto simp: rows_shown_def)
    moreover have "rows_shown s j (unat (cols s)) (for_word 0 (cols s) (?body (of_nat j)) t)"
      by (rule for_word_rule [where P = "\<lambda>i t. rows_shown s j i t"]) (use t j rows_shown_step [OF assms] in auto)
    ultimately show ?thesis by simp
  qed
  have "rows_shown s (unat (rows s)) 0 (redraw_all s)"
    unfolding redraw_all_def
  proof (rule for_word_rule [where P = "\<lambda>j t. rows_shown s j 0 t"])
    show "rows_shown s (unat (0 :: u32)) 0 s" by (simp add: rows_shown_def)
    fix j t assume "rows_shown s j 0 t" "unat (0 :: u32) \<le> j" "j < unat (rows s)"
    then have "rows_shown s j (unat (cols s)) (for_word 0 (cols t) (?body (of_nat j)) t)" using row by blast
    then show "rows_shown s (Suc j) 0 (for_word 0 (cols t) (?body (of_nat j)) t)"
      by (auto simp: rows_shown_def less_Suc_eq)
  qed simp
  then have r: "off_screen (redraw_all s) = off_screen s" "\<And>cx cy. cx < unat (cols s) \<Longrightarrow> cy < unat (rows s) \<Longrightarrow>
      cell_shown (redraw_all s) cx cy (cell_at (mem s) (con_buffer s) (cy * unat (cols s) + cx))"
    by (simp_all add: rows_shown_def)
  then show "off_screen (redraw_all s) = off_screen s" by simp
  note sel = con_step_sel [OF off_screen_con_step [OF r(1)]]
  have "con_cells s < 2 ^ 32" using assms by (simp add: con_geo_def)
  note ix = cell_index(1) [OF this]
  show "con_shown (redraw_all s)"
    unfolding con_shown_def sel by (intro allI impI) (simp only: cells_off_screen [OF assms r(1) ix] r(2))
qed

section \<open>Scrolling\<close>

abbreviation cells_of :: "'z con_st_scheme \<Rightarrow> cell list" where
  "cells_of s \<equiv> map (cell_at (mem s) (con_buffer s)) [0..<con_cells s]"

lemma geo_fit: "con_geo s \<Longrightarrow> cells_fit (con_buffer s) (con_cells s)"
  by (simp add: con_geo_def cells_fit_def)

lemma con_step_mem:
  assumes "\<And>x. x \<notin> con_bytes s \<Longrightarrow> m x = mem s x"
  shows "con_step s (s\<lparr>mem := m\<rparr>)"
  using assms by (simp add: con_step_def)

lemma in_con_bytes:
  assumes "con_geo s" and "i < con_cells s" and "k < 12"
  shows "con_buffer s + of_nat (12 * i + k) \<in> con_bytes s"
proof -
  have "12 * con_cells s \<le> 2 ^ 64" using geo_fit [OF assms(1)] by (simp add: cells_fit_def)
  then show ?thesis unfolding con_bytes_def using assms(2,3) by (intro region_elem) auto
qed

lemma set_cell_ok:
  assumes "con_geo s" and "unat i < con_cells s"
  shows "con_step s (set_cell i c fg bg s)" and "cells_of (set_cell i c fg bg s) = (cells_of s)[unat i := (c, fg, bg)]"
    and "cursor_x (set_cell i c fg bg s) = cursor_x s" and "cursor_y (set_cell i c fg bg s) = cursor_y s"
    and "region (fb_addr s) (fb_size s) \<inter> con_bytes s = {} \<Longrightarrow> x \<in> region (fb_addr s) (fb_size s) \<Longrightarrow>
      mem (set_cell i c fg bg s) x = mem s x"
proof -
  have out: "put_cell (con_buffer s) (unat i) cc (mem s) x = mem s x" if "x \<notin> con_bytes s" for x cc
    using that in_con_bytes [OF assms] by (intro put_cell_elsewhere) blast
  show "con_step s (set_cell i c fg bg s)" unfolding set_cell_put using out by (rule con_step_mem)
  show "cells_of (set_cell i c fg bg s) = (cells_of s)[unat i := (c, fg, bg)]"
    unfolding set_cell_put using cells_put [OF geo_fit [OF assms(1)] assms(2)] by (simp add: con_cells_def)
  show "cursor_x (set_cell i c fg bg s) = cursor_x s" "cursor_y (set_cell i c fg bg s) = cursor_y s"
    by (simp_all add: set_cell_put)
  show "region (fb_addr s) (fb_size s) \<inter> con_bytes s = {} \<Longrightarrow> x \<in> region (fb_addr s) (fb_size s) \<Longrightarrow>
      mem (set_cell i c fg bg s) x = mem s x"
    unfolding set_cell_put by (simp, rule out) blast
qed

text \<open>The move: all rows but the first go up by one.\<close>

lemma scroll_move:
  assumes "con_geo s"
  defines "m \<equiv> memmove (con_buffer s) (con_buffer s + sizeof_cell * ucast (cols s)) (ucast ((rows s - 1) * cols s) * sizeof_cell) (mem s)"
  shows "con_step s (s\<lparr>mem := m\<rparr>)"
    and "j < con_cells s \<Longrightarrow> cell_at m (con_buffer s) j =
      cell_at (mem s) (con_buffer s) (if j < con_cells s - unat (cols s) then j + unat (cols s) else j)"
    and "unat ((rows s - 1) * cols s) = con_cells s - unat (cols s)" and "unat (cols s) \<le> con_cells s"
proof -
  let ?C = "unat (cols s)" and ?n = "con_cells s - unat (cols s)"
  have R: "1 \<le> unat (rows s)" using assms(1) by (simp add: con_geo_def word_less_nat_alt)
  have n32: "con_cells s < 2 ^ 32" using assms(1) by (simp add: con_geo_def)
  have nC: "?n = (unat (rows s) - 1) * ?C" unfolding con_cells_def by (metis diff_mult_distrib mult.commute nat_mult_1)
  show cle: "?C \<le> con_cells s" using R by (simp add: con_cells_def)
  have "unat (rows s - 1) = unat (rows s) - 1" using R by (subst unat_sub) (simp_all add: word_le_nat_alt)
  then show u32: "unat ((rows s - 1) * cols s) = ?n"
    using n32 nC by (simp add: unat_word_ariths)
  have fit: "cells_fit (con_buffer s) (con_cells s)" by (rule geo_fit [OF assms(1)])
  have n64: "unat (ucast ((rows s - 1) * cols s) * sizeof_cell) = 12 * ?n"
    using n32 u32 by (simp add: unat_word_ariths sizeof_cell_def unsigned_ucast_eq take_bit_nat_eq_self)
  have src: "con_buffer s + sizeof_cell * ucast (cols s) = con_buffer s + of_nat (12 * ?C)"
    by (simp add: sizeof_cell_def)
  have m: "m = moved (con_buffer s) (con_buffer s + of_nat (12 * ?C)) (12 * ?n) (mem s)"
  proof (cases "?n = 0")
    case True
    then have z: "ucast ((rows s - 1) * cols s) * sizeof_cell = (0 :: u64)" using n64 by (simp add: word_unat_eq_iff)
    show ?thesis unfolding m_def z True
      by (simp add: memmove_def for_word_empty memmove_down.simps [of _ _ 0] moved_def)
  next
    case False
    have "unat (con_buffer s) + 12 * ?C < 2 ^ 64" using fit False cle by (simp add: cells_fit_def)
    then have "unat (con_buffer s + of_nat (12 * ?C)) = unat (con_buffer s) + 12 * ?C"
      by (simp only: unat_word_ariths unat_of_nat) simp
    then have "fits (con_buffer s + of_nat (12 * ?C)) (12 * ?n)" "fits (con_buffer s) (12 * ?n)"
      using fit cle by (simp_all add: fits_def cells_fit_def)
    then show ?thesis unfolding m_def src using memmove_moved [of "con_buffer s" "ucast ((rows s - 1) * cols s) * sizeof_cell" "con_buffer s + of_nat (12 * ?C)" "mem s"]
      by (simp only: n64)
  qed
  have "m x = mem s x" if "x \<notin> con_bytes s" for x
  proof -
    have "12 * ?n \<le> 12 * con_cells s" by simp
    then have "\<not> unat (x - con_buffer s) < 12 * ?n" using that unfolding con_bytes_def region_iff by linarith
    then show ?thesis unfolding m moved_def by (simp only: if_False)
  qed
  then show "con_step s (s\<lparr>mem := m\<rparr>)" by (rule con_step_mem)
  show "cell_at m (con_buffer s) j = cell_at (mem s) (con_buffer s) (if j < ?n then j + ?C else j)" if "j < con_cells s"
    using cell_at_moved [OF fit, of ?C ?n j "mem s"] that cle unfolding m by simp
qed

lemma list_blank_tail:
  assumes "length xs = n" and "c \<le> n" and "\<And>j. j < n \<Longrightarrow> ys ! j = (if j < n - c then xs ! (j + c) else e)" and "length ys = n"
  shows "ys = drop c xs @ replicate c e"
  using assms by (intro nth_equalityI) (auto simp: nth_append add.commute)

lemma cells_of_nth: "i < con_cells s \<Longrightarrow> cells_of s ! i = cell_at (mem s) (con_buffer s) i"
  by simp

text \<open>Blanking the last row.\<close>

lemma blank_row:
  assumes "con_geo s" and "fg = fg_color s" and "bg = bg_color s"
  defines "t \<equiv> for_word 0 (cols s) (\<lambda>x s. set_cell ((rows s - 1) * cols s + x) (CHR '' '') (fg_color s) (bg_color s) s) s"
  shows "con_step s t" and "cursor_x t = cursor_x s" and "cursor_y t = cursor_y s"
    and "j < con_cells s \<Longrightarrow> cells_of t ! j = (if j < con_cells s - unat (cols s) then cells_of s ! j else (CHR '' '', fg, bg))"
proof -
  let ?C = "unat (cols s)" and ?n = "con_cells s - unat (cols s)"
  note mv = scroll_move(3,4) [OF assms(1)]
  have n32: "con_cells s < 2 ^ 32" using assms(1) by (simp add: con_geo_def)
  define P where "P k t \<longleftrightarrow> con_step s t \<and> cursor_x t = cursor_x s \<and> cursor_y t = cursor_y s \<and>
    (\<forall>j<con_cells s. cells_of t ! j = (if ?n \<le> j \<and> j < ?n + k then (CHR '' '', fg, bg) else cells_of s ! j))" for k t
  have "P (unat (cols s)) t"
    unfolding t_def
  proof (rule for_word_rule)
    show "P (unat (0 :: u32)) s" by (auto simp: P_def con_step_refl)
    fix k u assume u: "P k u" and k: "k < unat (cols s)"
    have st: "con_step s u" using u by (simp add: P_def)
    note sel = con_step_sel [OF st]
    have N: "con_cells u = con_cells s" using con_step_derived(3) [OF st] .
    have geo: "con_geo u" using con_step_derived(6) [OF st] assms(1) by simp
    let ?i = "(rows u - 1) * cols u + of_nat k"
    have "unat ?i = (unat ((rows s - 1) * cols s) + unat (of_nat k :: u32)) mod 2 ^ 32" by (simp add: sel unat_word_ariths)
    also have "\<dots> = ?n + k" using mv k n32 by (simp add: unat_of_nat)
    finally have i: "unat ?i = ?n + k" .
    have lt: "unat ?i < con_cells u" using i k mv(2) N by simp
    note sc = set_cell_ok [OF geo lt, where c = "CHR '' ''" and fg = "fg_color u" and bg = "bg_color u"]
    have "con_step s (set_cell ?i (CHR '' '') (fg_color u) (bg_color u) u)" using con_step_trans [OF st sc(1)] .
    moreover have "cells_of (set_cell ?i (CHR '' '') (fg_color u) (bg_color u) u) ! j =
      (if ?n \<le> j \<and> j < ?n + Suc k then (CHR '' '', fg, bg) else cells_of s ! j)" if j: "j < con_cells s" for j
    proof -
      have "cells_of (set_cell ?i (CHR '' '') (fg_color u) (bg_color u) u) ! j = (if j = ?n + k then (CHR '' '', fg, bg) else cells_of u ! j)"
        unfolding sc(2) i using j N assms(2,3) sel by (simp add: nth_list_update)
      also have "cells_of u ! j = (if ?n \<le> j \<and> j < ?n + k then (CHR '' '', fg, bg) else cells_of s ! j)"
        using u j unfolding P_def by blast
      finally show ?thesis by auto
    qed
    ultimately show "P (Suc k) (set_cell ?i (CHR '' '') (fg_color u) (bg_color u) u)"
      using u sc(3,4) by (simp add: P_def)
  qed simp
  then show "con_step s t" "cursor_x t = cursor_x s" "cursor_y t = cursor_y s" by (simp_all add: P_def)
  assume j: "j < con_cells s"
  then have "cells_of t ! j = (if ?n \<le> j \<and> j < ?n + ?C then (CHR '' '', fg, bg) else cells_of s ! j)"
    using \<open>P (unat (cols s)) t\<close> unfolding P_def by blast
  then show "cells_of t ! j = (if j < ?n then cells_of s ! j else (CHR '' '', fg, bg))" using j mv(2) by auto
qed

lemma scroll_ok:
  assumes "con_geo s"
  shows "con_step s (scroll s)" and "con_shown (scroll s)" and "cursor_x (scroll s) = cursor_x s" and "cursor_y (scroll s) = cursor_y s"
    and "cells_of (scroll s) = drop (unat (cols s)) (cells_of s) @ replicate (unat (cols s)) (CHR '' '', fg_color s, bg_color s)"
proof -
  let ?C = "unat (cols s)" and ?n = "con_cells s - unat (cols s)"
  define s1 where "s1 = s\<lparr>mem := memmove (con_buffer s) (con_buffer s + sizeof_cell * ucast (cols s))
    (ucast ((rows s - 1) * cols s) * sizeof_cell) (mem s)\<rparr>"
  define s2 where "s2 = for_word 0 (cols s1) (\<lambda>x s. set_cell ((rows s - 1) * cols s + x) (CHR '' '') (fg_color s) (bg_color s) s) s1"
  have sc: "scroll s = redraw_all s2" by (simp add: scroll_def s2_def s1_def Let_def)
  note mv = scroll_move [OF assms]
  have st1: "con_step s s1" unfolding s1_def by (rule mv(1))
  note sel1 = con_step_sel [OF st1]
  have geo1: "con_geo s1" using con_step_derived(6) [OF st1] assms by simp
  have N1: "con_cells s1 = con_cells s" by (rule con_step_derived(3) [OF st1])
  note bl = blank_row [OF geo1 refl refl, folded s2_def]
  have st2: "con_step s s2" using con_step_trans [OF st1 bl(1)] .
  have geo2: "con_geo s2" using con_step_derived(6) [OF st2] assms by simp
  note rd = redraw_all_shows [OF geo2]
  note st3 = off_screen_con_step [OF rd(1)]
  show st: "con_step s (scroll s)" unfolding sc using con_step_trans [OF st2 st3] .
  show "con_shown (scroll s)" unfolding sc by (rule rd(2))
  note e = off_screen_eqD [OF rd(1)]
  have "cursor_x (redraw_all s2) = cursor_x s2" "cursor_y (redraw_all s2) = cursor_y s2" by (subst e, simp)+
  then show "cursor_x (scroll s) = cursor_x s" "cursor_y (scroll s) = cursor_y s"
    unfolding sc using bl(2,3) by (simp_all add: s1_def)
  have N2: "con_cells s2 = con_cells s" by (rule con_step_derived(3) [OF st2])
  have c3: "cells_of (scroll s) ! j = cells_of s2 ! j" if "j < con_cells s" for j
    using cells_off_screen [OF geo2 rd(1), of j] that N2 con_step_derived(3) [OF st] con_step_sel(5) [OF st3] by (simp add: sc)
  have c1: "cells_of s1 ! j = cells_of s ! (j + ?C)" if "j < ?n" for j
    using mv(2) [of j] that by (simp add: s1_def con_cells_def)
  show "cells_of (scroll s) = drop ?C (cells_of s) @ replicate ?C (CHR '' '', fg_color s, bg_color s)"
  proof (rule list_blank_tail [where n = "con_cells s"])
    fix j assume j: "j < con_cells s"
    show "cells_of (scroll s) ! j = (if j < con_cells s - ?C then cells_of s ! (j + ?C) else (CHR '' '', fg_color s, bg_color s))"
      unfolding c3 [OF j] using bl(4) [of j] j c1 [of j] N1 sel1 by simp
  qed (use mv(4) con_step_derived(3) [OF st] in simp_all)
qed

section \<open>Putting a character\<close>

lemma con_cursor_indep [simp]:
  "con_cells (s\<lparr>cursor_x := x\<rparr>) = con_cells s" "con_cells (s\<lparr>cursor_y := x\<rparr>) = con_cells s"
  "con_geo (s\<lparr>cursor_x := x\<rparr>) = con_geo s" "con_geo (s\<lparr>cursor_y := x\<rparr>) = con_geo s"
  "con_shown (s\<lparr>cursor_x := x\<rparr>) = con_shown s" "con_shown (s\<lparr>cursor_y := x\<rparr>) = con_shown s"
  by (simp_all add: con_cells_def con_geo_def con_bytes_def font_ok_def fb_ok_def fb_size_def fb_bytes_def glyph_byte_addr_def
      con_shown_def cell_shown_def pixel_at_def pixel_addr_def glyph_bit_def)

lemma pixel_at_mem:
  assumes "fb_ok s" and "con_step s t" and "\<And>a. a \<in> region (fb_addr s) (fb_size s) \<Longrightarrow> mem t a = mem s a"
    and "x < fb_width s" and "y < fb_height s"
  shows "pixel_at t x y = pixel_at s x y"
proof -
  have "pixel_addr x y t = pixel_addr x y s" by (simp add: pixel_addr_def con_step_sel [OF assms(2)])
  moreover have "mem t (pixel_addr x y s + of_nat i) = mem s (pixel_addr x y s + of_nat i)" if "i < 3" for i
    using assms(3) pixel_byte(2) [OF assms(1,4,5) that] by blast
  note this [of 0] this [of 1] this [of 2]
  ultimately show ?thesis by (simp add: pixel_at_def Let_def)
qed

lemma geo_frame: "con_geo s \<Longrightarrow> fb_ok s \<and> region (fb_addr s) (fb_size s) \<inter> con_bytes s = {}"
  by (auto simp: con_geo_def font_ok_def)

lemma cell_shown_set_cell:
  assumes "con_geo s" and "unat i < con_cells s" and "cx < unat (cols s)" and "cy < unat (rows s)"
  shows "cell_shown (set_cell i c fg bg s) cx cy d = cell_shown s cx cy d"
proof -
  let ?t = "set_cell i c fg bg s"
  note sc = set_cell_ok [OF assms(1,2)]
  note sel = con_step_sel [OF sc(1)]
  have cw: "char_w s = font_width s" "char_h s = font_height s"
    and bw: "unat (cols s) * unat (char_w s) \<le> unat (fb_width s)" and bh: "unat (rows s) * unat (char_h s) \<le> unat (fb_height s)"
    using assms(1) unfolding con_geo_def by blast+
  have "pixel_at ?t (of_nat cx * char_w s + col) (of_nat cy * char_h s + row) = pixel_at s (of_nat cx * char_w s + col) (of_nat cy * char_h s + row)"
    if c: "col < char_w s" "row < char_h s" for col row
    using geo_frame [OF assms(1)] sc(5)
    by (intro pixel_at_mem sc(1) cell_pos(2) [OF bw assms(3) c(1)] cell_pos(2) [OF bh assms(4) c(2)]) blast+
  moreover have "glyph_bit ch row col ?t = glyph_bit ch row col s" if "row < char_h s" "col < char_w s" for ch row col
    using glyph_bit_step [OF sc(1) assms(1)] that by (simp add: cw)
  ultimately show ?thesis unfolding cell_shown_def sel by simp
qed

text \<open>The visible character: into the cell at the cursor and onto the screen.\<close>

definition show_char :: "char \<Rightarrow> 'z con_st_scheme \<Rightarrow> 'z con_st_scheme" where
  "show_char c s = font_draw_char c (cursor_x s * char_w s) (cursor_y s * char_h s) (fg_color s) (bg_color s)
     (set_cell (cursor_y s * cols s + cursor_x s) c (fg_color s) (bg_color s) s)"

lemma show_char_ok:
  assumes "con_ok s"
  defines "i \<equiv> unat (cursor_y s) * unat (cols s) + unat (cursor_x s)"
  shows "con_step s (show_char c s)" and "cursor_x (show_char c s) = cursor_x s" and "cursor_y (show_char c s) = cursor_y s"
    and "cells_of (show_char c s) = (cells_of s)[i := (c, fg_color s, bg_color s)]"
    and "con_shown s \<Longrightarrow> con_shown (show_char c s)"
proof -
  let ?cc = "(c, fg_color s, bg_color s)" and ?x = "unat (cursor_x s)" and ?y = "unat (cursor_y s)"
  have geo: "con_geo s" and x: "?x < unat (cols s)" and y: "?y < unat (rows s)"
    using assms(1) by (simp_all add: con_ok_geo word_less_nat_alt)
  have n32: "con_cells s < 2 ^ 32" using geo by (simp add: con_geo_def)
  define j where "j = cursor_y s * cols s + cursor_x s"
  have j: "unat j = i" using cell_index(2) [OF n32 x y] by (simp add: i_def j_def)
  have ilt: "i < con_cells s" using cell_index(1) [OF n32 x y] by (simp add: i_def)
  then have jlt: "unat j < con_cells s" by (simp only: j)
  define s1 where "s1 = set_cell j c (fg_color s) (bg_color s) s"
  note sc = set_cell_ok [OF geo jlt, where c = c and fg = "fg_color s" and bg = "bg_color s", folded s1_def]
  note sel = con_step_sel [OF sc(1)]
  have geo1: "con_geo s1" using con_step_derived(6) [OF sc(1)] geo by simp
  have xy1: "?x < unat (cols s1)" "?y < unat (rows s1)" using x y sel by simp_all
  have t: "show_char c s = font_draw_char (fst ?cc) (of_nat ?x * char_w s1) (of_nat ?y * char_h s1) (fst (snd ?cc)) (snd (snd ?cc)) s1"
    by (simp add: show_char_def s1_def [unfolded j_def] sel [unfolded s1_def j_def])
  note d = draw_cell [OF geo1 xy1, where cc = ?cc, folded t]
  note st2 = off_screen_con_step [OF d(1)]
  show st: "con_step s (show_char c s)" using con_step_trans [OF sc(1) st2] .
  note e = off_screen_eqD [OF d(1)]
  have "cursor_x (show_char c s) = cursor_x s1" "cursor_y (show_char c s) = cursor_y s1" by (subst e, simp)+
  then show "cursor_x (show_char c s) = cursor_x s" "cursor_y (show_char c s) = cursor_y s" using sc(3,4) by simp_all
  have N: "con_cells s1 = con_cells s" "con_cells (show_char c s) = con_cells s"
    using con_step_derived(3) [OF sc(1)] con_step_derived(3) [OF st] by simp_all
  have "cells_of (show_char c s) = cells_of s1"
    using cells_off_screen [OF geo1 d(1)] N con_step_sel(5) [OF st2] by simp
  then show cells: "cells_of (show_char c s) = (cells_of s)[i := ?cc]" using sc(2) j by simp
  assume sh: "con_shown s"
  show "con_shown (show_char c s)"
    unfolding con_shown_def con_step_sel [OF st]
  proof (intro allI impI)
    fix cx cy assume c: "cx < unat (cols s)" "cy < unat (rows s)"
    let ?k = "cy * unat (cols s) + cx"
    have k: "?k < con_cells s" by (rule cell_index(1) [OF n32 c])
    have at: "cell_at (mem (show_char c s)) (con_buffer s) ?k = (cells_of s)[i := ?cc] ! ?k"
      using cells k N(2) con_step_sel(5) [OF st] by (metis cells_of_nth)
    show "cell_shown (show_char c s) cx cy (cell_at (mem (show_char c s)) (con_buffer s) ?k)"
    proof (cases "(cx, cy) = (?x, ?y)")
      case True
      then show ?thesis unfolding at using d(2) ilt by (simp add: i_def)
    next
      case False
      have "?k \<noteq> i"
      proof
        assume "?k = i"
        then have "?k mod unat (cols s) = i mod unat (cols s)" "?k div unat (cols s) = i div unat (cols s)" by simp_all
        then show False using False x c(1) by (simp add: i_def)
      qed
      then have "(cells_of s)[i := ?cc] ! ?k = cell_at (mem s) (con_buffer s) ?k" using k by simp
      moreover have "cell_shown s cx cy (cell_at (mem s) (con_buffer s) ?k)" using sh c by (simp add: con_shown_def)
      ultimately show ?thesis
        unfolding at using d(3) [of cx cy] c False sel cell_shown_set_cell [OF geo jlt c] by (simp add: s1_def)
    qed
  qed
qed

text \<open>The last step of \<open>console_putchar\<close>: scroll if the cursor left the last row.\<close>

definition settle :: "'z con_st_scheme \<Rightarrow> 'z con_st_scheme" where
  "settle s = (if cursor_y s \<ge> rows s then (scroll s)\<lparr>cursor_y := rows s - 1\<rparr> else s)"

definition kept :: "'z con_st_scheme \<Rightarrow> 'z con_st_scheme \<Rightarrow> bool" where
  "kept s t \<longleftrightarrow> con_ok t \<and> con_step s t \<and> (con_shown s \<longrightarrow> con_shown t)"

lemma con_abs_step:
  assumes "con_step s t"
  shows "con_abs t = (con_abs s)\<lparr>t_cells := cells_of t, t_x := unat (cursor_x t), t_y := unat (cursor_y t)\<rparr>"
  by (simp add: con_abs_def con_step_sel [OF assms])

lemma settle_id: "cursor_y s < rows s \<Longrightarrow> settle s = s"
  by (simp add: settle_def leD)

lemma settle_ok:
  assumes "con_geo s" and "cursor_x s < cols s" and "cursor_y s \<le> rows s"
  shows "kept s (settle s)"
    and "con_abs (settle s) = (if cursor_y s < rows s then con_abs s
      else (con_abs s)\<lparr>t_y := unat (rows s) - 1,
        t_cells := drop (unat (cols s)) (cells_of s) @ replicate (unat (cols s)) (CHR '' '', fg_color s, bg_color s)\<rparr>)"
proof -
  note sc = scroll_ok [OF assms(1)]
  have R: "1 \<le> rows s" using assms(1) by (simp add: con_geo_def word_le_nat_alt word_less_nat_alt)
  have last: "unat (rows s - 1) = unat (rows s) - 1" using R by (subst unat_sub) (simp_all)
  have lt: "rows s - 1 < rows s" using R last by (simp add: word_less_nat_alt word_le_nat_alt)
  show "kept s (settle s)"
  proof (cases "cursor_y s < rows s")
    case True
    then show ?thesis using assms by (simp add: settle_id kept_def con_ok_geo con_step_refl)
  next
    case False
    then show ?thesis using sc lt assms(1,2) con_step_sel [OF sc(1)] con_step_derived(6) [OF sc(1)]
      by (simp add: settle_def kept_def con_ok_geo)
  qed
  show "con_abs (settle s) = (if cursor_y s < rows s then con_abs s
      else (con_abs s)\<lparr>t_y := unat (rows s) - 1,
        t_cells := drop (unat (cols s)) (cells_of s) @ replicate (unat (cols s)) (CHR '' '', fg_color s, bg_color s)\<rparr>)"
  proof (cases "cursor_y s < rows s")
    case True
    then show ?thesis by (simp add: settle_id)
  next
    case False
    then have "settle s = (scroll s)\<lparr>cursor_y := rows s - 1\<rparr>" by (simp add: settle_def)
    then show ?thesis using False sc last by (simp add: con_abs_def con_step_sel [OF sc(1)])
  qed
qed

lemma kept_cursor: "kept (s\<lparr>cursor_x := x\<rparr>) t = kept s t" "kept (s\<lparr>cursor_y := x\<rparr>) t = kept s t"
  and kept_step: "con_step s u \<Longrightarrow> (con_shown s \<Longrightarrow> con_shown u) \<Longrightarrow> kept u t \<Longrightarrow> kept s t"
proof -
  show "kept (s\<lparr>cursor_x := x\<rparr>) t = kept s t" "kept (s\<lparr>cursor_y := x\<rparr>) t = kept s t"
    by (simp_all add: kept_def con_step_def con_bytes_def fb_size_def con_cells_def)
  show "con_step s u \<Longrightarrow> (con_shown s \<Longrightarrow> con_shown u) \<Longrightarrow> kept u t \<Longrightarrow> kept s t"
    using con_step_trans by (auto simp: kept_def)
qed

text \<open>A line end at the cursor row, with the cursor column back at 0.\<close>

lemma line_end_ok:
  assumes "con_geo s" and "cursor_y s < rows s"
  shows "kept s (settle (s\<lparr>cursor_x := 0, cursor_y := cursor_y s + 1\<rparr>))"
    and "con_abs (settle (s\<lparr>cursor_x := 0, cursor_y := cursor_y s + 1\<rparr>)) = term_newline ((con_abs s)\<lparr>t_x := 0\<rparr>)"
proof -
  let ?s = "s\<lparr>cursor_x := 0, cursor_y := cursor_y s + 1\<rparr>"
  have y: "unat (cursor_y s + 1) = Suc (unat (cursor_y s))" using unat_Suc_less [OF assms(2)] .
  have ylt: "unat (cursor_y s) < unat (rows s)" using assms(2) by (simp add: word_less_nat_alt)
  have pre: "con_geo ?s" "cursor_x ?s < cols ?s" "cursor_y ?s \<le> rows ?s"
  proof -
    show "con_geo ?s" using assms(1) by simp
    have "0 < cols s" using assms(1) by (simp add: con_geo_def)
    then show "cursor_x ?s < cols ?s" by simp
    show "cursor_y ?s \<le> rows ?s" using y ylt by (simp add: word_le_nat_alt)
  qed
  show "kept s (settle ?s)" using settle_ok(1) [OF pre] by (simp add: kept_cursor)
  have c: "cursor_y s + 1 < rows s \<longleftrightarrow> Suc (unat (cursor_y s)) < unat (rows s)" using y by (simp add: word_less_nat_alt)
  have "\<not> cursor_y s + 1 < rows s \<Longrightarrow> unat (rows s) - 1 = unat (cursor_y s)" using c ylt by simp
  then show "con_abs (settle ?s) = term_newline ((con_abs s)\<lparr>t_x := 0\<rparr>)"
    unfolding settle_ok(2) [OF pre] using c y by (auto simp: term_newline_def con_abs_def term_blank_def con_cells_def)
qed

text \<open>The code's two steps, with \<open>show_char\<close> for the visible character.\<close>

definition advance :: "'z con_st_scheme \<Rightarrow> 'z con_st_scheme" where
  "advance s = (if cols s \<le> cursor_x s + 1 then s\<lparr>cursor_x := 0, cursor_y := cursor_y s + 1\<rparr> else s\<lparr>cursor_x := cursor_x s + 1\<rparr>)"

lemma set_cell_sel [simp]:
  "cursor_x (set_cell i c fg bg s) = cursor_x s" "cursor_y (set_cell i c fg bg s) = cursor_y s"
  "char_w (set_cell i c fg bg s) = char_w s" "char_h (set_cell i c fg bg s) = char_h s"
  "fg_color (set_cell i c fg bg s) = fg_color s" "bg_color (set_cell i c fg bg s) = bg_color s"
  by (simp_all add: set_cell_put)

lemma visible_show:
  assumes "con_buffer s \<noteq> 0"
  shows "(let s = (if con_buffer s \<noteq> 0 then set_cell (cursor_y s * cols s + cursor_x s) c (fg_color s) (bg_color s) s else s);
      s = font_draw_char c (cursor_x s * char_w s) (cursor_y s * char_h s) (fg_color s) (bg_color s) s;
      s = s\<lparr>cursor_x := cursor_x s + 1\<rparr>
    in if cursor_x s \<ge> cols s then s\<lparr>cursor_x := 0, cursor_y := cursor_y s + 1\<rparr> else s) = advance (show_char c s)"
  using assms by (simp only: Let_def if_True not_False_eq_True set_cell_sel show_char_def [symmetric]) (simp add: advance_def)

lemma console_putchar_steps:
  assumes "con_buffer s \<noteq> 0"
  shows "console_putchar c s = settle (if c = CHR 0x0A then s\<lparr>cursor_x := 0, cursor_y := cursor_y s + 1\<rparr>
     else if c = CHR 0x0D then s\<lparr>cursor_x := 0\<rparr>
     else if c = CHR 0x08 then (if cursor_x s > 0 then s\<lparr>cursor_x := cursor_x s - 1\<rparr> else s)
     else advance (show_char c s))"
  unfolding console_putchar_def visible_show [OF assms] by (simp only: settle_def Let_def)

lemma console_putchar_ok:
  assumes "con_ok s"
  shows "kept s (console_putchar c s)" and "con_abs (console_putchar c s) = term_putchar c (con_abs s)"
proof -
  have geo: "con_geo s" and x: "cursor_x s < cols s" and y: "cursor_y s < rows s" using assms by (simp_all add: con_ok_geo)
  have b: "con_buffer s \<noteq> 0" using geo by (simp add: con_geo_def)
  have nosettle: "kept s (settle (s\<lparr>cursor_x := v\<rparr>)) \<and> con_abs (settle (s\<lparr>cursor_x := v\<rparr>)) = (con_abs s)\<lparr>t_x := unat v\<rparr>" if "v < cols s" for v
    using geo y that con_step_refl by (simp add: settle_id kept_def con_ok_geo) (simp add: con_abs_def)
  let ?u = "show_char c s"
  note sh = show_char_ok [OF assms, where c = c]
  note sel = con_step_sel [OF sh(1)]
  have geou: "con_geo ?u" using con_step_derived(6) [OF sh(1)] geo by simp
  have up: "unat (cursor_x s + 1) = Suc (unat (cursor_x s))" using unat_Suc_less [OF x] .
  have absu: "con_abs ?u = (con_abs s)\<lparr>t_cells := (t_cells (con_abs s))[t_y (con_abs s) * t_cols (con_abs s) + t_x (con_abs s) := (c, t_fg (con_abs s), t_bg (con_abs s))]\<rparr>"
    using sh(2-4) by (simp add: con_abs_step [OF sh(1)]) (simp add: con_abs_def)
  have put: "console_putchar c s = settle (if c = CHR 0x0A then s\<lparr>cursor_x := 0, cursor_y := cursor_y s + 1\<rparr>
     else if c = CHR 0x0D then s\<lparr>cursor_x := 0\<rparr>
     else if c = CHR 0x08 then (if cursor_x s > 0 then s\<lparr>cursor_x := cursor_x s - 1\<rparr> else s)
     else if cols s \<le> cursor_x s + 1 then ?u\<lparr>cursor_x := 0, cursor_y := cursor_y s + 1\<rparr> else ?u\<lparr>cursor_x := cursor_x s + 1\<rparr>)"
    unfolding console_putchar_steps [OF b] advance_def sh(2,3) sel by (rule refl)
  have "kept s (console_putchar c s) \<and> con_abs (console_putchar c s) = term_putchar c (con_abs s)"
  proof -
    consider "c = CHR 0x0A" | "c = CHR 0x0D" | "c = CHR 0x08" | "c \<noteq> CHR 0x0A" "c \<noteq> CHR 0x0D" "c \<noteq> CHR 0x08" by blast
    then show ?thesis
    proof cases
      case 1
      then show ?thesis using line_end_ok [OF geo y] unfolding put by (simp add: term_putchar_def)
    next
      case 2
      then show ?thesis using nosettle [of 0] geo unfolding put by (simp add: term_putchar_def con_geo_def)
    next
      case 3
      have le: "1 \<le> cursor_x s" if "0 < cursor_x s" using that by (simp add: word_le_nat_alt word_less_nat_alt)
      have "cursor_x s - 1 < cols s \<and> unat (cursor_x s - 1) = unat (cursor_x s) - 1" if "0 < cursor_x s"
        using unat_sub [OF le [OF that]] x by (simp add: word_less_nat_alt)
      moreover have "unat (cursor_x s) = 0" if "\<not> 0 < cursor_x s" using that by (simp add: word_gt_0)
      moreover have "s\<lparr>cursor_x := cursor_x s\<rparr> = s" by simp
      ultimately show ?thesis
        using 3 nosettle [of "cursor_x s - 1"] nosettle [OF x] unfolding put
        by (cases "0 < cursor_x s") (simp_all add: term_putchar_def con_abs_def)
    next
      case 4
      show ?thesis
      proof (cases "cols s \<le> cursor_x s + 1")
        case True
        have yu: "cursor_y ?u < rows ?u" using y sh(3) sel by simp
        note le = line_end_ok [OF geou yu]
        have "\<not> Suc (unat (cursor_x s)) < unat (cols s)" using True up by (simp add: word_le_nat_alt)
        then show ?thesis
          unfolding put using 4 True le sh(3) kept_step [OF sh(1,5) le(1)] absu
          by (simp add: term_putchar_def Let_def) (simp add: con_abs_def)
      next
        case False
        then have lt: "cursor_x s + 1 < cols s" by simp
        then have "Suc (unat (cursor_x s)) < unat (cols s)" using up by (simp add: word_less_nat_alt)
        moreover have "settle (?u\<lparr>cursor_x := cursor_x s + 1\<rparr>) = ?u\<lparr>cursor_x := cursor_x s + 1\<rparr>"
          using y sh(3) sel by (intro settle_id) simp
        moreover have "kept s (?u\<lparr>cursor_x := cursor_x s + 1\<rparr>)"
          using geou lt y sh sel by (simp add: kept_def con_ok_geo)
        moreover have "con_abs (?u\<lparr>cursor_x := cursor_x s + 1\<rparr>) = (con_abs ?u)\<lparr>t_x := Suc (unat (cursor_x s))\<rparr>"
          using up by (simp add: con_abs_def)
        ultimately show ?thesis
          unfolding put using 4 False absu by (simp add: term_putchar_def Let_def) (simp add: con_abs_def)
      qed
    qed
  qed
  then show "kept s (console_putchar c s)" "con_abs (console_putchar c s) = term_putchar c (con_abs s)" by simp_all
qed

section \<open>Clearing\<close>

lemma console_clear_ok:
  assumes "con_geo s" and blank: "\<And>row col. row < font_height s \<Longrightarrow> col < font_width s \<Longrightarrow> \<not> glyph_bit (CHR '' '') row col s"
  shows "con_ok (console_clear s)" and "con_step s (console_clear s)" and "con_shown (console_clear s)"
    and "con_abs (console_clear s) = (con_abs s)\<lparr>t_cells := replicate (con_cells s) (CHR '' '', fg_color s, bg_color s), t_x := 0, t_y := 0\<rparr>"
proof -
  let ?cc = "(CHR '' '', fg_color s, bg_color s)"
  define s1 where "s1 = fb_clear (bg_color s) s"
  have p: "screen.painted s (\<lambda>x y. y < fb_height s \<and> x < fb_width s) (\<lambda>_ _. bg_color s) s1"
    unfolding s1_def using geo_frame [OF assms(1)] by (intro fb_clear_painted) simp
  have off: "off_screen s1 = off_screen s" using p by (simp add: screen.painted_def)
  have st1: "con_step s s1" using off by (rule off_screen_con_step)
  note sel1 = con_step_sel [OF st1]
  have n32: "con_cells s < 2 ^ 32" using assms(1) by (simp add: con_geo_def)
  then have bound: "unat (cols s1 * rows s1) = con_cells s" by (simp add: sel1 unat_word_ariths con_cells_def)
  define P where "P k t \<longleftrightarrow> con_step s1 t \<and> (\<forall>a \<in> region (fb_addr s) (fb_size s). mem t a = mem s1 a) \<and>
    (\<forall>j<con_cells s. j < k \<longrightarrow> cells_of t ! j = ?cc)" for k t
  define s2 where "s2 = for_word 0 (cols s1 * rows s1) (\<lambda>i s. set_cell i (CHR '' '') (fg_color s) (bg_color s) s) s1"
  have "P (unat (cols s1 * rows s1)) s2"
    unfolding s2_def
  proof (rule for_word_rule)
    show "P (unat (0 :: u32)) s1" by (simp add: P_def con_step_refl)
    fix k t assume t: "P k t" and "k < unat (cols s1 * rows s1)"
    then have k: "k < con_cells s" using bound by simp
    have stt: "con_step s1 t" using t by (simp add: P_def)
    have st: "con_step s t" using con_step_trans [OF st1 stt] .
    note sel = con_step_sel [OF st] and der = con_step_derived [OF st]
    have i: "unat (of_nat k :: u32) = k" using k n32 by (simp add: unat_of_nat)
    have geo: "con_geo t" and lt: "unat (of_nat k :: u32) < con_cells t" using der(3,6) assms(1) k i by simp_all
    note sc = set_cell_ok [OF geo lt, where c = "CHR '' ''" and fg = "fg_color t" and bg = "bg_color t"]
    have "mem (set_cell (of_nat k) (CHR '' '') (fg_color t) (bg_color t) t) a = mem s1 a" if "a \<in> region (fb_addr s) (fb_size s)" for a
      using sc(5) [of a] geo_frame [OF geo] t that sel der by (simp add: P_def)
    moreover have "cells_of (set_cell (of_nat k) (CHR '' '') (fg_color t) (bg_color t) t) ! j = ?cc" if "j < con_cells s" "j < Suc k" for j
    proof (cases "j = k")
      case True
      then show ?thesis unfolding sc(2) i using k der(3) sel by simp
    next
      case False
      then have "cells_of t ! j = ?cc" using t that by (simp add: P_def)
      then show ?thesis unfolding sc(2) i using False by simp
    qed
    ultimately show "P (Suc k) (set_cell (of_nat k) (CHR '' '') (fg_color t) (bg_color t) t)"
      using con_step_trans [OF stt sc(1)] unfolding P_def by blast
  qed simp
  then have st12: "con_step s1 s2" and fr: "\<And>a. a \<in> region (fb_addr s) (fb_size s) \<Longrightarrow> mem s2 a = mem s1 a"
    and cl: "\<And>j. j < con_cells s \<Longrightarrow> cells_of s2 ! j = ?cc" unfolding P_def bound by blast+
  have st2: "con_step s s2" using con_step_trans [OF st1 st12] .
  have b: "con_buffer s1 \<noteq> 0" using assms(1) sel1 by (simp add: con_geo_def)
  have run: "console_clear s = s2\<lparr>cursor_x := 0, cursor_y := 0\<rparr>"
    using b by (simp add: console_clear_def s1_def s2_def Let_def)
  show st: "con_step s (console_clear s)" unfolding run using st2 by simp
  note sel2 = con_step_sel [OF st2] and der2 = con_step_derived [OF st2]
  have "0 < cols s" "0 < rows s" using assms(1) by (simp_all add: con_geo_def)
  then show "con_ok (console_clear s)" unfolding run con_ok_geo using der2(6) assms(1) sel2 by simp
  have "cells_of s2 = replicate (con_cells s) ?cc" using cl der2(3) by (intro nth_equalityI) simp_all
  then show "con_abs (console_clear s) = (con_abs s)\<lparr>t_cells := replicate (con_cells s) ?cc, t_x := 0, t_y := 0\<rparr>"
    using con_abs_step [OF st] unfolding run by simp
  have cw: "char_w s = font_width s" "char_h s = font_height s"
    and bw: "unat (cols s) * unat (char_w s) \<le> unat (fb_width s)" and bh: "unat (rows s) * unat (char_h s) \<le> unat (fb_height s)"
    using assms(1) unfolding con_geo_def by blast+
  have pix: "pixel_at s2 x y = bg_color s AND 0xFFFFFF" if "x < fb_width s" "y < fb_height s" for x y
  proof -
    have "pixel_at s2 x y = pixel_at s1 x y"
    proof (rule pixel_at_mem)
      show "fb_ok s1" using con_step_derived(4) [OF st1] geo_frame [OF assms(1)] by simp
      show "con_step s1 s2" by (rule st12)
    qed (use fr sel1 con_step_derived [OF st1] that in simp_all)
    then show ?thesis using p that by (simp add: screen.painted_def)
  qed
  have "cell_shown s2 cx cy ?cc" if c: "cx < unat (cols s)" "cy < unat (rows s)" for cx cy
    unfolding cell_shown_def sel2
    using pix [OF cell_pos(2) [OF bw c(1)] cell_pos(2) [OF bh c(2)]] glyph_bit_step [OF st2 assms(1)] blank by (simp add: cw)
  moreover have "cell_at (mem s2) (con_buffer s2) (cy * unat (cols s) + cx) = ?cc" if c: "cx < unat (cols s)" "cy < unat (rows s)" for cx cy
    using cl [OF cell_index(1) [OF n32 c]] der2(3) cell_index(1) [OF n32 c] by simp
  ultimately have "con_shown s2" by (simp add: con_shown_def sel2)
  then show "con_shown (console_clear s)" unfolding run by simp
qed

section \<open>The console as a sink\<close>

definition con_sent :: "string \<Rightarrow> 'z con_st_scheme \<Rightarrow> 'z con_st_scheme \<Rightarrow> bool" where
  "con_sent str s t \<longleftrightarrow> t = console_print str s \<and> (str = [] \<or> con_ok s)"

definition con_dirty :: "'z con_st_scheme \<Rightarrow> u64 set" where
  "con_dirty s = con_bytes s \<union> region (fb_addr s) (fb_size s)"

lemma console_print_append: "console_print (xs @ ys) s = console_print ys (console_print xs s)"
  by (induction xs arbitrary: s) simp_all

lemma console_print_ok:
  assumes "con_ok s"
  shows "kept s (console_print str s)" and "con_abs (console_print str s) = fold term_putchar str (con_abs s)"
proof -
  have "kept s (console_print str s) \<and> con_abs (console_print str s) = fold term_putchar str (con_abs s)"
    using assms
  proof (induction str arbitrary: s)
    case Nil
    then show ?case by (simp add: kept_def con_step_refl)
  next
    case (Cons c str)
    note c = console_putchar_ok [OF Cons.prems, of c]
    have "con_ok (console_putchar c s)" using c(1) by (simp add: kept_def)
    from Cons.IH [OF this] show ?case
      using c kept_step [of s "console_putchar c s"] by (simp add: kept_def)
  qed
  then show "kept s (console_print str s)" "con_abs (console_print str s) = fold term_putchar str (con_abs s)" by simp_all
qed

lemma con_sent_step: "con_sent str s t \<Longrightarrow> con_step s t"
  using console_print_ok(1) by (auto simp: con_sent_def kept_def con_step_refl)

interpretation con: char_sink con_put con_ok con_sent con_dirty
proof
  show "con_ok s \<Longrightarrow> returns (con_put c s) (\<lambda>_ t. con_ok t \<and> con_sent [c] s t)" for s :: "'z con_st_scheme" and c
    using console_putchar_ok(1) by (auto simp: con_put_def con_sent_def kept_def)
  show "con_sent [] s s" for s :: "'z con_st_scheme" by (simp add: con_sent_def)
  show "con_sent xs s t \<Longrightarrow> con_sent ys t u \<Longrightarrow> con_sent (xs @ ys) s u" for xs ys and s t u :: "'z con_st_scheme"
    by (auto simp: con_sent_def console_print_append)
  show "con_sent xs s t \<Longrightarrow> x \<notin> con_dirty s \<Longrightarrow> mem t x = mem s x" for xs x and s t :: "'z con_st_scheme"
    using con_sent_step by (auto simp: con_step_def con_dirty_def)
  show "con_sent xs s t \<Longrightarrow> con_dirty t = con_dirty s" for xs and s t :: "'z con_st_scheme"
    by (drule con_sent_step) (simp only: con_dirty_def con_step_derived(1,2) con_step_sel(12))
qed

lemma cvprintf_prints:
  assumes "con_ok s" and "ref_format (mem s) fmt args = Some out"
    and "\<And>a p. (a, p) \<in> set (fmt_strings fmt args) \<Longrightarrow>
      (\<forall>m. (\<forall>x. x \<notin> con_dirty s \<longrightarrow> m x = mem s x) \<longrightarrow> ref_str m a p = ref_str (mem s) a p)"
  shows "cvprintf fmt args s = Ret () (console_print out s)"
proof -
  have "con.stable s ap" if "ap \<in> set (fmt_strings fmt args)" for ap
    unfolding con.stable_def con.agree_def by (cases ap) (use assms(3) that in \<open>simp only: fst_conv snd_conv, blast\<close>)
  from con.sends_vprintf [OF assms(1) this assms(2)] show ?thesis
    by (auto simp: con.sends_def returns_conv con_sent_def cvprintf_def)
qed

section \<open>Properties\<close>

definition demo_con :: con_st where
  "demo_con = font_st.extend demo_font
     \<lparr>con_initialized = True, cursor_x = 1, cursor_y = 1, fg_color = 0xFFFFFF, bg_color = 0, cols = 2, rows = 2,
      char_w = 4, char_h = 2, con_buffer = 0x800000\<rparr>"

lemma demo_con_sel [simp]: "fb_addr demo_con = 0xFD000000" "fb_width demo_con = 8" "fb_height demo_con = 4"
  "fb_pitch demo_con = 32" "fb_bpp demo_con = 32" "mem demo_con = (\<lambda>a. if a < 0x700000 then 0xF0 else 0)"
  "font_glyphs demo_con = 0x600004" "font_width demo_con = 4" "font_height demo_con = 2" "font_glyph_size demo_con = 2"
  "cursor_x demo_con = 1" "cursor_y demo_con = 1" "fg_color demo_con = 0xFFFFFF" "bg_color demo_con = 0" "cols demo_con = 2"
  "rows demo_con = 2" "char_w demo_con = 4" "char_h demo_con = 2" "con_buffer demo_con = 0x800000" "con_initialized demo_con"
  by (simp_all add: demo_con_def demo_font_def demo_fb_def font_st.defs fb_st.defs paging_st.defs hw.defs demo_hw_def)

lemma demo_con_geo: "con_geo demo_con"
proof -
  have g: "glyph_byte_addr c row col demo_con = glyph_byte_addr c row col demo_font" for c row col
    by (simp add: glyph_byte_addr_def)
  have f: "font_ok demo_con = font_ok demo_font"
    unfolding font_ok_def fb_ok_def fb_size_def fb_bytes_def by (simp add: g)
  have low: "a \<notin> region 0x800000 48" if "unat a < 0x700000" for a :: u64
  proof -
    have "separate a 1 0x800000 48" using that by (intro separate_by_order) (simp_all add: fits_def)
    moreover have "a \<in> region a 1" by (simp add: region_iff)
    ultimately show ?thesis using separate_disjoint by blast
  qed
  have "separate 0x800000 48 0xFD000000 128" by (intro separate_by_order) (simp_all add: fits_def)
  then have "region 0x800000 48 \<inter> region 0xFD000000 128 = {}" using separate_disjoint by blast
  then show ?thesis
    using demo_font_ok demo_glyph_addr low
    by (simp add: con_geo_def f g con_bytes_def con_cells_def fb_size_def)
qed

lemma demo_con_ok: "con_ok demo_con"
  using demo_con_geo by (simp add: con_ok_geo)

text \<open>
  C2. \<open>console_putchar\<close> refines the abstract terminal: on a well-formed console it updates cells and cursor as
  the terminal does (line ends, carriage return, backspace, wrap at the right edge, scrolling at the bottom), keeps the
  console well-formed, keeps the screen equal to the cells if it was, and writes only cells and screen.
\<close>

theorem console_putchar_refines:
  assumes "con_ok s"
  shows "con_ok (console_putchar c s) \<and> con_abs (console_putchar c s) = term_putchar c (con_abs s) \<and>
    (con_shown s \<longrightarrow> con_shown (console_putchar c s)) \<and>
    (\<forall>x. x \<notin> con_bytes s \<union> region (fb_addr s) (fb_size s) \<longrightarrow> mem (console_putchar c s) x = mem s x)"
  using console_putchar_ok [OF assms, of c] by (simp add: kept_def con_step_def)

theorem console_putchar_refines_witness:
  "con_abs (console_putchar (CHR ''A'') demo_con) =
    \<lparr>t_cells = [cell_at (mem demo_con) 0x800000 2, (CHR ''A'', 0xFFFFFF, 0), (CHR '' '', 0xFFFFFF, 0), (CHR '' '', 0xFFFFFF, 0)],
     t_x = 0, t_y = 1, t_cols = 2, t_rows = 2, t_fg = 0xFFFFFF, t_bg = 0\<rparr>"
proof -
  have u: "[0..<4] = [0, 1, 2, 3 :: nat]" by (simp add: upt_rec)
  have abs: "con_abs demo_con = \<lparr>t_cells = map (cell_at (mem demo_con) 0x800000) [0, 1, 2, 3],
     t_x = 1, t_y = 1, t_cols = 2, t_rows = 2, t_fg = 0xFFFFFF, t_bg = 0\<rparr>"
    by (simp add: con_abs_def con_cells_def u)
  have "term_putchar (CHR ''A'') \<lparr>t_cells = [a, b, c, d], t_x = 1, t_y = 1, t_cols = 2, t_rows = 2, t_fg = 0xFFFFFF, t_bg = 0\<rparr> =
    \<lparr>t_cells = [c, (CHR ''A'', 0xFFFFFF, 0), (CHR '' '', 0xFFFFFF, 0), (CHR '' '', 0xFFFFFF, 0)],
     t_x = 0, t_y = 1, t_cols = 2, t_rows = 2, t_fg = 0xFFFFFF, t_bg = 0\<rparr>" for a b c d
    by (simp add: term_putchar_def Let_def term_newline_def term_blank_def numeral_3_eq_3 numeral_2_eq_2)
  then show ?thesis
    using console_putchar_refines [OF demo_con_ok, of "CHR ''A''"] unfolding abs by simp
qed

text \<open>
  \<open>console_clear\<close> blanks the terminal: all cells are spaces in the current colours, the cursor is at the top
  left, and, in a font whose space is empty, the screen shows exactly these cells.
\<close>

theorem console_clear_blanks:
  assumes "con_geo s" and "\<And>row col. row < font_height s \<Longrightarrow> col < font_width s \<Longrightarrow> \<not> glyph_bit (CHR '' '') row col s"
  shows "con_ok (console_clear s) \<and> con_shown (console_clear s) \<and>
    con_abs (console_clear s) = (con_abs s)\<lparr>t_cells := replicate (con_cells s) (CHR '' '', fg_color s, bg_color s), t_x := 0, t_y := 0\<rparr>"
  using console_clear_ok [OF assms] by simp

text \<open>The same console over a font without ink.\<close>

lemma demo_blank:
  "con_geo (demo_con\<lparr>mem := (\<lambda>_. 0)\<rparr>)" "\<not> glyph_bit (CHR '' '') row col (demo_con\<lparr>mem := (\<lambda>_. 0)\<rparr>)"
proof -
  show "con_geo (demo_con\<lparr>mem := (\<lambda>_. 0)\<rparr>)"
    using demo_con_geo unfolding con_geo_def font_ok_def con_bytes_def con_cells_def fb_ok_def fb_size_def fb_bytes_def glyph_byte_addr_def
    by simp
  show "\<not> glyph_bit (CHR '' '') row col (demo_con\<lparr>mem := (\<lambda>_. 0)\<rparr>)" by (simp add: glyph_bit_def)
qed

text \<open>
  C26. Formatted console output: \<open>cvprintf\<close> returns and puts the reference text of its format and arguments on the
  terminal, provided the strings among the arguments do not lie in the cells or the screen.
\<close>

theorem cvprintf_writes_reference_text:
  assumes "con_ok s" and "ref_format (mem s) fmt args = Some out"
    and "\<And>a p. (a, p) \<in> set (fmt_strings fmt args) \<Longrightarrow>
      (\<forall>m. (\<forall>x. x \<notin> con_dirty s \<longrightarrow> m x = mem s x) \<longrightarrow> ref_str m a p = ref_str (mem s) a p)"
  shows "\<exists>t. cvprintf fmt args s = Ret () t \<and> con_ok t \<and> con_abs t = fold term_putchar out (con_abs s) \<and>
    (con_shown s \<longrightarrow> con_shown t)"
  using cvprintf_prints [OF assms] console_print_ok [OF assms(1), of out] by (simp add: kept_def)

lemma demo_format_con: "ref_format m ''n=%d'' [VWord 7] = Some ''n=7''" "fmt_strings ''n=%d'' [VWord 7] = []"
  by code_simp+

theorem cvprintf_writes_reference_text_witness:
  "\<exists>t. cvprintf ''n=%d'' [VWord 7] demo_con = Ret () t \<and> con_abs t = fold term_putchar ''n=7'' (con_abs demo_con)"
  using cvprintf_writes_reference_text [OF demo_con_ok demo_format_con(1)] unfolding demo_format_con(2) by auto

end
