(* ===== verification/Spinlock.thy ===== *)
theory Spinlock
  imports Prelude
begin

text \<open>
  The test-and-set spinlock of \<^verbatim>\<open>include/spinlock.h\<close>. First the code as one processor runs it: the
  loop repeats \<open>__sync_lock_test_and_set\<close> on the lock word. Then the same two operations as the steps
  of any number of processors, with mutual exclusion of the critical sections they guard.
\<close>

section \<open>The operations on the lock word\<close>

text \<open>\<open>__sync_lock_test_and_set(&l, 1)\<close>: the old value, and the word with 1 stored.\<close>

definition test_and_set :: "u32 \<Rightarrow> u32 \<times> u32" where
  "test_and_set l = (l, 1)"

partial_function (option) spinlock_acquire :: "u32 \<Rightarrow> u32 option" where
  "spinlock_acquire l =
     (let (old, l') = test_and_set l in if old \<noteq> 0 then spinlock_acquire l' else Some l')"

definition spinlock_release :: "u32 \<Rightarrow> u32" where
  "spinlock_release l = 0"

lemma spinlock_acquire_free: "spinlock_acquire 0 = Some 1"
  by (simp add: spinlock_acquire.simps test_and_set_def)

text \<open>Alone, a processor that finds the lock taken spins for ever.\<close>

lemma spinlock_acquire_taken:
  assumes "l \<noteq> 0"
  shows "spinlock_acquire l = None"
proof (rule ccontr)
  assume "spinlock_acquire l \<noteq> None"
  then obtain r where "spinlock_acquire l = Some r" by blast
  then have "l = 0"
    by (rule spinlock_acquire.raw_induct [where P = "\<lambda>l r. l = 0", rotated])
      (auto simp: test_and_set_def split: if_splits, fastforce)
  with assms show False by simp
qed

lemma spinlock_acquire_iff: "spinlock_acquire l = (if l = 0 then Some 1 else None)"
  by (simp add: spinlock_acquire_free spinlock_acquire_taken)

section \<open>Many processors\<close>

datatype lock_pc = Outside | Spinning | Critical

record lock_sys =
  lock_word :: u32
  lock_pcs :: "nat \<Rightarrow> lock_pc"

definition lock_init :: lock_sys where
  "lock_init = \<lparr>lock_word = 0, lock_pcs = (\<lambda>_. Outside)\<rparr>"

text \<open>
  Each step is one atomic access: a processor enters \<open>spinlock_acquire\<close>; its test-and-set either
  fails (and it pauses) or succeeds; it stores 0 in \<open>spinlock_release\<close>.
\<close>

inductive lock_step :: "lock_sys \<Rightarrow> lock_sys \<Rightarrow> bool" where
  enter: "lock_pcs s i = Outside \<Longrightarrow> lock_step s (s\<lparr>lock_pcs := (lock_pcs s)(i := Spinning)\<rparr>)"
| spin: "lock_pcs s i = Spinning \<Longrightarrow> test_and_set (lock_word s) = (old, l) \<Longrightarrow> old \<noteq> 0 \<Longrightarrow>
    lock_step s (s\<lparr>lock_word := l\<rparr>)"
| acquire: "lock_pcs s i = Spinning \<Longrightarrow> test_and_set (lock_word s) = (old, l) \<Longrightarrow> old = 0 \<Longrightarrow>
    lock_step s (s\<lparr>lock_word := l, lock_pcs := (lock_pcs s)(i := Critical)\<rparr>)"
| release: "lock_pcs s i = Critical \<Longrightarrow>
    lock_step s (s\<lparr>lock_word := spinlock_release (lock_word s), lock_pcs := (lock_pcs s)(i := Outside)\<rparr>)"

inductive lock_reachable :: "lock_sys \<Rightarrow> bool" where
  init: "lock_reachable lock_init"
| step: "lock_reachable s \<Longrightarrow> lock_step s t \<Longrightarrow> lock_reachable t"

definition lock_inv :: "lock_sys \<Rightarrow> bool" where
  "lock_inv s \<longleftrightarrow> (lock_word s = 0 \<and> (\<forall>i. lock_pcs s i \<noteq> Critical)
     \<or> lock_word s = 1 \<and> (\<exists>!i. lock_pcs s i = Critical))"

lemma lock_step_inv: "lock_step s t \<Longrightarrow> lock_inv s \<Longrightarrow> lock_inv t"
proof (induction rule: lock_step.induct)
  case (enter s i)
  then show ?case unfolding lock_inv_def by (auto simp: fun_upd_def) (metis lock_pc.distinct)+
next
  case (spin s i old l)
  then show ?case by (auto simp: lock_inv_def test_and_set_def)
next
  case (acquire s i old l)
  then show ?case by (auto simp: lock_inv_def test_and_set_def)
next
  case (release s i)
  then have "\<exists>!i. lock_pcs s i = Critical" by (auto simp: lock_inv_def)
  with release have "\<forall>j. j \<noteq> i \<longrightarrow> lock_pcs s j \<noteq> Critical" by blast
  then show ?case by (auto simp: lock_inv_def spinlock_release_def)
qed

lemma lock_reachable_inv: "lock_reachable s \<Longrightarrow> lock_inv s"
proof (induction rule: lock_reachable.induct)
  case init
  show ?case by (simp add: lock_init_def lock_inv_def)
next
  case (step s t)
  then show ?case by (blast intro: lock_step_inv)
qed

inductive_cases lock_step_from: "lock_step s t"

section \<open>Properties\<close>

text \<open>
  C25. Mutual exclusion: in every state that any number of processors can reach with \<open>spinlock_acquire\<close> and
  \<open>spinlock_release\<close>, at most one of them is between the two, and then the lock word is 1; if none is, the word is 0,
  so the next test-and-set of a waiting processor takes the lock.
\<close>

theorem spinlock_mutual_exclusion:
  assumes "lock_reachable s"
  shows "(\<forall>i j. lock_pcs s i = Critical \<and> lock_pcs s j = Critical \<longrightarrow> i = j) \<and>
    (lock_word s = 1 \<longleftrightarrow> (\<exists>i. lock_pcs s i = Critical)) \<and>
    ((\<forall>i. lock_pcs s i \<noteq> Critical) \<longrightarrow> spinlock_acquire (lock_word s) = Some 1)"
  using lock_reachable_inv [OF assms] by (auto simp: lock_inv_def spinlock_acquire_free)

definition demo_lock :: lock_sys where
  "demo_lock = \<lparr>lock_word = 1, lock_pcs = (\<lambda>_. Outside)(0 := Critical, 1 := Spinning)\<rparr>"

lemma demo_lock_reachable: "lock_reachable demo_lock"
proof -
  let ?s1 = "\<lparr>lock_word = 0, lock_pcs = (\<lambda>_. Outside)(0 := Spinning)\<rparr>"
  let ?s2 = "\<lparr>lock_word = 1, lock_pcs = (\<lambda>_. Outside)(0 := Critical)\<rparr>"
  have 1: "lock_step lock_init ?s1" using lock_step.enter [of lock_init 0] by (simp add: lock_init_def)
  have 2: "lock_step ?s1 ?s2" using lock_step.acquire [of ?s1 0 0 1] by (simp add: test_and_set_def)
  have 3: "lock_step ?s2 demo_lock" using lock_step.enter [of ?s2 1] by (simp add: demo_lock_def)
  show ?thesis
    by (rule lock_reachable.step [OF lock_reachable.step [OF lock_reachable.step [OF lock_reachable.init 1] 2] 3])
qed

theorem spinlock_mutual_exclusion_witness:
  "lock_reachable demo_lock \<and> (lock_word demo_lock = 1 \<longleftrightarrow> (\<exists>i. lock_pcs demo_lock i = Critical))"
  using spinlock_mutual_exclusion [OF demo_lock_reachable] demo_lock_reachable by blast

end
