(* ===== verification/Klog.thy ===== *)
theory Klog
  imports Console_Spec Spinlock
begin

text \<open>
  The kernel log, \<^verbatim>\<open>lib/klogf.c\<close>: each message goes to the serial port and, once the console is up, to the
  screen, under a spinlock. The log is an interface for all later components: \<open>log_ok\<close> is what a caller has to
  provide, \<open>logged\<close> is all that a message changes.
\<close>

section \<open>Operations\<close>

datatype log_level_t = LOG_INFO | LOG_WARN | LOG_ERROR | LOG_FATAL

record log_st = con_st +
  klog_lock :: u32

fun level_tag :: "log_level_t \<Rightarrow> string" where
  "level_tag LOG_INFO = ''[INFO]  ''"
| "level_tag LOG_WARN = ''[WARN]  ''"
| "level_tag LOG_ERROR = ''[ERROR] ''"
| "level_tag LOG_FATAL = ''[FATAL] ''"

fun level_color :: "log_level_t \<Rightarrow> u32" where
  "level_color LOG_INFO = fb_color 0 255 0"
| "level_color LOG_WARN = fb_color 255 255 0"
| "level_color LOG_ERROR = fb_color 255 0 0"
| "level_color LOG_FATAL = fb_color 255 0 255"

definition kvlog :: "log_level_t \<Rightarrow> string \<Rightarrow> varg list \<Rightarrow> 'z log_st_scheme \<Rightarrow> (unit, 'z log_st_scheme) outcome" where
  "kvlog level fmt args s =
     andthen (serial_print (level_tag level) s) (\<lambda>_ s.
     let s = (if console_ready s
              then console_print (level_tag level) (console_set_color (level_color level) (fb_color 0 0 0) s) else s);
         s = (if console_ready s then console_set_color (fb_color 255 255 255) (fb_color 0 0 0) s else s)
     in andthen (if console_ready s then cvprintf fmt args s else Ret () s) (\<lambda>_ s.
        andthen (svprintf fmt args s) (\<lambda>_ s.
        andthen (sprintf newline [] s) (\<lambda>_ s.
        Ret () (if console_ready s then console_putchar (CHR 0x0A) s else s)))))"

definition klog :: "log_level_t \<Rightarrow> string \<Rightarrow> varg list \<Rightarrow> 'z log_st_scheme \<Rightarrow> (unit, 'z log_st_scheme) outcome" where
  "klog level fmt args s =
     (case spinlock_acquire (klog_lock s) of
        None \<Rightarrow> Hang
      | Some l \<Rightarrow> andthen (kvlog level fmt args (s\<lparr>klog_lock := l\<rparr>)) (\<lambda>_ s.
          Ret () (s\<lparr>klog_lock := spinlock_release (klog_lock s)\<rparr>)))"

section \<open>What a message changes\<close>

definition log_ok :: "'z log_st_scheme \<Rightarrow> bool" where
  "log_ok s \<longleftrightarrow> uart_live s \<and> klog_lock s = 0 \<and> (console_ready s \<longrightarrow> con_ok s)"

text \<open>Memory that a message may write: cells and screen of a console that is up.\<close>

definition log_dirty :: "'z log_st_scheme \<Rightarrow> u64 set" where
  "log_dirty s = (if console_ready s then con_dirty s else {})"

definition logged :: "string \<Rightarrow> 'z log_st_scheme \<Rightarrow> 'z log_st_scheme \<Rightarrow> bool" where
  "logged str s t \<longleftrightarrow>
     t = s\<lparr>now := now t, events := events s @ map (\<lambda>c. OutB COM1 (of_char c)) str, mem := mem t,
           cursor_x := cursor_x t, cursor_y := cursor_y t, fg_color := fg_color t, bg_color := bg_color t\<rparr> \<and>
     (\<forall>x. x \<notin> log_dirty s \<longrightarrow> mem t x = mem s x)"

text \<open>The strings among the arguments are not in memory that the message writes.\<close>

definition args_clear :: "'z log_st_scheme \<Rightarrow> string \<Rightarrow> varg list \<Rightarrow> bool" where
  "args_clear s fmt args \<longleftrightarrow> (\<forall>a p. (a, p) \<in> set (fmt_strings fmt args) \<longrightarrow>
     (\<forall>m. (\<forall>x. x \<notin> log_dirty s \<longrightarrow> m x = mem s x) \<longrightarrow> ref_str m a p = ref_str (mem s) a p))"

lemma logged_sel:
  assumes "logged str s t"
  shows "con_initialized t = con_initialized s" "con_buffer t = con_buffer s" "cols t = cols s" "rows t = rows s"
    "fb_addr t = fb_addr s" "fb_height t = fb_height s" "fb_pitch t = fb_pitch s" "klog_lock t = klog_lock s"
    "log_dirty t = log_dirty s" "port_in t = port_in s"
proof -
  have e: "t = s\<lparr>now := now t, events := events s @ map (\<lambda>c. OutB COM1 (of_char c)) str, mem := mem t,
      cursor_x := cursor_x t, cursor_y := cursor_y t, fg_color := fg_color t, bg_color := bg_color t\<rparr>"
    using assms by (simp add: logged_def)
  show q: "con_initialized t = con_initialized s" "con_buffer t = con_buffer s" "cols t = cols s" "rows t = rows s"
    "fb_addr t = fb_addr s" "fb_height t = fb_height s" "fb_pitch t = fb_pitch s" "klog_lock t = klog_lock s" "port_in t = port_in s"
    by (subst e, simp)+
  show "log_dirty t = log_dirty s"
    by (simp add: log_dirty_def con_dirty_def con_bytes_def con_cells_def fb_size_def console_ready_def q)
qed

lemma logged_refl: "logged [] s s"
  by (simp add: logged_def)

lemma logged_trans:
  assumes "logged xs s t" and "logged ys t u"
  shows "logged (xs @ ys) s u"
proof -
  have "u = t\<lparr>now := now u, events := events t @ map (\<lambda>c. OutB COM1 (of_char c)) ys, mem := mem u,
      cursor_x := cursor_x u, cursor_y := cursor_y u, fg_color := fg_color u, bg_color := bg_color u\<rparr>"
    using assms(2) by (simp add: logged_def)
  also have "t = s\<lparr>now := now t, events := events s @ map (\<lambda>c. OutB COM1 (of_char c)) xs, mem := mem t,
      cursor_x := cursor_x t, cursor_y := cursor_y t, fg_color := fg_color t, bg_color := bg_color t\<rparr>"
    using assms(1) by (simp add: logged_def)
  finally have "u = s\<lparr>now := now u, events := events s @ map (\<lambda>c. OutB COM1 (of_char c)) (xs @ ys), mem := mem u,
      cursor_x := cursor_x u, cursor_y := cursor_y u, fg_color := fg_color u, bg_color := bg_color u\<rparr>" by simp
  then show ?thesis using assms logged_sel(9) [OF assms(1)] by (simp add: logged_def)
qed

lemma serial_logged:
  fixes s t :: "'z log_st_scheme"
  assumes "serial_sent str s t"
  shows "logged str s t"
  using assms by (auto simp: serial_sent_def logged_def)

lemma con_step_logged:
  fixes s t :: "'z log_st_scheme"
  assumes "con_step s t" and "console_ready s"
  shows "logged [] s t"
proof -
  have e: "t = s\<lparr>mem := mem t, cursor_x := cursor_x t, cursor_y := cursor_y t\<rparr>" using assms(1) by (simp add: con_step_def)
  have "now t = now s" "events t = events s" "fg_color t = fg_color s" "bg_color t = bg_color s" by (subst e, simp)+
  then have "t = s\<lparr>now := now t, events := events s @ map (\<lambda>c. OutB COM1 (of_char c)) [], mem := mem t,
           cursor_x := cursor_x t, cursor_y := cursor_y t, fg_color := fg_color t, bg_color := bg_color t\<rparr>" using e by simp
  then show ?thesis using assms by (simp add: logged_def log_dirty_def con_dirty_def con_step_def)
qed

lemma color_logged: "logged [] s (console_set_color fg bg s)"
  by (simp add: logged_def console_set_color_def)

lemma con_ok_color [simp]: "con_ok (console_set_color fg bg s) = con_ok s"
  by (simp add: con_ok_def console_set_color_def font_ok_def con_cells_def con_bytes_def fb_ok_def fb_size_def fb_bytes_def
      glyph_byte_addr_def)

lemma ready_color [simp]: "console_ready (console_set_color fg bg s) = console_ready s"
  by (simp add: console_ready_def console_set_color_def)

lemma con_ok_serial:
  fixes s t :: "'z log_st_scheme"
  assumes "serial_sent str s t"
  shows "con_ok t = con_ok s"
  using assms by (auto simp: serial_sent_def con_ok_def font_ok_def con_cells_def con_bytes_def fb_ok_def fb_size_def fb_bytes_def
      glyph_byte_addr_def)

lemma logged_live: "logged str s t \<Longrightarrow> uart_live t = uart_live s"
  by (drule logged_sel(10)) (simp add: uart_live_def uart_ready_def)

lemma logged_ready: "logged str s t \<Longrightarrow> console_ready t = console_ready s"
  by (drule logged_sel(1)) (simp add: console_ready_def)

text \<open>\<open>logs r str s\<close>: the step returns, has sent \<open>str\<close> over the line, and changed no more than a message may.\<close>

definition logs :: "('a, 'z log_st_scheme) outcome \<Rightarrow> string \<Rightarrow> 'z log_st_scheme \<Rightarrow> bool" where
  "logs r str s \<longleftrightarrow> returns r (\<lambda>_ t. logged str s t \<and> (console_ready t \<longrightarrow> con_ok t))"

lemma logs_andthen:
  assumes "logs r xs s" and "\<And>a t. logged xs s t \<Longrightarrow> (console_ready t \<longrightarrow> con_ok t) \<Longrightarrow> logs (k a t) ys t"
  shows "logs (andthen r k) (xs @ ys) s"
proof -
  obtain a t where t: "r = Ret a t" "logged xs s t" "console_ready t \<longrightarrow> con_ok t"
    using assms(1) by (auto simp: logs_def returns_conv)
  from assms(2) [OF t(2,3)] have "logs (k a t) ys t" .
  then show ?thesis using logged_trans [OF t(2)] by (auto simp: t(1) logs_def elim!: returns_weaken)
qed

lemma logs_cong: "logs r xs s \<Longrightarrow> xs = ys \<Longrightarrow> logs r ys s"
  by simp

lemma logs_state:
  assumes "logged [] s t" and "logs r xs t"
  shows "logs r xs s"
  using assms logged_trans [OF assms(1)] by (auto simp: logs_def elim!: returns_weaken)

lemma logs_serial:
  fixes s :: "'z log_st_scheme"
  assumes "returns r (\<lambda>_ t. uart_live t \<and> serial_sent str s t)" and "console_ready s \<longrightarrow> con_ok s"
  shows "logs r str s"
  using assms(1) unfolding logs_def
proof (rule returns_weaken)
  fix a t assume t: "uart_live t \<and> serial_sent str s t"
  then have l: "logged str s t" by (simp add: serial_logged)
  then show "logged str s t \<and> (console_ready t \<longrightarrow> con_ok t)"
    using assms(2) con_ok_serial [of str s t] logged_ready [OF l] t by simp
qed

lemma logs_console:
  fixes s :: "'z log_st_scheme"
  assumes "console_ready s" and "con_ok s"
  shows "logs (Ret a (console_print str s)) [] s"
proof -
  have k: "kept s (console_print str s)" by (rule console_print_ok(1) [OF assms(2)])
  then have "logged [] s (console_print str s)" unfolding kept_def by (blast intro: con_step_logged assms(1))
  then show ?thesis using k by (simp add: logs_def kept_def)
qed

lemma logged_format:
  assumes "logged xs s t" and "args_clear s fmt args"
  shows "ref_format (mem t) fmt args = ref_format (mem s) fmt args" and "args_clear t fmt args"
proof -
  have m: "\<forall>x. x \<notin> log_dirty s \<longrightarrow> mem t x = mem s x" using assms(1) by (simp add: logged_def)
  have e: "ref_str (mem t) a p = ref_str (mem s) a p" if "(a, p) \<in> set (fmt_strings fmt args)" for a p
    using assms(2) that m unfolding args_clear_def by blast
  show "ref_format (mem t) fmt args = ref_format (mem s) fmt args" by (rule ref_format_cong) (rule e)
  have "\<forall>x. x \<notin> log_dirty s \<longrightarrow> m x = mem s x" if "\<forall>x. x \<notin> log_dirty t \<longrightarrow> m x = mem t x" for m
    using that logged_sel(9) [OF assms(1)] \<open>\<forall>x. x \<notin> log_dirty s \<longrightarrow> mem t x = mem s x\<close> by simp
  then show "args_clear t fmt args" using assms(2) e unfolding args_clear_def by metis
qed

lemma kvlog_logs:
  assumes "uart_live s" and "console_ready s \<longrightarrow> con_ok s" and "ref_format (mem s) fmt args = Some out" and "args_clear s fmt args"
  shows "logs (kvlog level fmt args s) (level_tag level @ out @ newline) s"
  unfolding kvlog_def
proof (rule logs_andthen [OF logs_serial])
  show "returns (serial_print (level_tag level) s) (\<lambda>_ t. uart_live t \<and> serial_sent (level_tag level) s t)"
    by (rule serial_print_sent [OF assms(1)])
  show "console_ready s \<longrightarrow> con_ok s" by fact
  fix s1 assume l1: "logged (level_tag level) s s1" and ok1: "console_ready s1 \<longrightarrow> con_ok s1"
  let ?p = "console_print (level_tag level) (console_set_color (level_color level) (fb_color 0 0 0) s1)"
  define s2 where "s2 = (if console_ready s1 then ?p else s1)"
  define s3 where "s3 = (if console_ready s2 then console_set_color (fb_color 255 255 255) (fb_color 0 0 0) s2 else s2)"
  have "logged [] s1 s2 \<and> (console_ready s2 \<longrightarrow> con_ok s2)"
  proof (cases "console_ready s1")
    case True
    have "logs (Ret () ?p) [] (console_set_color (level_color level) (fb_color 0 0 0) s1)"
      using True ok1 by (intro logs_console) simp_all
    then have "logs (Ret () ?p) [] s1" by (rule logs_state [OF color_logged])
    then show ?thesis using True by (simp add: logs_def s2_def)
  next
    case False
    then show ?thesis by (simp add: s2_def logged_refl)
  qed
  then have l2: "logged [] s1 s2" and ok2: "console_ready s2 \<longrightarrow> con_ok s2" by simp_all
  have l3: "logged [] s2 s3" by (simp add: s3_def color_logged logged_refl)
  have ok3: "console_ready s3 \<longrightarrow> con_ok s3" using ok2 logged_ready [OF l3] by (simp add: s3_def)
  have l03: "logged (level_tag level) s s3" using logged_trans [OF l1 logged_trans [OF l2 l3]] by simp
  have "logs (andthen (if console_ready s3 then cvprintf fmt args s3 else Ret () s3) (\<lambda>_ s.
        andthen (svprintf fmt args s) (\<lambda>_ s. andthen (sprintf newline [] s) (\<lambda>_ s.
        Ret () (if console_ready s then console_putchar (CHR 0x0A) s else s))))) ([] @ out @ newline @ []) s3"
  proof (rule logs_andthen)
    show "logs (if console_ready s3 then cvprintf fmt args s3 else Ret () s3) [] s3"
    proof (cases "console_ready s3")
      case True
      have d: "log_dirty s3 = con_dirty s3" using True by (simp add: log_dirty_def)
      have ok: "con_ok s3" and f: "ref_format (mem s3) fmt args = Some out"
        using True ok3 logged_format(1) [OF l03 assms(4)] assms(3) by simp_all
      have "cvprintf fmt args s3 = Ret () (console_print out s3)"
        by (rule cvprintf_prints [OF ok f]) (use logged_format(2) [OF l03 assms(4)] in \<open>unfold args_clear_def d, blast\<close>)
      then show ?thesis using True ok3 logs_console by simp
    next
      case False
      then show ?thesis by (simp add: logs_def logged_refl)
    qed
    fix s4 assume l4: "logged [] s3 s4" and ok4: "console_ready s4 \<longrightarrow> con_ok s4"
    have l04: "logged (level_tag level) s s4" using logged_trans [OF l03 l4] by simp
    have live4: "uart_live s4" and f4: "ref_format (mem s4) fmt args = Some out"
      using logged_live [OF l04] assms(1,3) logged_format(1) [OF l04 assms(4)] by simp_all
    show "logs (andthen (svprintf fmt args s4) (\<lambda>_ s. andthen (sprintf newline [] s) (\<lambda>_ s.
        Ret () (if console_ready s then console_putchar (CHR 0x0A) s else s)))) (out @ newline @ []) s4"
    proof (rule logs_andthen [OF logs_serial [OF svprintf_returns [OF live4 f4] ok4]])
      fix s5 assume l5: "logged out s4 s5" and ok5: "console_ready s5 \<longrightarrow> con_ok s5"
      have live5: "uart_live s5" using logged_live [OF l5] live4 by simp
      have nl: "ref_format (mem s5) newline [] = Some newline" by (rule ref_format_plain) (simp add: newline_def)
      have "returns (sprintf newline [] s5) (\<lambda>_ t. uart_live t \<and> serial_sent newline s5 t)"
        using svprintf_returns [OF live5 nl] by (simp add: sprintf_def)
      then show "logs (andthen (sprintf newline [] s5) (\<lambda>_ s.
          Ret () (if console_ready s then console_putchar (CHR 0x0A) s else s))) (newline @ []) s5"
        by (rule logs_andthen [OF logs_serial]) (use ok5 logs_console [of _ "()" "[CHR 0x0A]"] in \<open>auto simp: logs_def logged_refl\<close>)
    qed
  qed
  then have "logs (andthen (if console_ready s3 then cvprintf fmt args s3 else Ret () s3) (\<lambda>_ s.
        andthen (svprintf fmt args s) (\<lambda>_ s. andthen (sprintf newline [] s) (\<lambda>_ s.
        Ret () (if console_ready s then console_putchar (CHR 0x0A) s else s))))) (out @ newline) s1"
    using logs_state [OF logged_trans [OF l2 l3, unfolded append_Nil]] by (simp only: append_Nil append_Nil2)
  then show "logs (let s = (if console_ready s1 then ?p else s1);
         s = (if console_ready s then console_set_color (fb_color 255 255 255) (fb_color 0 0 0) s else s)
     in andthen (if console_ready s then cvprintf fmt args s else Ret () s) (\<lambda>_ s.
        andthen (svprintf fmt args s) (\<lambda>_ s.
        andthen (sprintf newline [] s) (\<lambda>_ s.
        Ret () (if console_ready s then console_putchar (CHR 0x0A) s else s))))) (out @ newline) s1"
    by (simp only: Let_def s2_def [symmetric] s3_def [symmetric])
qed

lemma logged_lock:
  "logged str (s\<lparr>klog_lock := l\<rparr>) t \<Longrightarrow> logged str s (t\<lparr>klog_lock := klog_lock s\<rparr>)"
  unfolding logged_def log_dirty_def console_ready_def con_dirty_def con_bytes_def con_cells_def fb_size_def
  by (cases s; cases t) (simp add: log_st.defs)

lemma lock_indep [simp]:
  "uart_live (s\<lparr>klog_lock := l\<rparr>) = uart_live s" "console_ready (s\<lparr>klog_lock := l\<rparr>) = console_ready s"
  "con_ok (s\<lparr>klog_lock := l\<rparr>) = con_ok s" "args_clear (s\<lparr>klog_lock := l\<rparr>) fmt args = args_clear s fmt args"
  by (simp_all add: uart_live_def uart_ready_def console_ready_def con_ok_def font_ok_def con_cells_def con_bytes_def fb_ok_def
      fb_size_def fb_bytes_def glyph_byte_addr_def args_clear_def log_dirty_def con_dirty_def)

lemma klog_returns:
  assumes "log_ok s" and "ref_format (mem s) fmt args = Some out" and "args_clear s fmt args"
  shows "returns (klog level fmt args s) (\<lambda>_ t. logged (level_tag level @ out @ newline) s t \<and> log_ok t)"
proof -
  let ?s = "s\<lparr>klog_lock := 1\<rparr>"
  have l: "klog_lock s = 0" "uart_live s" "console_ready s \<longrightarrow> con_ok s" using assms(1) by (simp_all add: log_ok_def)
  have "logs (kvlog level fmt args ?s) (level_tag level @ out @ newline) ?s"
    using l assms(2,3) by (intro kvlog_logs) simp_all
  then obtain t where t: "kvlog level fmt args ?s = Ret () t" "logged (level_tag level @ out @ newline) ?s t" "console_ready t \<longrightarrow> con_ok t"
    by (auto simp: logs_def returns_conv)
  have lt: "logged (level_tag level @ out @ newline) s (t\<lparr>klog_lock := 0\<rparr>)" using logged_lock [OF t(2)] l(1) by simp
  have "log_ok (t\<lparr>klog_lock := 0\<rparr>)" using logged_live [OF lt] l(2) t(3) by (simp add: log_ok_def)
  then show ?thesis
    using l(1) lt by (simp add: klog_def spinlock_acquire_free t(1) spinlock_release_def)
qed

text \<open>
  Most messages of the kernel take numbers and literal strings only. Their text does not depend on memory, and
  \<open>klog_text\<close> needs no more than a look at the format string.
\<close>

lemmas format_simps = ref_format_parse fmt_strings.simps parse_spec_def parse_width_def parse_prec_def parse_length_def cur_def
  ref_convert_code conv_strings_def

definition text_of :: "string \<Rightarrow> varg list \<Rightarrow> string" where
  "text_of fmt args = the (ref_format (\<lambda>_. 0) fmt args)"

definition plain_format :: "string \<Rightarrow> varg list \<Rightarrow> bool" where
  "plain_format fmt args \<longleftrightarrow> ref_format (\<lambda>_. 0) fmt args \<noteq> None \<and>
     list_all (\<lambda>(a, k). case a of VLit str \<Rightarrow> True | VWord w \<Rightarrow> False) (fmt_strings fmt args)"

lemma ref_str_lit: "ref_str m (VLit str) k = ref_str m' (VLit str) k"
proof -
  have "str_char m (VLit str) = str_char m' (VLit str)" by (rule ext) (simp add: str_char_def)
  then show ?thesis by (simp add: ref_str_def str_len_def)
qed

lemma plain_format_strings:
  assumes "plain_format fmt args" and "(a, k) \<in> set (fmt_strings fmt args)"
  shows "ref_str m a k = ref_str m' a k"
proof -
  obtain str where "a = VLit str"
    using assms by (cases a) (auto simp: plain_format_def list_all_iff)
  then show ?thesis by (simp only: ref_str_lit [of m str k m'])
qed

lemma plain_format_text: "plain_format fmt args \<Longrightarrow> ref_format m fmt args = Some (text_of fmt args)"
  using ref_format_cong [of fmt args m "\<lambda>_. 0"] plain_format_strings [of fmt args]
  by (auto simp: plain_format_def text_of_def)

lemma plain_format_clear: "plain_format fmt args \<Longrightarrow> args_clear s fmt args"
  using plain_format_strings unfolding args_clear_def by blast

lemma klog_text:
  assumes "log_ok s" and "plain_format fmt args"
  shows "returns (klog level fmt args s) (\<lambda>_ t. logged (level_tag level @ text_of fmt args @ newline) s t \<and> log_ok t)"
  by (rule klog_returns [OF assms(1) plain_format_text plain_format_clear]) (rule assms(2))+

lemma klog_textE:
  assumes "log_ok s" and "plain_format fmt args"
  obtains t where "klog level fmt args s = Ret () t" and "logged (level_tag level @ text_of fmt args @ newline) s t" and "log_ok t"
  using klog_text [OF assms, of level] by (auto simp: returns_conv)

lemma klog_ok:
  "log_ok s \<Longrightarrow> plain_format fmt args \<Longrightarrow> returns (klog level fmt args s) (\<lambda>_ t. log_ok t \<and> (\<exists>str. logged str s t))"
  by (rule returns_weaken [OF klog_text]) auto

lemma logged_events: "logged str s t \<Longrightarrow> events t = events s @ map (\<lambda>c. OutB COM1 (of_char c)) str"
proof -
  assume "logged str s t"
  then have e: "t = s\<lparr>now := now t, events := events s @ map (\<lambda>c. OutB COM1 (of_char c)) str, mem := mem t,
      cursor_x := cursor_x t, cursor_y := cursor_y t, fg_color := fg_color t, bg_color := bg_color t\<rparr>" by (simp add: logged_def)
  show ?thesis by (subst e) simp
qed

lemma logged_mem: "logged str s t \<Longrightarrow> x \<notin> log_dirty s \<Longrightarrow> mem t x = mem s x"
  by (simp add: logged_def)

text \<open>\<open>log_frame s t\<close>: outside memory, a step changes no more than a message does.\<close>

definition log_frame :: "'z log_st_scheme \<Rightarrow> 'z log_st_scheme \<Rightarrow> bool" where
  "log_frame s t \<longleftrightarrow> t = s\<lparr>now := now t, events := events t, mem := mem t,
     cursor_x := cursor_x t, cursor_y := cursor_y t, fg_color := fg_color t, bg_color := bg_color t\<rparr>"

lemma logged_frame: "logged str s t \<Longrightarrow> log_frame s t"
proof -
  assume l: "logged str s t"
  then have "t = s\<lparr>now := now t, events := events s @ map (\<lambda>c. OutB COM1 (of_char c)) str, mem := mem t,
      cursor_x := cursor_x t, cursor_y := cursor_y t, fg_color := fg_color t, bg_color := bg_color t\<rparr>" by (simp add: logged_def)
  then show ?thesis unfolding log_frame_def logged_events [OF l] .
qed

lemma mem_frame_upd: "log_frame s (s\<lparr>mem := m\<rparr>)"
  by (simp add: log_frame_def)

lemma log_frame_trans:
  assumes "log_frame s t" and "log_frame t u"
  shows "log_frame s u"
proof -
  have "u = t\<lparr>now := now u, events := events u, mem := mem u, cursor_x := cursor_x u, cursor_y := cursor_y u, fg_color := fg_color u,
    bg_color := bg_color u\<rparr>" using assms(2) by (simp add: log_frame_def)
  also have "t = s\<lparr>now := now t, events := events t, mem := mem t, cursor_x := cursor_x t, cursor_y := cursor_y t, fg_color := fg_color t,
    bg_color := bg_color t\<rparr>" using assms(1) by (simp add: log_frame_def)
  finally show ?thesis by (simp add: log_frame_def)
qed

text \<open>\<open>log_ok\<close> and \<open>log_dirty\<close> do not depend on memory nor on fields of later components.\<close>

lemmas log_ok_defs = log_ok_def uart_live_def uart_ready_def console_ready_def con_ok_def font_ok_def con_cells_def con_bytes_def fb_ok_def
  fb_size_def fb_bytes_def glyph_byte_addr_def log_dirty_def con_dirty_def

lemma log_mem [simp]: "log_ok (s\<lparr>mem := m\<rparr>) = log_ok s" "log_dirty (s\<lparr>mem := m\<rparr>) = log_dirty s"
  by (simp_all add: log_ok_defs)

section \<open>Properties\<close>

definition demo_log :: log_st where
  "demo_log = con_st.extend demo_con \<lparr>klog_lock = 0\<rparr>"

lemma demo_log_ok: "log_ok demo_log"
proof -
  have "con_ok demo_log = con_ok demo_con"
    by (simp add: demo_log_def demo_con_def con_st.defs font_st.defs con_ok_def font_ok_def con_cells_def con_bytes_def fb_ok_def
      fb_size_def fb_bytes_def glyph_byte_addr_def)
  moreover have "uart_live demo_log"
    by (simp add: uart_live_def uart_ready_def demo_log_def demo_con_def demo_font_def demo_fb_def con_st.defs font_st.defs fb_st.defs
        paging_st.defs hw.defs demo_hw_def)
  moreover have "klog_lock demo_log = 0" by (simp add: demo_log_def con_st.defs)
  ultimately show ?thesis using demo_con_ok by (simp add: log_ok_def)
qed

text \<open>
  C5. A log message returns, with the lock free again: it sends the level's tag, the formatted text and a line
  end over the serial line, and changes nothing else but the cells, the screen, the cursor and the colours of a
  console that is up (nothing at all before that).
\<close>

theorem klog_writes_message:
  assumes "log_ok s" and "ref_format (mem s) fmt args = Some out" and "args_clear s fmt args"
  shows "\<exists>t. klog level fmt args s = Ret () t \<and> log_ok t \<and>
    t = s\<lparr>now := now t, events := events s @ map (\<lambda>c. OutB COM1 (of_char c)) (level_tag level @ out @ newline), mem := mem t,
          cursor_x := cursor_x t, cursor_y := cursor_y t, fg_color := fg_color t, bg_color := bg_color t\<rparr> \<and>
    (\<forall>x. x \<notin> con_bytes s \<union> region (fb_addr s) (fb_size s) \<or> \<not> console_ready s \<longrightarrow> mem t x = mem s x)"
proof -
  from klog_returns [OF assms, of level] obtain t
    where t: "klog level fmt args s = Ret () t" "logged (level_tag level @ out @ newline) s t" "log_ok t"
    by (auto simp: returns_conv)
  then show ?thesis by (intro exI [of _ t]) (auto simp: logged_def log_dirty_def con_dirty_def)
qed

theorem klog_writes_message_witness:
  "\<exists>t. klog LOG_WARN ''n=%d'' [VWord 7] demo_log = Ret () t \<and>
    events t = events demo_log @ map (\<lambda>c. OutB COM1 (of_char c)) (''[WARN]  '' @ ''n=7'' @ newline)"
proof -
  have "args_clear demo_log ''n=%d'' [VWord 7]" by (simp only: args_clear_def demo_format_con(2) list.set empty_iff) blast
  from klog_writes_message [OF demo_log_ok demo_format_con(1) this, of LOG_WARN] obtain t
    where t: "klog LOG_WARN ''n=%d'' [VWord 7] demo_log = Ret () t"
      "t = demo_log\<lparr>now := now t, events := events demo_log @ map (\<lambda>c. OutB COM1 (of_char c)) (level_tag LOG_WARN @ ''n=7'' @ newline), mem := mem t,
          cursor_x := cursor_x t, cursor_y := cursor_y t, fg_color := fg_color t, bg_color := bg_color t\<rparr>" by blast
  show ?thesis using t(1) arg_cong [where f = events, OF t(2)] by simp
qed

text \<open>
  A processor that logs while it holds the log's lock, as an interrupt handler does when it interrupts a message
  on the same processor, never returns.
\<close>

theorem klog_reentrant_hangs:
  assumes "klog_lock s \<noteq> 0"
  shows "klog level fmt args s = Hang"
  using assms by (simp add: klog_def spinlock_acquire_taken)

end
