(* ===== verification/Multiboot.thy ===== *)
theory Multiboot
  imports Klog
begin

text \<open>
  The boot information, \<^verbatim>\<open>kernel/multiboot2.c\<close>: a list of tags in memory that the boot loader leaves, each with a
  type, a size and data, aligned to 8 bytes and ended by a tag of type 0. \<open>tag_chain\<close> relates the list in memory
  to the list of the tags' addresses; the theory shows that the search for the ACPI root pointer returns on every
  such list and what it returns, and that a tag of size 0 makes the walks run for ever.
\<close>

section \<open>Operations\<close>

definition MB2_TAG_END :: u32 where "MB2_TAG_END = 0"
definition MB2_TAG_CMDLINE :: u32 where "MB2_TAG_CMDLINE = 1"
definition MB2_TAG_BOOTLOADER :: u32 where "MB2_TAG_BOOTLOADER = 2"
definition MB2_TAG_MMAP :: u32 where "MB2_TAG_MMAP = 6"
definition MB2_TAG_FRAMEBUFFER :: u32 where "MB2_TAG_FRAMEBUFFER = 8"
definition MB2_TAG_ACPI_V1 :: u32 where "MB2_TAG_ACPI_V1 = 14"
definition MB2_TAG_ACPI_V2 :: u32 where "MB2_TAG_ACPI_V2 = 15"

lemmas mb2_tag_defs = MB2_TAG_END_def MB2_TAG_CMDLINE_def MB2_TAG_BOOTLOADER_def MB2_TAG_MMAP_def MB2_TAG_FRAMEBUFFER_def
  MB2_TAG_ACPI_V1_def MB2_TAG_ACPI_V2_def

text \<open>\<open>mb2_tag_t\<close>: type at 0, size at 4; \<open>info->tags\<close> at offset 8.\<close>

definition tag_type :: "memory \<Rightarrow> u64 \<Rightarrow> u32" where "tag_type m tag = load32 m tag"
definition tag_size :: "memory \<Rightarrow> u64 \<Rightarrow> u32" where "tag_size m tag = load32 m (tag + 4)"

definition next_tag :: "memory \<Rightarrow> u64 \<Rightarrow> u64" where
  "next_tag m tag = tag + ucast ((tag_size m tag + 7) AND NOT 7)"

text \<open>
  \<open>mb2_tag_mmap_t\<close>: entry size at 8, entries from 16 on; \<open>mb2_mmap_entry_t\<close>: base address at 0, length at 8, type at 16, 24 bytes.
\<close>

definition mmap_entry_size :: "memory \<Rightarrow> u64 \<Rightarrow> u32" where "mmap_entry_size m mmap = load32 m (mmap + 8)"
definition entry_base :: "memory \<Rightarrow> u64 \<Rightarrow> u64" where "entry_base m e = load64 m e"
definition entry_length :: "memory \<Rightarrow> u64 \<Rightarrow> u64" where "entry_length m e = load64 m (e + 8)"
definition entry_type :: "memory \<Rightarrow> u64 \<Rightarrow> u32" where "entry_type m e = load32 m (e + 16)"

lemmas mmap_layout = mmap_entry_size_def entry_base_def entry_length_def entry_type_def

text \<open>\<open>rsdp_v1_t\<close>: revision at 15, address of the RSDT at 16; \<open>rsdp_v2_t\<close>: address of the XSDT at 24.\<close>

definition rsdp_revision :: "memory \<Rightarrow> u64 \<Rightarrow> u8" where "rsdp_revision m rsdp = load8 m (rsdp + 15)"
definition rsdt_address :: "memory \<Rightarrow> u64 \<Rightarrow> u32" where "rsdt_address m rsdp = load32 m (rsdp + 16)"
definition xsdt_address :: "memory \<Rightarrow> u64 \<Rightarrow> u64" where "xsdt_address m rsdp = load64 m (rsdp + 24)"

definition mmap_count :: "memory \<Rightarrow> u64 \<Rightarrow> int" where
  "mmap_count m mmap = s32_of ((ucast (tag_size m mmap) - 16) div ucast (mmap_entry_size m mmap))"

definition log_mmap :: "u64 \<Rightarrow> 'z log_st_scheme \<Rightarrow> (unit, 'z log_st_scheme) outcome" where
  "log_mmap mmap s =
     (if mmap_entry_size (mem s) mmap = 0 then Undef
      else let count = mmap_count (mem s) mmap in
        andthen (klog LOG_INFO ''Memory map: %d entries'' [VWord (of_int count)] s) (\<lambda>_ s.
        andthen (loop (\<lambda>i s. i < count) (\<lambda>i s.
          let e = mmap + 16 + 24 * of_int i; base = entry_base (mem s) e; len = entry_length (mem s) e
          in andthen (klog LOG_INFO ''  0x%x - 0x%x type=%d'' [VWord base, VWord (base + len), VWord (ucast (entry_type (mem s) e))] s)
            (\<lambda>_ s. Ret (i + 1) s)) 0 s) (\<lambda>_ s. Ret () s)))"

definition mb2_tag :: "u64 \<Rightarrow> 'z log_st_scheme \<Rightarrow> (unit, 'z log_st_scheme) outcome" where
  "mb2_tag tag s =
     (let type = tag_type (mem s) tag in
      if type = MB2_TAG_CMDLINE then klog LOG_INFO ''Cmdline: %s'' [VWord (tag + 8)] s
      else if type = MB2_TAG_BOOTLOADER then klog LOG_INFO ''Bootloader: %s'' [VWord (tag + 8)] s
      else if type = MB2_TAG_MMAP then log_mmap tag s
      else if type = MB2_TAG_ACPI_V1 then
        klog LOG_INFO ''ACPI 1.0 RSDT at 0x%x'' [VWord (ucast (rsdt_address (mem s) (tag + 8)))] s
      else if type = MB2_TAG_ACPI_V2 then
        klog LOG_INFO ''ACPI 2.0 XSDT at 0x%x'' [VWord (xsdt_address (mem s) (tag + 8))] s
      else if type = MB2_TAG_FRAMEBUFFER then
        andthen (klog LOG_INFO ''Framebuffer: %dx%d @ %d bpp at 0x%x''
          [VWord (ucast (framebuffer_width (mem s) tag)), VWord (ucast (framebuffer_height (mem s) tag)),
           VWord (ucast (framebuffer_bpp (mem s) tag)), VWord (framebuffer_addr (mem s) tag)] s) (\<lambda>_ s. fb_init tag s)
      else Ret () s)"

definition mb2_parse :: "u64 \<Rightarrow> 'z log_st_scheme \<Rightarrow> (unit, 'z log_st_scheme) outcome" where
  "mb2_parse info s =
     andthen (loop (\<lambda>tag s. tag_type (mem s) tag \<noteq> MB2_TAG_END)
       (\<lambda>tag s. andthen (mb2_tag tag s) (\<lambda>_ s. Ret (next_tag (mem s) tag) s)) (info + 8) s) (\<lambda>_ s. Ret () s)"

text \<open>The loop of \<open>get_acpi_rsdp\<close> carries the tag, the result and whether it has left the loop by \<open>break\<close>.\<close>

definition rsdp_step :: "u64 \<times> u64 \<times> bool \<Rightarrow> 'z log_st_scheme \<Rightarrow> (u64 \<times> u64 \<times> bool, 'z log_st_scheme) outcome" where
  "rsdp_step = (\<lambda>(tag, result, brk) s.
     if tag_type (mem s) tag = MB2_TAG_ACPI_V2 then Ret (tag, tag + 8, True) s
     else if tag_type (mem s) tag = MB2_TAG_ACPI_V1 then
       andthen (klog LOG_INFO ''RSDP bytes: %x %x %x %x %x %x %x %x''
         (map (\<lambda>i. VWord (ucast (load8 (mem s) (tag + 8 + i)))) [0, 1, 2, 3, 4, 5, 6, 7]) s) (\<lambda>_ s.
       Ret (next_tag (mem s) tag, tag + 8, False) s)
     else Ret (next_tag (mem s) tag, result, False) s)"

definition get_acpi_rsdp :: "u64 \<Rightarrow> 'z log_st_scheme \<Rightarrow> (u64, 'z log_st_scheme) outcome" where
  "get_acpi_rsdp info s =
     andthen (loop (\<lambda>(tag, result, brk) s. \<not> brk \<and> tag_type (mem s) tag \<noteq> MB2_TAG_END) rsdp_step (info + 8, 0, False) s)
       (\<lambda>(tag, result, brk) s. Ret result s)"

section \<open>Lists of tags\<close>

fun tag_chain :: "memory \<Rightarrow> u64 \<Rightarrow> u64 list \<Rightarrow> bool" where
  "tag_chain m t [] \<longleftrightarrow> tag_type m t = MB2_TAG_END"
| "tag_chain m t (x # xs) \<longleftrightarrow> x = t \<and> tag_type m t \<noteq> MB2_TAG_END \<and> tag_chain m (next_tag m t) xs"

text \<open>The end of the list: the address of the final tag.\<close>

fun chain_end :: "memory \<Rightarrow> u64 \<Rightarrow> u64 list \<Rightarrow> u64" where
  "chain_end m t [] = t"
| "chain_end m t (x # xs) = chain_end m (next_tag m t) xs"

text \<open>What the search is meant to return: the first pointer of version 2, or else the last one of version 1.\<close>

definition rsdp_of :: "memory \<Rightarrow> u64 list \<Rightarrow> u64" where
  "rsdp_of m ts =
     (case filter (\<lambda>t. tag_type m t = MB2_TAG_ACPI_V2) ts of
        t # _ \<Rightarrow> t + 8
      | [] \<Rightarrow> (case rev (filter (\<lambda>t. tag_type m t = MB2_TAG_ACPI_V1) ts) of t # _ \<Rightarrow> t + 8 | [] \<Rightarrow> 0))"

definition tags_clear :: "u64 set \<Rightarrow> u64 list \<Rightarrow> bool" where
  "tags_clear D ts \<longleftrightarrow> (\<forall>t\<in>set ts. region t 8 \<inter> D = {})"

text \<open>A list of tags stays as long as its tags' first eight bytes do.\<close>

lemma load_part:
  assumes "\<And>x. x \<in> region a k \<Longrightarrow> m' x = m x" and "i + n \<le> k" and "k \<le> 2 ^ 64"
  shows "load n m' (a + of_nat i) = load n m (a + of_nat i)"
proof (rule load_cong)
  fix j assume "j < n"
  then have "a + of_nat (i + j) \<in> region a k" using assms(2,3) by (intro region_elem) simp_all
  then show "m' (a + of_nat i + of_nat j) = m (a + of_nat i + of_nat j)" using assms(1) by (simp add: add.assoc)
qed

lemma tag_fields_cong:
  assumes "region t 8 \<inter> D = {}" and "\<And>x. x \<notin> D \<Longrightarrow> m' x = m x"
  shows "tag_type m' t = tag_type m t" and "tag_size m' t = tag_size m t" and "next_tag m' t = next_tag m t"
proof -
  have e: "m' x = m x" if "x \<in> region t 8" for x using that assms by blast
  then show "tag_type m' t = tag_type m t" "tag_size m' t = tag_size m t"
    using load_part [of t 8 m' m 0 4] load_part [of t 8 m' m 4 4] by (simp_all add: tag_type_def tag_size_def load32_def)
  then show "next_tag m' t = next_tag m t" by (simp add: next_tag_def)
qed

lemma tag_chain_cong:
  assumes "tags_clear D (ts @ [chain_end m t ts])" and "\<And>x. x \<notin> D \<Longrightarrow> m' x = m x" and "tag_chain m t ts"
  shows "tag_chain m' t ts" and "chain_end m' t ts = chain_end m t ts"
  using assms
proof (induction m t ts rule: tag_chain.induct)
  case (1 m t)
  {
    case 1
    then show ?case using tag_fields_cong [of t D m' m] by (simp add: tags_clear_def)
  next
    case 2
    then show ?case by simp
  }
next
  case (2 m t x xs)
  note IH = "2.IH"
  {
    case 1
    then have "region t 8 \<inter> D = {}" by (simp add: tags_clear_def)
    note f = tag_fields_cong [OF this 1(2)]
    have "tag_chain m' (next_tag m t) xs" using 1 by (intro IH(1)) (simp_all add: tags_clear_def)
    then show ?case using 1(3) f by simp
  next
    case 2
    then have "region t 8 \<inter> D = {}" by (simp add: tags_clear_def)
    note f = tag_fields_cong [OF this 2(2)]
    have "chain_end m' (next_tag m t) xs = chain_end m (next_tag m t) xs" using 2 by (intro IH(2)) (simp_all add: tags_clear_def)
    then show ?case using f by simp
  }
qed

section \<open>The search for the ACPI root pointer\<close>

fun rsdp_scan :: "memory \<Rightarrow> u64 \<Rightarrow> u64 list \<Rightarrow> u64" where
  "rsdp_scan m r [] = r"
| "rsdp_scan m r (t # ts) =
     (if tag_type m t = MB2_TAG_ACPI_V2 then t + 8
      else rsdp_scan m (if tag_type m t = MB2_TAG_ACPI_V1 then t + 8 else r) ts)"

lemma rsdp_scan_of:
  "rsdp_scan m r ts = (case filter (\<lambda>t. tag_type m t = MB2_TAG_ACPI_V2) ts of
        t # _ \<Rightarrow> t + 8
      | [] \<Rightarrow> (case rev (filter (\<lambda>t. tag_type m t = MB2_TAG_ACPI_V1) ts) of t # _ \<Rightarrow> t + 8 | [] \<Rightarrow> r))"
proof (induction ts arbitrary: r)
  case (Cons t ts)
  have e: "(case xs @ [t] of [] \<Rightarrow> r | t # _ \<Rightarrow> t + 8) = (case xs of [] \<Rightarrow> t + 8 | t # _ \<Rightarrow> t + 8)" for xs :: "u64 list"
    by (cases xs) simp_all
  show ?case using Cons by (auto simp: mb2_tag_defs e split: list.splits)
qed simp

lemma rsdp_scan_cong:
  assumes "tags_clear D ts" and "\<And>x. x \<notin> D \<Longrightarrow> m' x = m x"
  shows "rsdp_scan m' r ts = rsdp_scan m r ts"
  using assms(1)
proof (induction ts arbitrary: r)
  case (Cons t ts)
  then show ?case using tag_fields_cong(1) [of t D m' m] assms(2) by (simp add: tags_clear_def)
qed simp

lemma rsdp_format:
  "plain_format ''RSDP bytes: %x %x %x %x %x %x %x %x'' (map (\<lambda>i :: u64. VWord (f i)) [0, 1, 2, 3, 4, 5, 6, 7])"
  by (simp add: plain_format_def format_simps)

lemma rsdp_loop:
  fixes s :: "'z log_st_scheme"
  assumes "tag_chain (mem s) t ts" and "tags_clear (log_dirty s) (ts @ [chain_end (mem s) t ts])" and "log_ok s"
  shows "returns (loop (\<lambda>(tag, result, brk) s. \<not> brk \<and> tag_type (mem s) tag \<noteq> MB2_TAG_END) rsdp_step (t, r, False) s)
    (\<lambda>(tag, result, brk) u. result = rsdp_scan (mem s) r ts \<and> log_ok u \<and> (\<exists>str. logged str s u))"
  using assms
proof (induction ts arbitrary: t r s)
  case Nil
  then show ?case by (subst loop_unfold) (auto intro: logged_refl)
next
  case (Cons x ts)
  then have t: "x = t" "tag_type (mem s) t \<noteq> MB2_TAG_END" "tag_chain (mem s) (next_tag (mem s) t) ts" by simp_all
  have cl: "region t 8 \<inter> log_dirty s = {}" "tags_clear (log_dirty s) (ts @ [chain_end (mem s) (next_tag (mem s) t) ts])"
    using Cons.prems(2) t(1) by (auto simp: tags_clear_def)
  let ?L = "loop (\<lambda>(tag, result, brk) s. \<not> brk \<and> tag_type (mem s) tag \<noteq> MB2_TAG_END) rsdp_step"
  have unf: "?L (t, r, False) s = andthen (rsdp_step (t, r, False) s) ?L" using t(2) by (subst loop_unfold) simp
  consider (v2) "tag_type (mem s) t = MB2_TAG_ACPI_V2" | (v1) "tag_type (mem s) t = MB2_TAG_ACPI_V1"
    | (other) "tag_type (mem s) t \<noteq> MB2_TAG_ACPI_V2" "tag_type (mem s) t \<noteq> MB2_TAG_ACPI_V1" by blast
  then show ?case
  proof cases
    case v2
    then show ?thesis using Cons.prems(3) t(1) unfolding unf
      by (auto simp: rsdp_step_def loop_unfold [where a = "(t, t + 8, True)"] intro: logged_refl)
  next
    case v1
    obtain u str where u: "klog LOG_INFO ''RSDP bytes: %x %x %x %x %x %x %x %x''
         (map (\<lambda>i. VWord (ucast (load8 (mem s) (t + 8 + i)))) [0, 1, 2, 3, 4, 5, 6, 7]) s = Ret () u" "logged str s u" "log_ok u"
      by (rule klog_textE [OF Cons.prems(3) rsdp_format])
    note m = logged_mem [OF u(2)]
    note f = tag_fields_cong [OF cl(1) m] and c = tag_chain_cong [OF cl(2) m t(3)]
    have "rsdp_step (t, r, False) s = Ret (next_tag (mem s) t, t + 8, False) u"
      using v1 u(1) f(3) by (simp add: rsdp_step_def mb2_tag_defs)
    moreover have "returns (?L (next_tag (mem s) t, t + 8, False) u)
        (\<lambda>(tag, result, brk) w. result = rsdp_scan (mem u) (t + 8) ts \<and> log_ok w \<and> (\<exists>str. logged str u w))"
      using c cl(2) u(3) logged_sel(9) [OF u(2)] by (intro Cons.IH) simp_all
    moreover have "rsdp_scan (mem u) (t + 8) ts = rsdp_scan (mem s) r (x # ts)"
      using rsdp_scan_cong [of "log_dirty s" ts "mem u" "mem s" "t + 8"] cl(2) m v1 t(1) by (simp add: tags_clear_def mb2_tag_defs)
    ultimately show ?thesis unfolding unf
      by (auto elim!: returns_weaken intro: logged_trans [OF u(2)])
  next
    case other
    then have "rsdp_step (t, r, False) s = Ret (next_tag (mem s) t, r, False) s" by (simp add: rsdp_step_def)
    moreover have "returns (?L (next_tag (mem s) t, r, False) s)
        (\<lambda>(tag, result, brk) w. result = rsdp_scan (mem s) r ts \<and> log_ok w \<and> (\<exists>str. logged str s w))"
      using t(3) cl(2) Cons.prems(3) by (intro Cons.IH) simp_all
    ultimately show ?thesis using other t(1) unfolding unf by simp
  qed
qed

section \<open>Properties\<close>

text \<open>A boot information with one ACPI pointer of each version, read before the console is up.\<close>

definition demo_tags :: memory where
  "demo_tags = (\<lambda>_. 0)(0x10008 := 14, 0x1000C := 28, 0x10028 := 15, 0x1002C := 44, 0x1005C := 8)"

definition demo_boot :: log_st where
  "demo_boot = demo_log\<lparr>mem := demo_tags, con_initialized := False\<rparr>"

lemma demo_boot_log: "log_ok demo_boot" "log_dirty demo_boot = {}" "mem demo_boot = demo_tags"
  using demo_log_ok by (simp_all add: demo_boot_def log_ok_def log_dirty_def console_ready_def uart_live_def uart_ready_def)

lemma load32_bytes:
  "load32 m a = of_nat (unat (m a) + 256 * (unat (m (a + 1)) + 256 * (unat (m (a + 2)) + 256 * unat (m (a + 3)))))"
proof -
  have "[0..<4] = [0, 1, 2, 3]" by (simp add: upt_rec)
  then show ?thesis by (simp add: load32_def load_def read_bytes_def)
qed

lemma load64_bytes:
  "load64 m a = of_nat (unat (m a) + 256 * (unat (m (a + 1)) + 256 * (unat (m (a + 2)) + 256 * (unat (m (a + 3)) +
    256 * (unat (m (a + 4)) + 256 * (unat (m (a + 5)) + 256 * (unat (m (a + 6)) + 256 * unat (m (a + 7)))))))))"
proof -
  have "[0..<8] = [0, 1, 2, 3, 4, 5, 6, 7]" by (simp add: upt_rec)
  then show ?thesis by (simp add: load64_def load_def read_bytes_def)
qed

lemmas tag_bytes = tag_type_def tag_size_def next_tag_def load32_bytes

lemma demo_chain: "tag_chain demo_tags 0x10008 [0x10008, 0x10028]" "rsdp_of demo_tags [0x10008, 0x10028] = 0x10030"
  by (simp_all add: tag_bytes demo_tags_def mb2_tag_defs rsdp_of_def)

text \<open>
  C33. The search for the ACPI root pointer returns on every well-formed list of tags: it gives the first pointer of
  version 2 if there is one, otherwise the last pointer of version 1, otherwise the null pointer. It changes
  nothing but the log.
\<close>

theorem get_acpi_rsdp_finds:
  assumes "tag_chain (mem s) (info + 8) ts" and "tags_clear (log_dirty s) (ts @ [chain_end (mem s) (info + 8) ts])" and "log_ok s"
  shows "\<exists>t str. get_acpi_rsdp info s = Ret (rsdp_of (mem s) ts) t \<and> log_ok t \<and> logged str s t"
  using rsdp_loop [OF assms, of 0] unfolding get_acpi_rsdp_def rsdp_scan_of rsdp_of_def by (auto simp: returns_conv)

theorem get_acpi_rsdp_finds_witness: "\<exists>t. get_acpi_rsdp 0x10000 demo_boot = Ret 0x10030 t"
  using get_acpi_rsdp_finds [of demo_boot "0x10000" "[0x10008, 0x10028]"] demo_chain
  by (auto simp: demo_boot_log tags_clear_def)

text \<open>
  A tag of size 0 in front of the end makes the walk run for ever.
\<close>

theorem mb2_parse_zero_size_hangs:
  assumes "tag_size (mem s) (info + 8) = 0" and "tag_type (mem s) (info + 8) \<notin> {0, 1, 2, 6, 8, 14, 15}"
  shows "mb2_parse info s = Hang"
proof -
  have "next_tag (mem s) (info + 8) = info + 8" using assms(1) by (simp add: next_tag_def)
  moreover have "mb2_tag (info + 8) s = Ret () s" using assms(2) by (simp add: mb2_tag_def Let_def mb2_tag_defs)
  ultimately have "loop (\<lambda>tag s. tag_type (mem s) tag \<noteq> MB2_TAG_END)
       (\<lambda>tag s. andthen (mb2_tag tag s) (\<lambda>_ s. Ret (next_tag (mem s) tag) s)) (info + 8) s = Hang"
    using assms(2) by (intro loop_hangs [where I = "\<lambda>tag t. tag = info + 8 \<and> t = s"]) (auto simp: mb2_tag_defs)
  then show ?thesis by (simp add: mb2_parse_def)
qed

end
