(* ===== verification/Alloc.thy ===== *)
theory Alloc
  imports Klog
begin

text \<open>
  The kernel heap, \<^verbatim>\<open>lib/alloc.c\<close>: a first-fit allocator over one list of blocks that tile the heap, each
  with a 32-byte header in front of its bytes. The model works on the bytes of memory, as the code does;
  \<open>heap_at\<close> relates them to a list of block sizes and flags, on which \<open>take_first\<close> and \<open>merge_free\<close> say what
  \<open>kmalloc\<close> and \<open>kfree\<close> do.
\<close>

section \<open>Operations\<close>

record heap_st = log_st +
  g_heap_start :: u64
  g_heap_total_size :: u64

definition HEAP_MAGIC :: u32 where "HEAP_MAGIC = 0xF00DF00D"

text \<open>\<open>heap_block_t\<close>: \<open>magic\<close> at offset 0, \<open>size\<close> at 8, \<open>next\<close> at 16, \<open>free\<close> at 24, 32 bytes with padding.\<close>

definition sizeof_heap_block :: u64 where "sizeof_heap_block = 32"

definition blk_magic :: "memory \<Rightarrow> u64 \<Rightarrow> u32" where "blk_magic m b = load32 m b"
definition blk_size :: "memory \<Rightarrow> u64 \<Rightarrow> u64" where "blk_size m b = load64 m (b + 8)"
definition blk_next :: "memory \<Rightarrow> u64 \<Rightarrow> u64" where "blk_next m b = load64 m (b + 16)"
definition blk_free :: "memory \<Rightarrow> u64 \<Rightarrow> bool" where "blk_free m b \<longleftrightarrow> load8 m (b + 24) \<noteq> 0"

definition set_magic :: "u64 \<Rightarrow> u32 \<Rightarrow> memory \<Rightarrow> memory" where "set_magic b v m = store32 m b v"
definition set_size :: "u64 \<Rightarrow> u64 \<Rightarrow> memory \<Rightarrow> memory" where "set_size b v m = store64 m (b + 8) v"
definition set_next :: "u64 \<Rightarrow> u64 \<Rightarrow> memory \<Rightarrow> memory" where "set_next b v m = store64 m (b + 16) v"
definition set_free :: "u64 \<Rightarrow> bool \<Rightarrow> memory \<Rightarrow> memory" where "set_free b v m = store8 m (b + 24) (if v then 1 else 0)"

definition kalloc_init :: "u64 \<Rightarrow> u64 \<Rightarrow> 'z heap_st_scheme \<Rightarrow> (unit, 'z heap_st_scheme) outcome" where
  "kalloc_init start sz s =
     (if sz < sizeof_heap_block then kpanic ''Heap size too small'' [] s
      else klog LOG_INFO ''Heap initialized at %p, size %u bytes'' [VWord start, VWord sz]
        (s\<lparr>g_heap_start := start, g_heap_total_size := sz,
           mem := set_free start True (set_next start 0 (set_size start (sz - sizeof_heap_block) (set_magic start HEAP_MAGIC (mem s))))\<rparr>))"

text \<open>
  The search loop of \<open>kmalloc\<close> only reads: it ends at the first free block that is large enough, or at the null
  pointer. \<open>None\<close>: it never ends (the list of blocks is a cycle).
\<close>

partial_function (option) first_fit :: "memory \<Rightarrow> u64 \<Rightarrow> u64 \<Rightarrow> u64 option" where
  "first_fit m sz current =
     (if current = 0 then Some 0
      else if blk_free m current \<and> sz \<le> blk_size m current then Some current
      else first_fit m sz (blk_next m current))"

definition take_block :: "u64 \<Rightarrow> u64 \<Rightarrow> memory \<Rightarrow> memory" where
  "take_block sz current m =
     set_free current False
       (if sz + sizeof_heap_block + 8 \<le> blk_size m current then
          let next_block = current + sizeof_heap_block + sz;
              m = set_magic next_block HEAP_MAGIC m;
              m = set_size next_block (blk_size m current - sz - sizeof_heap_block) m;
              m = set_next next_block (blk_next m current) m;
              m = set_free next_block True m;
              m = set_size current sz m
          in set_next current next_block m
        else m)"

definition kmalloc :: "u64 \<Rightarrow> 'z heap_st_scheme \<Rightarrow> (u64, 'z heap_st_scheme) outcome" where
  "kmalloc sz s =
     (if sz = 0 then Ret 0 s
      else let sz = (sz + 7) AND NOT 7 in
        case first_fit (mem s) sz (g_heap_start s) of
          None \<Rightarrow> Hang
        | Some current \<Rightarrow>
            if current \<noteq> 0 then Ret (current + sizeof_heap_block) (s\<lparr>mem := take_block sz current (mem s)\<rparr>)
            else andthen (klog LOG_ERROR ''kmalloc failed to allocate %u bytes'' [VWord sz] s) (\<lambda>_ s. Ret 0 s))"

partial_function (option) coalesce :: "u64 \<Rightarrow> memory \<Rightarrow> memory option" where
  "coalesce current m =
     (if current = 0 then Some m
      else if blk_free m current \<and> blk_next m current \<noteq> 0 \<and> blk_free m (blk_next m current) then
        coalesce current
          (let m = set_size current (blk_size m current + (sizeof_heap_block + blk_size m (blk_next m current))) m
           in set_next current (blk_next m (blk_next m current)) m)
      else coalesce (blk_next m current) m)"

definition kfree :: "u64 \<Rightarrow> 'z heap_st_scheme \<Rightarrow> (unit, 'z heap_st_scheme) outcome" where
  "kfree ptr s =
     (if ptr = 0 then Ret () s
      else let block = ptr - sizeof_heap_block in
        if blk_magic (mem s) block \<noteq> HEAP_MAGIC
        then kpanic ''kfree: invalid magic (double free or heap corruption?)'' [] s
        else case coalesce (g_heap_start s) (set_free block True (mem s)) of
               None \<Rightarrow> Hang
             | Some m \<Rightarrow> Ret () (s\<lparr>mem := m\<rparr>))"

definition kcalloc :: "u64 \<Rightarrow> u64 \<Rightarrow> 'z heap_st_scheme \<Rightarrow> (u64, 'z heap_st_scheme) outcome" where
  "kcalloc nmemb sz s =
     (let total = nmemb * sz in
      andthen (kmalloc total s) (\<lambda>ptr s.
      Ret ptr (if ptr \<noteq> 0 then s\<lparr>mem := memset ptr 0 total (mem s)\<rparr> else s)))"

declare first_fit.simps [code] coalesce.simps [code]

section \<open>One header\<close>

lemma separate_offsets: "separate (b + of_nat i) n (b + of_nat j) k" if "i + n \<le> j" "j + k \<le> 2 ^ 64" "0 < n" "0 < k" for b :: u64
proof -
  have "b + of_nat j - (b + of_nat i) = of_nat (j - i)" using that by (simp add: of_nat_diff)
  then have ji: "unat (b + of_nat j - (b + of_nat i)) = j - i" using that by (simp only: unat_of_nat_less)
  have "b + of_nat i \<noteq> b + of_nat j"
  proof
    assume "b + of_nat i = b + of_nat j"
    then show False using ji that by simp
  qed
  then show ?thesis using that ji unat_minus_swap [of "b + of_nat j" "b + of_nat i"] by (auto simp: separate_def)
qed

lemmas header_offsets [simp] =
  separate_offsets [of 0 4 8 8, simplified] separate_offsets [of 0 4 16 8, simplified] separate_offsets [of 0 4 24 1, simplified]
  separate_offsets [of 8 8 16 8, simplified] separate_offsets [of 8 8 24 1, simplified] separate_offsets [of 16 8 24 1, simplified]
lemmas header_offsets' [simp] = header_offsets [THEN separate_sym [THEN iffD1]]

lemma load_store8_separate: "separate a n b 1 \<Longrightarrow> n \<le> 2 ^ 64 \<Longrightarrow> load n (store8 m b v) a = load n m a"
  by (rule load_cong) (metis One_nat_def region_elem separate_disjoint store8_elsewhere region_iff diff_self unat_0 zero_less_Suc)

lemma load8_store_separate: "separate a 1 b k \<Longrightarrow> load8 (store k m b v) a = load8 m a"
proof -
  assume "separate a 1 b k"
  moreover have "a \<in> region a 1" by (simp add: region_iff)
  ultimately have "a \<notin> region b k" by (rule separate_disjoint)
  then show ?thesis by (simp add: load8_def store_def write_bytes_def region_iff)
qed

lemmas blk_defs = blk_magic_def blk_size_def blk_next_def blk_free_def set_magic_def set_size_def set_next_def set_free_def
lemmas word_access_defs = load32_def load64_def store32_def store64_def

lemma header_fields [simp]:
  "blk_magic (set_magic b v m) b = v" "blk_magic (set_size b w m) b = blk_magic m b"
  "blk_magic (set_next b w m) b = blk_magic m b" "blk_magic (set_free b f m) b = blk_magic m b"
  "blk_size (set_magic b v m) b = blk_size m b" "blk_size (set_size b w m) b = w"
  "blk_size (set_next b w m) b = blk_size m b" "blk_size (set_free b f m) b = blk_size m b"
  "blk_next (set_magic b v m) b = blk_next m b" "blk_next (set_size b w m) b = blk_next m b"
  "blk_next (set_next b w m) b = w" "blk_next (set_free b f m) b = blk_next m b"
  "blk_free (set_magic b v m) b = blk_free m b" "blk_free (set_size b w m) b = blk_free m b"
  "blk_free (set_next b w m) b = blk_free m b" "blk_free (set_free b f m) b = f"
  unfolding blk_defs
  by (simp_all) (simp_all add: word_access_defs load_store_separate load_store8_separate load8_store_separate)

text \<open>A header's fields depend on its 32 bytes only, and setting a field writes only there.\<close>

definition span :: "nat \<Rightarrow> nat \<Rightarrow> u64 set" where
  "span a n = {x. a \<le> unat x \<and> unat x < a + n}"

lemma span_iff: "x \<in> span a n \<longleftrightarrow> a \<le> unat x \<and> unat x < a + n"
  by (simp add: span_def)

lemma span_region: "unat b + n \<le> 2 ^ 64 \<Longrightarrow> span (unat b) n = region b n"
  by (auto simp: span_def region_def unat_sub_if' word_le_nat_alt)

lemma addr_in_span: "a + n \<le> 2 ^ 64 \<Longrightarrow> k < n \<Longrightarrow> of_nat a + of_nat k \<in> span a n"
  by (simp add: span_iff unat_of_nat flip: of_nat_add)

lemma header_cong:
  assumes "\<And>x. x \<in> span a 32 \<Longrightarrow> m' x = m x" and "a + 32 \<le> 2 ^ 64"
  shows "blk_magic m' (of_nat a) = blk_magic m (of_nat a)" "blk_size m' (of_nat a) = blk_size m (of_nat a)"
    "blk_next m' (of_nat a) = blk_next m (of_nat a)" "blk_free m' (of_nat a) = blk_free m (of_nat a)"
proof -
  have e: "m' (of_nat a + of_nat k) = m (of_nat a + of_nat k)" if "k < 32" for k
    using that assms by (intro assms(1) addr_in_span)
  have l: "load n m' (of_nat a + of_nat j) = load n m (of_nat a + of_nat j)" if "j + n \<le> 32" for n j
    using e [of "j + k" for k] that by (intro load_cong) (simp add: add.assoc)
  show "blk_magic m' (of_nat a) = blk_magic m (of_nat a)" "blk_size m' (of_nat a) = blk_size m (of_nat a)"
    "blk_next m' (of_nat a) = blk_next m (of_nat a)" "blk_free m' (of_nat a) = blk_free m (of_nat a)"
    using l [of 0 4] l [of 8 8] l [of 16 8] e [of 24] by (simp_all add: blk_defs load32_def load64_def load8_def)
qed

lemma header_writes:
  assumes "x \<notin> span a 32" and "a + 32 \<le> 2 ^ 64"
  shows "set_magic (of_nat a) v m x = m x" "set_size (of_nat a) w m x = m x" "set_next (of_nat a) w m x = m x"
    "set_free (of_nat a) f m x = m x"
proof -
  have e: "unat (x - (of_nat a + of_nat j)) < n \<Longrightarrow> n + j \<le> 32 \<Longrightarrow> False" for j n
  proof -
    assume u: "unat (x - (of_nat a + of_nat j)) < n" "n + j \<le> 32"
    define k where "k = unat (x - (of_nat a + of_nat j))"
    have "k < 2 ^ 64" unfolding k_def using unat64_bound by simp
    then have "x = of_nat a + of_nat j + of_nat k" using addr_at [of k x "of_nat a + of_nat j"] k_def by simp
    then have "x = of_nat a + of_nat (j + k)" by simp
    moreover have "of_nat a + of_nat (j + k) \<in> span a 32" using u k_def assms(2) by (intro addr_in_span) simp_all
    ultimately show False using assms(1) by simp
  qed
  show "set_magic (of_nat a) v m x = m x" "set_size (of_nat a) w m x = m x" "set_next (of_nat a) w m x = m x"
    "set_free (of_nat a) f m x = m x"
    using e [of 0 4] e [of 8 8] e [of 16 8] e [of 24 1]
    by (auto simp: blk_defs store32_def store64_def store_def write_bytes_def store8_def)
qed

lemma header_cross:
  assumes "a + 32 \<le> b \<or> b + 32 \<le> a" and "a + 32 \<le> 2 ^ 64" and "b + 32 \<le> 2 ^ 64"
  shows "blk_magic (set_magic (of_nat a) v m) (of_nat b) = blk_magic m (of_nat b)"
    "blk_magic (set_size (of_nat a) w m) (of_nat b) = blk_magic m (of_nat b)"
    "blk_magic (set_next (of_nat a) w m) (of_nat b) = blk_magic m (of_nat b)"
    "blk_magic (set_free (of_nat a) f m) (of_nat b) = blk_magic m (of_nat b)"
    "blk_size (set_magic (of_nat a) v m) (of_nat b) = blk_size m (of_nat b)"
    "blk_size (set_size (of_nat a) w m) (of_nat b) = blk_size m (of_nat b)"
    "blk_size (set_next (of_nat a) w m) (of_nat b) = blk_size m (of_nat b)"
    "blk_size (set_free (of_nat a) f m) (of_nat b) = blk_size m (of_nat b)"
    "blk_next (set_magic (of_nat a) v m) (of_nat b) = blk_next m (of_nat b)"
    "blk_next (set_size (of_nat a) w m) (of_nat b) = blk_next m (of_nat b)"
    "blk_next (set_next (of_nat a) w m) (of_nat b) = blk_next m (of_nat b)"
    "blk_next (set_free (of_nat a) f m) (of_nat b) = blk_next m (of_nat b)"
    "blk_free (set_magic (of_nat a) v m) (of_nat b) = blk_free m (of_nat b)"
    "blk_free (set_size (of_nat a) w m) (of_nat b) = blk_free m (of_nat b)"
    "blk_free (set_next (of_nat a) w m) (of_nat b) = blk_free m (of_nat b)"
    "blk_free (set_free (of_nat a) f m) (of_nat b) = blk_free m (of_nat b)"
proof -
  have "x \<notin> span a 32" if "x \<in> span b 32" for x using that assms(1) by (auto simp: span_iff)
  note w = header_writes [OF this assms(2)]
  note c = header_cong [OF w(1) assms(3)] header_cong [OF w(2) assms(3)] header_cong [OF w(3) assms(3)] header_cong [OF w(4) assms(3)]
  show "blk_magic (set_magic (of_nat a) v m) (of_nat b) = blk_magic m (of_nat b)"
    "blk_magic (set_size (of_nat a) w m) (of_nat b) = blk_magic m (of_nat b)"
    "blk_magic (set_next (of_nat a) w m) (of_nat b) = blk_magic m (of_nat b)"
    "blk_magic (set_free (of_nat a) f m) (of_nat b) = blk_magic m (of_nat b)"
    "blk_size (set_magic (of_nat a) v m) (of_nat b) = blk_size m (of_nat b)"
    "blk_size (set_size (of_nat a) w m) (of_nat b) = blk_size m (of_nat b)"
    "blk_size (set_next (of_nat a) w m) (of_nat b) = blk_size m (of_nat b)"
    "blk_size (set_free (of_nat a) f m) (of_nat b) = blk_size m (of_nat b)"
    "blk_next (set_magic (of_nat a) v m) (of_nat b) = blk_next m (of_nat b)"
    "blk_next (set_size (of_nat a) w m) (of_nat b) = blk_next m (of_nat b)"
    "blk_next (set_next (of_nat a) w m) (of_nat b) = blk_next m (of_nat b)"
    "blk_next (set_free (of_nat a) f m) (of_nat b) = blk_next m (of_nat b)"
    "blk_free (set_magic (of_nat a) v m) (of_nat b) = blk_free m (of_nat b)"
    "blk_free (set_size (of_nat a) w m) (of_nat b) = blk_free m (of_nat b)"
    "blk_free (set_next (of_nat a) w m) (of_nat b) = blk_free m (of_nat b)"
    "blk_free (set_free (of_nat a) f m) (of_nat b) = blk_free m (of_nat b)"
    by (rule c; assumption)+
qed

section \<open>Blocks that tile the heap\<close>

datatype blk = Blk (bsize: nat) (bfree: bool)

definition link :: "nat \<Rightarrow> blk list \<Rightarrow> u64" where
  "link a bs = (if bs = [] then 0 else of_nat a)"

fun heap_at :: "memory \<Rightarrow> nat \<Rightarrow> blk list \<Rightarrow> bool" where
  "heap_at m a [] \<longleftrightarrow> True"
| "heap_at m a (b # bs) \<longleftrightarrow>
     blk_magic m (of_nat a) = HEAP_MAGIC \<and> blk_size m (of_nat a) = of_nat (bsize b) \<and>
     blk_next m (of_nat a) = link (a + 32 + bsize b) bs \<and> blk_free m (of_nat a) = bfree b \<and>
     heap_at m (a + 32 + bsize b) bs"

fun extent :: "blk list \<Rightarrow> nat" where
  "extent [] = 0"
| "extent (b # bs) = 32 + bsize b + extent bs"

text \<open>The allocated blocks (address of the first byte, number of bytes), and the bytes of all headers.\<close>

fun live :: "nat \<Rightarrow> blk list \<Rightarrow> (nat \<times> nat) list" where
  "live a [] = []"
| "live a (b # bs) = (if bfree b then [] else [(a + 32, bsize b)]) @ live (a + 32 + bsize b) bs"

definition live_bytes :: "nat \<Rightarrow> blk list \<Rightarrow> u64 set" where
  "live_bytes a bs = (\<Union>(p, n) \<in> set (live a bs). span p n)"

fun metas :: "nat \<Rightarrow> blk list \<Rightarrow> u64 set" where
  "metas a [] = {}"
| "metas a (b # bs) = span a 32 \<union> metas (a + 32 + bsize b) bs"

section \<open>The abstract allocator\<close>

fun take_first :: "nat \<Rightarrow> nat \<Rightarrow> blk list \<Rightarrow> (nat \<times> blk list) option" where
  "take_first n a [] = None"
| "take_first n a (b # bs) =
     (if bfree b \<and> n \<le> bsize b then
        Some (a, if n + 40 \<le> bsize b then Blk n False # Blk (bsize b - n - 32) True # bs else Blk (bsize b) False # bs)
      else map_option (\<lambda>(h, bs'). (h, b # bs')) (take_first n (a + 32 + bsize b) bs))"

fun release_at :: "nat \<Rightarrow> nat \<Rightarrow> blk list \<Rightarrow> blk list" where
  "release_at p a [] = []"
| "release_at p a (b # bs) =
     (if p = a + 32 then Blk (bsize b) True # bs else b # release_at p (a + 32 + bsize b) bs)"

fun merge_free :: "blk list \<Rightarrow> blk list" where
  "merge_free (b # c # bs) =
     (if bfree b \<and> bfree c then merge_free (Blk (bsize b + 32 + bsize c) True # bs) else b # merge_free (c # bs))"
| "merge_free [] = []"
| "merge_free [b] = [b]"

lemma live_bytes_simps [simp]:
  "live_bytes a [] = {}"
  "live_bytes a (b # bs) = (if bfree b then {} else span (a + 32) (bsize b)) \<union> live_bytes (a + 32 + bsize b) bs"
  by (auto simp: live_bytes_def)

lemma metas_span: "metas a bs \<subseteq> span a (extent bs)"
  by (induction a bs rule: metas.induct) (auto simp: span_iff subset_iff)

lemma live_span: "(p, n) \<in> set (live a bs) \<Longrightarrow> a + 32 \<le> p \<and> p + n \<le> a + extent bs"
  by (induction a bs rule: live.induct) (auto split: if_splits)

lemma live_bytes_span: "live_bytes a bs \<subseteq> span a (extent bs)"
  unfolding live_bytes_def by (auto simp: span_iff dest!: live_span)

lemma metas_live: "metas a bs \<inter> live_bytes a bs = {}"
proof (induction a bs rule: metas.induct)
  case (2 a b bs)
  have "x \<notin> metas (a + 32 + bsize b) bs" if "x \<in> span (a + 32) (bsize b)" for x
    using that metas_span [of "a + 32 + bsize b" bs] by (fastforce simp: span_iff)
  moreover have "x \<notin> live_bytes (a + 32 + bsize b) bs \<and> x \<notin> span (a + 32) (bsize b)" if "x \<in> span a 32" for x
    using that live_bytes_span [of "a + 32 + bsize b" bs] by (fastforce simp: span_iff)
  ultimately show ?case using 2 by (auto split: if_splits)
qed simp

lemma live_disjoint:
  "(p, n) \<in> set (live a bs) \<Longrightarrow> (q, k) \<in> set (live a bs) \<Longrightarrow> p \<noteq> q \<Longrightarrow> span p n \<inter> span q k = {}"
proof (induction a bs rule: live.induct)
  case (2 a b bs)
  have "span (a + 32) (bsize b) \<inter> span r i = {}" if "(r, i) \<in> set (live (a + 32 + bsize b) bs)" for r i
    using live_span [OF that] by (auto simp: span_iff)
  then show ?case using 2 by (auto split: if_splits)
qed simp

lemma live_distinct: "distinct (map fst (live a bs))"
  by (induction a bs rule: live.induct) (auto dest!: live_span)

lemma heap_at_cong:
  assumes "\<And>x. x \<in> metas a bs \<Longrightarrow> m' x = m x" and "a + extent bs \<le> 2 ^ 64"
  shows "heap_at m' a bs = heap_at m a bs"
  using assms
proof (induction m a bs rule: heap_at.induct)
  case (2 m a b bs)
  have "heap_at m' (a + 32 + bsize b) bs = heap_at m (a + 32 + bsize b) bs"
    using "2.prems" by (intro "2.IH") simp_all
  then show ?case using header_cong [of a m' m] "2.prems" by simp
qed simp

section \<open>The loops on the blocks\<close>

lemma link_nonzero: "0 < a \<Longrightarrow> a + extent (b # bs) \<le> 2 ^ 64 \<Longrightarrow> link a (b # bs) = of_nat a \<and> (of_nat a :: u64) \<noteq> 0"
proof -
  assume "0 < a" "a + extent (b # bs) \<le> 2 ^ 64"
  then have "unat (of_nat a :: u64) = a" by (simp add: unat_of_nat_less)
  then show ?thesis using \<open>0 < a\<close> by (auto simp: link_def)
qed

lemma first_fit_take:
  assumes "heap_at m a bs" and "0 < a" and "a + extent bs \<le> 2 ^ 64"
  shows "first_fit m n (link a bs) = Some (case take_first (unat n) a bs of None \<Rightarrow> 0 | Some (h, _) \<Rightarrow> of_nat h)"
  using assms
proof (induction m a bs rule: heap_at.induct)
  case (1 m a)
  then show ?case by (simp add: link_def first_fit.simps)
next
  case (2 m a b bs)
  have l: "link a (b # bs) = of_nat a" "(of_nat a :: u64) \<noteq> 0" using link_nonzero "2.prems" by blast+
  have sz: "unat (of_nat (bsize b) :: u64) = bsize b" using "2.prems"(3) by (intro unat_of_nat_less) simp
  have "first_fit m n (link (a + 32 + bsize b) bs) =
      Some (case take_first (unat n) (a + 32 + bsize b) bs of None \<Rightarrow> 0 | Some (h, _) \<Rightarrow> of_nat h)"
    using "2.prems" by (intro "2.IH") simp_all
  then show ?case
    using "2.prems"(1) l sz by (subst first_fit.simps) (auto simp: word_le_nat_alt split: option.splits)
qed

text \<open>Changing one block of the list: the blocks before it stay, as long as their headers do.\<close>

lemma extent_append [simp]: "extent (bs @ cs) = extent bs + extent cs"
  by (induction bs) auto

lemma live_append [simp]: "live a (bs @ cs) = live a bs @ live (a + extent bs) cs"
  by (induction a bs rule: live.induct) (auto simp: add.assoc)

lemma metas_append [simp]: "metas a (bs @ cs) = metas a bs \<union> metas (a + extent bs) cs"
  by (induction a bs rule: metas.induct) (auto simp: add.assoc)

lemma heap_at_suffix: "heap_at m a (pre @ bs) \<Longrightarrow> heap_at m (a + extent pre) bs"
  by (induction m a pre rule: heap_at.induct) (auto simp: add.assoc)

lemma heap_at_replace:
  assumes "heap_at m a (pre @ bs)" and "heap_at m' (a + extent pre) cs" and "bs = [] \<longleftrightarrow> cs = []"
    and "\<And>x. x \<in> metas a pre \<Longrightarrow> m' x = m x" and "a + extent pre \<le> 2 ^ 64"
  shows "heap_at m' a (pre @ cs)"
  using assms
proof (induction m a pre rule: heap_at.induct)
  case (2 m a b pre)
  have "heap_at m' (a + 32 + bsize b) (pre @ cs)"
    using "2.prems" by (intro "2.IH") (simp_all add: add.assoc)
  moreover have "link x (pre @ bs) = link x (pre @ cs)" for x using "2.prems"(3) by (simp add: link_def)
  ultimately show ?case using header_cong [of a m' m] "2.prems" by simp
qed simp

section \<open>Taking a block\<close>

text \<open>A hit of the search splits the list at the block it takes.\<close>

definition cut :: "nat \<Rightarrow> blk \<Rightarrow> blk list" where
  "cut n b = (if n + 40 \<le> bsize b then [Blk n False, Blk (bsize b - n - 32) True] else [Blk (bsize b) False])"

lemma take_first_split:
  assumes "take_first n a bs = Some (h, bs')"
  obtains pre b post where "bs = pre @ b # post" and "bfree b" and "n \<le> bsize b" and "h = a + extent pre"
    and "bs' = pre @ cut n b @ post"
  using assms
proof (induction n a bs arbitrary: h bs' thesis rule: take_first.induct)
  case (2 n a b bs)
  show ?case
  proof (cases "bfree b \<and> n \<le> bsize b")
    case True
    then show ?thesis using "2.prems"(2) by (intro "2.prems"(1) [of "[]" b bs]) (auto simp: cut_def)
  next
    case False
    then obtain cs where cs: "take_first n (a + 32 + bsize b) bs = Some (h, cs)" "bs' = b # cs"
      using "2.prems"(2) by (auto split: if_splits)
    show ?thesis
    proof (rule "2.IH" [OF False _ cs(1)])
      fix pre c post
      assume "bs = pre @ c # post" "bfree c" "n \<le> bsize c" "h = a + 32 + bsize b + extent pre" "cs = pre @ cut n c @ post"
      then show ?thesis using cs(2) by (intro "2.prems"(1) [of "b # pre" c post]) simp_all
    qed
  qed
qed simp

lemma extent_cut [simp]: "n \<le> bsize b \<Longrightarrow> extent (cut n b) = 32 + bsize b"
  by (simp add: cut_def)

lemma cut_nonempty [simp]: "cut n b \<noteq> []"
  by (simp add: cut_def)

lemma take_first_none:
  "take_first n a bs = None \<longleftrightarrow> (\<forall>b\<in>set bs. bfree b \<longrightarrow> bsize b < n)"
  by (induction n a bs rule: take_first.induct) auto

lemma take_block_header:
  assumes "heap_at m a (b # bs)" and "bfree b" and "unat n \<le> bsize b" and "a + extent (b # bs) \<le> 2 ^ 64" and "8 < a"
  shows "heap_at (take_block n (of_nat a) m) a (cut (unat n) b @ bs)"
    and "x \<notin> metas a (cut (unat n) b) \<Longrightarrow> take_block n (of_nat a) m x = m x"
proof -
  let ?k = "unat n" and ?nb = "a + 32 + unat n" and ?c = "of_nat a :: u64"
  have h: "blk_magic m ?c = HEAP_MAGIC" "blk_size m ?c = of_nat (bsize b)" "blk_next m ?c = link (a + 32 + bsize b) bs"
    "heap_at m (a + 32 + bsize b) bs" using assms(1) by simp_all
  have ext: "a + 32 + bsize b + extent bs \<le> 2 ^ 64" using assms(4) by simp
  have sz: "unat (of_nat (bsize b) :: u64) = bsize b" using ext assms(5) by (intro unat_of_nat_less) simp
  have n40: "unat (n + 32 + 8) = ?k + 40" using assms(3,5) ext by (simp add: unat_word_ariths)
  have cond: "n + sizeof_heap_block + 8 \<le> blk_size m ?c \<longleftrightarrow> ?k + 40 \<le> bsize b"
    unfolding h sizeof_heap_block_def word_le_nat_alt n40 sz ..
  have a32: "a + 32 \<le> 2 ^ 64" using ext by simp
  have rest: "heap_at (take_block n ?c m) (a + 32 + bsize b) bs"
    if "\<And>x. x \<notin> metas a (cut ?k b) \<Longrightarrow> take_block n ?c m x = m x"
  proof -
    have "metas a (cut ?k b) \<inter> metas (a + 32 + bsize b) bs = {}"
      using metas_span [of a "cut ?k b"] metas_span [of "a + 32 + bsize b" bs] assms(3) by (fastforce simp: span_iff)
    then show ?thesis using that ext by (subst heap_at_cong [of _ _ _ m]) (auto intro: h(4))
  qed
  have "heap_at (take_block n ?c m) a (cut ?k b @ bs) \<and> (\<forall>y. y \<notin> metas a (cut ?k b) \<longrightarrow> take_block n ?c m y = m y)"
  proof (cases "?k + 40 \<le> bsize b")
    case True
    have nb: "?c + 32 + n = of_nat ?nb" by simp
    have nb32: "?nb + 32 \<le> 2 ^ 64" "a + 32 \<le> ?nb" using True ext by simp_all
    note cr = header_cross [of a ?nb, OF disjI1 [OF nb32(2)] a32 nb32(1)] header_cross [of ?nb a, OF disjI2 [OF nb32(2)] nb32(1) a32]
    define r where "r = bsize b - ?k - 32"
    have r: "(of_nat (bsize b) :: u64) - n - 32 = of_nat r" using True by (simp add: r_def of_nat_diff)
    have tb: "take_block n ?c m = set_free ?c False (set_next ?c (of_nat ?nb) (set_size ?c n (set_free (of_nat ?nb) True
        (set_next (of_nat ?nb) (link (a + 32 + bsize b) bs) (set_size (of_nat ?nb) (of_nat r) (set_magic (of_nat ?nb) HEAP_MAGIC m))))))"
      using cond True unfolding take_block_def Let_def sizeof_heap_block_def nb by (simp add: cr h r del: of_nat_add)
    have "take_block n ?c m y = m y" if "y \<notin> metas a (cut ?k b)" for y
      using that True unfolding tb
      by (simp add: cut_def header_writes [OF _ a32] header_writes [OF _ nb32(1)] del: of_nat_add)
    note fr = this
    have c: "cut ?k b = [Blk ?k False, Blk r True]" using True by (simp add: cut_def r_def)
    have e: "?nb + 32 + r = a + 32 + bsize b" using True by (simp add: r_def)
    have l: "link ?nb (Blk r True # bs) = of_nat ?nb" by (simp add: link_def)
    have "heap_at (take_block n ?c m) a (Blk ?k False # Blk r True # bs)"
      using rest [OF fr] unfolding heap_at.simps blk.sel e l
      by (simp add: tb cr h del: of_nat_add)
    then show ?thesis using fr unfolding c by simp
  next
    case False
    then have tb: "take_block n ?c m = set_free ?c False m" using cond by (simp add: take_block_def)
    have "take_block n ?c m y = m y" if "y \<notin> metas a (cut ?k b)" for y
      using that False by (simp add: tb cut_def header_writes [OF _ a32])
    then show ?thesis using rest False h by (simp add: cut_def tb)
  qed
  then show "heap_at (take_block n ?c m) a (cut ?k b @ bs)" and "x \<notin> metas a (cut ?k b) \<Longrightarrow> take_block n ?c m x = m x" 
    by simp_all
qed

text \<open>Non-final blocks have sizes divisible by 8, so every block of a heap with an aligned start is aligned.\<close>

definition sizes_aligned :: "blk list \<Rightarrow> bool" where
  "sizes_aligned bs \<longleftrightarrow> (\<forall>b\<in>set (butlast bs). 8 dvd bsize b)"

lemma sizes_aligned_extent: "sizes_aligned (pre @ bs) \<Longrightarrow> bs \<noteq> [] \<Longrightarrow> 8 dvd extent pre"
proof (induction pre)
  case (Cons b pre)
  then have "8 dvd bsize b" "sizes_aligned (pre @ bs)" by (auto simp: sizes_aligned_def)
  with Cons show ?case by (auto intro!: dvd_add)
qed simp

lemma sizes_aligned_cut:
  assumes "sizes_aligned (pre @ b # post)" and "8 dvd n" and "n \<le> bsize b"
  shows "sizes_aligned (pre @ cut n b @ post)"
proof -
  have "8 dvd bsize b" if "post \<noteq> []" using assms(1) that by (auto simp: sizes_aligned_def butlast_append)
  moreover have "8 dvd bsize b - n - 32" if "8 dvd bsize b" using that assms(2) by (intro dvd_diff_nat) simp_all
  ultimately show ?thesis using assms(1,2) by (cases "post = []") (auto simp: sizes_aligned_def butlast_append cut_def split: if_splits)
qed

lemma take_heap:
  assumes "take_first (unat n) a bs = Some (h, bs')" and "heap_at m a bs" and "8 < a" and "a + extent bs \<le> 2 ^ 64"
  shows "heap_at (take_block n (of_nat h) m) a bs'" and "extent bs' = extent bs" and "bs' \<noteq> []"
    and "a \<le> h" "h + 32 + unat n \<le> a + extent bs"
    and "\<exists>k\<ge>unat n. set (live a bs') = insert (h + 32, k) (set (live a bs)) \<and> h + 32 \<notin> fst ` set (live a bs)"
    and "x \<notin> metas a bs' \<Longrightarrow> take_block n (of_nat h) m x = m x"
    and "sizes_aligned bs \<Longrightarrow> 8 dvd unat n \<Longrightarrow> sizes_aligned bs'"
    and "sizes_aligned bs \<Longrightarrow> 8 dvd a \<Longrightarrow> 8 dvd h"
proof -
  obtain pre b post where s: "bs = pre @ b # post" "bfree b" "unat n \<le> bsize b" "h = a + extent pre" "bs' = pre @ cut (unat n) b @ post"
    by (rule take_first_split [OF assms(1)])
  have at: "heap_at m h (b # post)" using heap_at_suffix assms(2) unfolding s by blast
  have ex: "h + extent (b # post) \<le> 2 ^ 64" "8 < h" using assms(3,4) s by simp_all
  note t = take_block_header [OF at s(2,3) ex]
  have fr: "take_block n (of_nat h) m x = m x" if "x \<notin> metas h (cut (unat n) b)" for x by (rule t(2) [OF that])
  have dis: "x \<notin> metas h (cut (unat n) b)" if "x \<in> metas a pre" for x
    using that metas_span [of a pre] metas_span [of h "cut (unat n) b"] s(4) by (fastforce simp: span_iff)
  show "heap_at (take_block n (of_nat h) m) a bs'" unfolding s(5)
  proof (rule heap_at_replace [where bs = "b # post" and m = m])
    show "heap_at m a (pre @ b # post)" using assms(2) s(1) by simp
    show "heap_at (take_block n (of_nat h) m) (a + extent pre) (cut (unat n) b @ post)" using t(1) s(4) by simp
    show "take_block n (of_nat h) m x = m x" if "x \<in> metas a pre" for x by (rule fr [OF dis [OF that]])
  qed (use ex s(4) in simp_all)
  show "x \<notin> metas a bs' \<Longrightarrow> take_block n (of_nat h) m x = m x" using fr by (simp add: s(4,5))
  show "extent bs' = extent bs" "bs' \<noteq> []" "a \<le> h" "h + 32 + unat n \<le> a + extent bs" using s by simp_all
  have fresh: "h + 32 \<noteq> p" if "(p, i) \<in> set (live a pre) \<union> set (live (a + extent pre + 32 + bsize b) post)" for p i
    using that s(4) by (auto dest!: live_span)
  have "live a bs' = live a pre @ (h + 32, if unat n + 40 \<le> bsize b then unat n else bsize b) # live (a + extent pre + 32 + bsize b) post"
    using s(3) by (simp add: s(4,5) cut_def add.assoc)
  then have "set (live a bs') = insert (h + 32, if unat n + 40 \<le> bsize b then unat n else bsize b) (set (live a bs))"
    using s(1,2) by (simp add: add.assoc)
  moreover have "h + 32 \<notin> fst ` set (live a bs)" using s(1,2) by (auto dest: fresh [OF UnI1] fresh [OF UnI2])
  ultimately show "\<exists>k\<ge>unat n. set (live a bs') = insert (h + 32, k) (set (live a bs)) \<and> h + 32 \<notin> fst ` set (live a bs)"
    using s(3) by (intro exI [of _ "if unat n + 40 \<le> bsize b then unat n else bsize b"]) simp
  show "sizes_aligned bs \<Longrightarrow> 8 dvd unat n \<Longrightarrow> sizes_aligned bs'" using sizes_aligned_cut s(3) unfolding s(1,5) by blast
  show "sizes_aligned bs \<Longrightarrow> 8 dvd a \<Longrightarrow> 8 dvd h" unfolding s(1,4) by (rule dvd_add) (auto intro: sizes_aligned_extent)
qed

section \<open>Releasing and merging blocks\<close>

lemma live_split:
  assumes "(p, n) \<in> set (live a bs)"
  obtains pre post where "bs = pre @ Blk n False # post" and "p = a + extent pre + 32"
  using assms
proof (induction a bs arbitrary: thesis rule: live.induct)
  case (2 a b bs)
  show ?case
  proof (cases "p = a + 32")
    case True
    then have "b = Blk n False" using "2.prems"(2) live_span [of p n "a + 32 + bsize b" bs] by (cases b) (auto split: if_splits)
    then show ?thesis using True by (intro "2.prems"(1) [of "[]" bs]) simp_all
  next
    case False
    then have l: "(p, n) \<in> set (live (a + 32 + bsize b) bs)" using "2.prems"(2) by (auto split: if_splits)
    show ?thesis
    proof (rule "2.IH" [OF _ l])
      fix pre post assume "bs = pre @ Blk n False # post" "p = a + 32 + bsize b + extent pre + 32"
      then show ?thesis by (intro "2.prems"(1) [of "b # pre" post]) simp_all
    qed
  qed
qed simp

lemma release_split: "release_at (a + extent pre + 32) a (pre @ b # post) = pre @ Blk (bsize b) True # post"
proof (induction pre arbitrary: a)
  case (Cons c pre)
  from Cons [of "a + 32 + bsize c"] show ?case by (simp add: add.assoc)
qed simp

fun merged :: "blk list \<Rightarrow> bool" where
  "merged (b # c # bs) \<longleftrightarrow> \<not> (bfree b \<and> bfree c) \<and> merged (c # bs)"
| "merged bs \<longleftrightarrow> True"

lemma extent_merge [simp]: "extent (merge_free bs) = extent bs"
  by (induction bs rule: merge_free.induct) auto

lemma live_merge [simp]: "live a (merge_free bs) = live a bs"
  by (induction bs arbitrary: a rule: merge_free.induct) (auto simp: add.assoc)

lemma merge_empty [simp]: "merge_free bs = [] \<longleftrightarrow> bs = []"
  by (induction bs rule: merge_free.induct) auto

lemma metas_merge: "metas a (merge_free bs) \<subseteq> metas a bs"
proof (induction bs arbitrary: a rule: merge_free.induct)
  case (1 b c bs)
  show ?case
  proof (cases "bfree b \<and> bfree c")
    case True
    then show ?thesis using "1.IH"(1) [OF True, of a] by (simp add: add.assoc) blast
  next
    case False
    show ?thesis using "1.IH"(2) [OF False, of "a + 32 + bsize b"] by (simp add: False) blast
  qed
qed simp_all

lemma sizes_aligned_Cons: "sizes_aligned (b # bs) \<longleftrightarrow> bs = [] \<or> 8 dvd bsize b \<and> sizes_aligned bs"
  by (auto simp: sizes_aligned_def)

lemma sizes_aligned_merge: "sizes_aligned bs \<Longrightarrow> sizes_aligned (merge_free bs)"
proof (induction bs rule: merge_free.induct)
  case (1 b c bs)
  have "sizes_aligned (Blk (bsize b + 32 + bsize c) True # bs)"
    using "1.prems" by (auto simp: sizes_aligned_Cons intro!: dvd_add)
  moreover have "sizes_aligned (c # bs)" "8 dvd bsize b" using "1.prems" by (simp_all add: sizes_aligned_Cons)
  ultimately show ?case using 1 by (auto simp: sizes_aligned_Cons)
qed simp_all

lemma merged_merge: "merged (merge_free bs)"
proof (induction bs rule: merge_free.induct)
  case (1 b c bs)
  have hd: "bfree (hd (merge_free (c # bs))) = bfree c" for c
    by (induction "c # bs" arbitrary: c bs rule: merge_free.induct) auto
  show ?case
  proof (cases "bfree b \<and> bfree c")
    case True
    with "1.IH"(1) show ?thesis by simp
  next
    case False
    obtain d ds where d: "merge_free (c # bs) = d # ds" by (cases "merge_free (c # bs)") auto
    then have "bfree d = bfree c" using hd [of c] by simp
    then show ?thesis using False "1.IH"(2) d by auto
  qed
qed simp_all

lemma merge_id: "merged bs \<Longrightarrow> merge_free bs = bs"
  by (induction bs rule: merge_free.induct) auto

text \<open>Cutting a block off and merging it back restores a merged list.\<close>

lemma merge_cut:
  assumes "merged (pre @ Blk (n + 32 + r) True # post)"
  shows "merge_free (pre @ Blk n True # Blk r True # post) = pre @ Blk (n + 32 + r) True # post"
  using assms
proof (induction pre)
  case Nil
  then show ?case using merge_id by simp
next
  case (Cons b pre)
  then have "merged (pre @ Blk (n + 32 + r) True # post)" by (cases pre) auto
  with Cons show ?case by (cases pre) auto
qed

lemma coalesce_merges:
  assumes "heap_at m a bs" and "0 < a" and "a + extent bs \<le> 2 ^ 64"
  shows "\<exists>m'. coalesce (link a bs) m = Some m' \<and> heap_at m' a (merge_free bs) \<and> (\<forall>x. x \<notin> metas a bs \<longrightarrow> m' x = m x)"
  using assms
proof (induction bs arbitrary: a m rule: merge_free.induct)
  case (1 b c bs)
  let ?p = "of_nat a :: u64" and ?q = "a + 32 + bsize b"
  have l: "link a (b # c # bs) = ?p" "?p \<noteq> 0" using link_nonzero "1.prems"(2,3) by blast+
  have lq: "link ?q (c # bs) = of_nat ?q" "(of_nat ?q :: u64) \<noteq> 0"
    using link_nonzero [of ?q c bs] "1.prems"(2,3) by simp_all
  have h: "blk_size m ?p = of_nat (bsize b)" "blk_next m ?p = of_nat ?q" "blk_free m ?p = bfree b" "blk_free m (of_nat ?q) = bfree c"
    "blk_magic m ?p = HEAP_MAGIC" "blk_size m (of_nat ?q) = of_nat (bsize c)" "blk_next m (of_nat ?q) = link (?q + 32 + bsize c) bs"
    "heap_at m (?q + 32 + bsize c) bs"
    using "1.prems"(1) lq(1) by simp_all
  have a32: "a + 32 \<le> 2 ^ 64" "?q + 32 \<le> 2 ^ 64" "a + 32 \<le> ?q" using "1.prems"(3) by simp_all
  show ?case
  proof (cases "bfree b \<and> bfree c")
    case True
    let ?b = "Blk (bsize b + 32 + bsize c) True"
    define m1 where "m1 = set_next ?p (link (?q + 32 + bsize c) bs) (set_size ?p (of_nat (bsize ?b)) m)"
    have sz: "(of_nat (bsize b) :: u64) + (32 + of_nat (bsize c)) = of_nat (bsize ?b)" by simp
    have step: "coalesce ?p m = coalesce ?p m1"
      using True l(2) lq(2) by (subst coalesce.simps)
        (simp add: h m1_def Let_def sizeof_heap_block_def sz header_cross [OF disjI1 [OF a32(3)] a32(1,2)] del: of_nat_add)
    have fr: "m1 x = m x" if "x \<notin> span a 32" for x using that a32(1) by (simp add: m1_def header_writes)
    have e: "a + 32 + bsize ?b = ?q + 32 + bsize c" by simp
    have "heap_at m1 (?q + 32 + bsize c) bs"
      using h(8) "1.prems"(3) metas_span [of "?q + 32 + bsize c" bs]
      by (subst heap_at_cong [of _ _ _ m]) (auto simp: span_iff intro!: fr)
    then have "heap_at m1 a (?b # bs)"
      unfolding heap_at.simps e using True h(3,5) by (simp add: m1_def del: of_nat_add)
    then obtain m' where m': "coalesce (link a (?b # bs)) m1 = Some m'" "heap_at m' a (merge_free (?b # bs))"
      "\<forall>x. x \<notin> metas a (?b # bs) \<longrightarrow> m' x = m1 x"
      using "1.IH"(1) [OF True, of m1 a] "1.prems"(2,3) by auto
    have "m' x = m x" if "x \<notin> metas a (b # c # bs)" for x
      using that m'(3) fr by (simp add: add.assoc)
    then show ?thesis using m'(1,2) True step l(1) by (simp add: link_def)
  next
    case False
    have step: "coalesce ?p m = coalesce (link ?q (c # bs)) m"
      using False l lq by (subst coalesce.simps) (auto simp: h simp del: of_nat_add)
    have "heap_at m ?q (c # bs)" using "1.prems"(1) by simp
    then obtain m' where m': "coalesce (link ?q (c # bs)) m = Some m'" "heap_at m' ?q (merge_free (c # bs))"
      "\<forall>x. x \<notin> metas ?q (c # bs) \<longrightarrow> m' x = m x"
      using "1.IH"(2) [OF False, of m ?q] "1.prems"(2,3) by auto
    have "m' x = m x" if "x \<in> span a 32" for x
      using that m'(3) metas_span [of ?q "c # bs"] by (fastforce simp: span_iff)
    note hc = header_cong [OF this a32(1)]
    have "link ?q (merge_free (c # bs)) = of_nat ?q" by (simp add: link_def)
    then have "heap_at m' a (b # merge_free (c # bs))" using m'(2) h by (simp add: hc del: of_nat_add)
    then show ?thesis using m'(1,3) step l(1) False by auto
  qed
next
  case (2 a m)
  then show ?case by (simp add: link_def coalesce.simps)
next
  case (3 b)
  have l: "link a [b] = of_nat a" "(of_nat a :: u64) \<noteq> 0" using link_nonzero "3.prems"(2,3) by blast+
  then show ?case using "3.prems"(1) by (simp add: coalesce.simps [of "of_nat a"] coalesce.simps [of 0] link_def)
qed

lemma set_free_block:
  assumes "heap_at m a (pre @ Blk n f # post)" and "a + extent (pre @ Blk n f # post) \<le> 2 ^ 64"
  shows "heap_at (set_free (of_nat (a + extent pre)) True m) a (pre @ Blk n True # post)"
    and "x \<notin> span (a + extent pre) 32 \<Longrightarrow> set_free (of_nat (a + extent pre)) True m x = m x"
    and "blk_magic m (of_nat (a + extent pre)) = HEAP_MAGIC"
proof -
  let ?h = "a + extent pre"
  have at: "heap_at m ?h (Blk n f # post)" using heap_at_suffix assms(1) by blast
  then show "blk_magic m (of_nat ?h) = HEAP_MAGIC" by simp
  have h32: "?h + 32 \<le> 2 ^ 64" using assms(2) by simp
  have fr: "set_free (of_nat ?h) True m x = m x" if "x \<notin> span ?h 32" for x using header_writes(4) [OF that h32] .
  then show "x \<notin> span ?h 32 \<Longrightarrow> set_free (of_nat ?h) True m x = m x" .
  have "x \<notin> span ?h 32" if "x \<in> metas (?h + 32 + n) post" for x
    using that metas_span [of "?h + 32 + n" post] by (auto simp: span_iff)
  then have "heap_at (set_free (of_nat ?h) True m) (?h + 32 + n) post = heap_at m (?h + 32 + n) post"
    using assms(2) by (intro heap_at_cong fr) simp_all
  then have rel: "heap_at (set_free (of_nat ?h) True m) ?h (Blk n True # post)" using at by (simp del: of_nat_add)
  show "heap_at (set_free (of_nat ?h) True m) a (pre @ Blk n True # post)"
  proof (rule heap_at_replace [where bs = "Blk n f # post" and m = m])
    show "set_free (of_nat ?h) True m x = m x" if "x \<in> metas a pre" for x
      using that metas_span [of a pre] by (intro fr) (auto simp: span_iff)
  qed (use rel assms h32 in simp_all)
qed

lemma release_heap:
  assumes "(p, n) \<in> set (live a bs)" and "heap_at m a bs" and "a + extent bs \<le> 2 ^ 64"
  shows "heap_at (set_free (of_nat (p - 32)) True m) a (release_at p a bs)"
    and "extent (release_at p a bs) = extent bs" and "metas a (release_at p a bs) = metas a bs"
    and "set (live a (release_at p a bs)) = set (live a bs) - {(p, n)}" and "release_at p a bs \<noteq> []"
    and "sizes_aligned bs \<Longrightarrow> sizes_aligned (release_at p a bs)"
    and "x \<notin> metas a bs \<Longrightarrow> set_free (of_nat (p - 32)) True m x = m x"
    and "blk_magic m (of_nat (p - 32)) = HEAP_MAGIC"
proof -
  obtain pre post where s: "bs = pre @ Blk n False # post" "p = a + extent pre + 32" by (rule live_split [OF assms(1)])
  let ?h = "a + extent pre"
  have r: "release_at p a bs = pre @ Blk n True # post" using release_split [of a pre "Blk n False" post] s by simp
  have p: "p - 32 = ?h" using s by simp
  note f = set_free_block [OF assms(2,3) [unfolded s(1)]]
  show "heap_at (set_free (of_nat (p - 32)) True m) a (release_at p a bs)" unfolding r p by (rule f(1))
  show "extent (release_at p a bs) = extent bs" "metas a (release_at p a bs) = metas a bs" "release_at p a bs \<noteq> []"
    unfolding r by (simp_all add: s(1))
  show "sizes_aligned bs \<Longrightarrow> sizes_aligned (release_at p a bs)"
    unfolding r by (auto simp: s(1) sizes_aligned_def butlast_append split: if_splits)
  show "x \<notin> metas a bs \<Longrightarrow> set_free (of_nat (p - 32)) True m x = m x" unfolding p by (rule f(2)) (simp add: s(1))
  show "blk_magic m (of_nat (p - 32)) = HEAP_MAGIC" unfolding p by (rule f(3))
  have "(p, n) \<notin> set (live a pre) \<union> set (live (?h + 32 + n) post)" using s(2) by (auto dest!: live_span)
  then show "set (live a (release_at p a bs)) = set (live a bs) - {(p, n)}"
    unfolding r using s by (auto simp: add.assoc)
qed

section \<open>The heap invariant\<close>

text \<open>
  \<open>heap_ok s bs\<close>: the blocks \<open>bs\<close> tile the heap from its first to its last byte, are linked in order of address,
  and the console writes no byte of the heap except in blocks that are allocated (its own buffer is one of them).
\<close>

definition heap_ok :: "'z heap_st_scheme \<Rightarrow> blk list \<Rightarrow> bool" where
  "heap_ok s bs \<longleftrightarrow> bs \<noteq> [] \<and> 8 < unat (g_heap_start s) \<and> extent bs = unat (g_heap_total_size s) \<and>
     unat (g_heap_start s) + unat (g_heap_total_size s) \<le> 2 ^ 64 \<and> 8 dvd unat (g_heap_start s) \<and> sizes_aligned bs \<and>
     heap_at (mem s) (unat (g_heap_start s)) bs \<and>
     log_dirty s \<inter> span (unat (g_heap_start s)) (unat (g_heap_total_size s)) \<subseteq> live_bytes (unat (g_heap_start s)) bs"

abbreviation heap_live :: "'z heap_st_scheme \<Rightarrow> blk list \<Rightarrow> (nat \<times> nat) set" where
  "heap_live s bs \<equiv> set (live (unat (g_heap_start s)) bs)"

lemma log_heap [simp]:
  "log_ok (s\<lparr>g_heap_start := p\<rparr>) = log_ok s" "log_dirty (s\<lparr>g_heap_start := p\<rparr>) = log_dirty s"
  "log_ok (s\<lparr>g_heap_total_size := n\<rparr>) = log_ok s" "log_dirty (s\<lparr>g_heap_total_size := n\<rparr>) = log_dirty s"
  by (simp_all add: log_ok_defs)

lemma heap_start_link: "heap_ok s bs \<Longrightarrow> g_heap_start s = link (unat (g_heap_start s)) bs"
  by (simp add: heap_ok_def link_def)

text \<open>Writing to allocated blocks, and logging, keep the heap.\<close>

lemma heap_ok_writes:
  assumes "heap_ok s bs" and "\<And>x. x \<in> metas (unat (g_heap_start s)) bs \<Longrightarrow> mem t x = mem s x"
    and "g_heap_start t = g_heap_start s" "g_heap_total_size t = g_heap_total_size s" and "log_dirty t = log_dirty s"
  shows "heap_ok t bs"
  using assms heap_at_cong [of "unat (g_heap_start s)" bs "mem t" "mem s"] by (simp add: heap_ok_def)

lemma heap_ok_live_writes:
  assumes "heap_ok s bs" and "\<And>x. x \<notin> live_bytes (unat (g_heap_start s)) bs \<Longrightarrow> m x = mem s x"
  shows "heap_ok (s\<lparr>mem := m\<rparr>) bs"
  using metas_live [of "unat (g_heap_start s)" bs] by (intro heap_ok_writes [OF assms(1)]) (auto intro!: assms(2))

lemma heap_ok_logged:
  fixes s t :: "'z heap_st_scheme"
  assumes "heap_ok s bs" and "logged str s t"
  shows "heap_ok t bs" and "g_heap_start t = g_heap_start s" and "g_heap_total_size t = g_heap_total_size s"
proof -
  have e: "t = s\<lparr>now := now t, events := events s @ map (\<lambda>c. OutB COM1 (of_char c)) str, mem := mem t,
      cursor_x := cursor_x t, cursor_y := cursor_y t, fg_color := fg_color t, bg_color := bg_color t\<rparr>"
    and m: "\<forall>x. x \<notin> log_dirty s \<longrightarrow> mem t x = mem s x" using assms(2) by (simp_all add: logged_def)
  show g: "g_heap_start t = g_heap_start s" "g_heap_total_size t = g_heap_total_size s" by (subst e, simp)+
  have "x \<notin> log_dirty s" if "x \<in> metas (unat (g_heap_start s)) bs" for x
    using that assms(1) metas_live [of "unat (g_heap_start s)" bs] metas_span [of "unat (g_heap_start s)" bs]
    unfolding heap_ok_def by fastforce
  then show "heap_ok t bs" using m g logged_sel(9) [OF assms(2)] by (intro heap_ok_writes [OF assms(1)]) simp_all
qed

lemma round8: "unat n \<le> 2 ^ 64 - 8 \<Longrightarrow> unat ((n + 7) AND NOT 7) = (unat n + 7) div 8 * 8" for n :: u64
  using unat_align_down [of "n + 7" 3] by (simp add: mask_eq_exp_minus_1 unat_word_ariths)

text \<open>A request that some free block satisfies, and one that none does.\<close>

lemma heap_okD:
  assumes "heap_ok s bs"
  shows "heap_at (mem s) (unat (g_heap_start s)) bs" "8 < unat (g_heap_start s)" "unat (g_heap_start s) + extent bs \<le> 2 ^ 64"
    "g_heap_start s = link (unat (g_heap_start s)) bs" "sizes_aligned bs" "8 dvd unat (g_heap_start s)" "bs \<noteq> []"
    "extent bs = unat (g_heap_total_size s)"
  using assms by (auto simp: heap_ok_def link_def)

lemma kmalloc_hit:
  fixes n :: u64
  assumes "heap_ok s bs" and "n \<noteq> 0"
    and "take_first (unat ((n + 7) AND NOT 7)) (unat (g_heap_start s)) bs = Some (h, bs')"
  obtains m where "kmalloc n s = Ret (of_nat (h + 32)) (s\<lparr>mem := m\<rparr>)" and "heap_ok (s\<lparr>mem := m\<rparr>) bs'"
    and "\<forall>x. x \<notin> metas (unat (g_heap_start s)) bs' \<longrightarrow> m x = mem s x" and "h + 32 + unat ((n + 7) AND NOT 7) \<le> 2 ^ 64" and "8 dvd h"
    and "unat (g_heap_start s) \<le> h"
proof -
  let ?a = "unat (g_heap_start s)" and ?n = "(n + 7) AND NOT 7 :: u64"
  note o = heap_okD [OF assms(1)]
  note t = take_heap [OF assms(3) o(1-3)]
  have h: "h + 32 + unat ?n \<le> 2 ^ 64" "0 < h" using t(4,5) o(2,3) by simp_all
  have ff: "first_fit (mem s) ?n (g_heap_start s) = Some (of_nat h)"
    using first_fit_take [OF o(1) _ o(3), of ?n] o(2) assms(3) by (subst o(4)) simp
  have nz: "(of_nat h :: u64) \<noteq> 0" using h unat_of_nat_less [of h] by auto
  show thesis
  proof (rule that)
    show "kmalloc n s = Ret (of_nat (h + 32)) (s\<lparr>mem := take_block ?n (of_nat h) (mem s)\<rparr>)"
      using assms(2) nz by (simp only: kmalloc_def Let_def if_False ff option.case if_True not_False_eq_True)
        (simp add: sizeof_heap_block_def)
    show "\<forall>x. x \<notin> metas ?a bs' \<longrightarrow> take_block ?n (of_nat h) (mem s) x = mem s x" using t(7) by blast
    have "8 dvd unat ?n" using unat_align_down [of "n + 7" 3] by (simp add: mask_eq_exp_minus_1)
    moreover have "live_bytes ?a bs \<subseteq> live_bytes ?a bs'" using t(6) unfolding live_bytes_def by auto
    ultimately show "heap_ok (s\<lparr>mem := take_block ?n (of_nat h) (mem s)\<rparr>) bs'"
      using assms(1) t(1-3) t(8) unfolding heap_ok_def by auto
    show "8 dvd h" by (rule t(9) [OF o(5,6)])
  qed (use h t(4) in simp_all)
qed

lemma alloc_formats:
  "plain_format ''kmalloc failed to allocate %u bytes'' [VWord n]"
  "plain_format ''Heap initialized at %p, size %u bytes'' [VWord n, VWord k]"
  by (simp_all add: plain_format_def format_simps)

lemma kmalloc_miss:
  fixes n :: u64 and s :: "'z heap_st_scheme"
  assumes "heap_ok s bs" and "log_ok s" and "n \<noteq> 0"
    and "take_first (unat ((n + 7) AND NOT 7)) (unat (g_heap_start s)) bs = None"
  shows "returns (kmalloc n s) (\<lambda>p t. p = 0 \<and> logged (level_tag LOG_ERROR @
    text_of ''kmalloc failed to allocate %u bytes'' [VWord ((n + 7) AND NOT 7)] @ newline) s t \<and> log_ok t \<and> heap_ok t bs)"
proof -
  let ?n = "(n + 7) AND NOT 7 :: u64"
  note o = heap_okD [OF assms(1)]
  have ff: "first_fit (mem s) ?n (g_heap_start s) = Some 0"
    using first_fit_take [OF o(1) _ o(3), of ?n] o(2) assms(4) by (subst o(4)) simp
  have k: "kmalloc n s = andthen (klog LOG_ERROR ''kmalloc failed to allocate %u bytes'' [VWord ?n] s) (\<lambda>_ s. Ret 0 s)"
    using assms(3) by (simp only: kmalloc_def Let_def if_False ff option.case not_True_eq_False simp_thms)
  show ?thesis unfolding k
    using klog_text [OF assms(2) alloc_formats(1) [of ?n], of LOG_ERROR] heap_ok_logged(1) [OF assms(1)]
    by (auto elim!: returns_weaken)
qed

lemma kfree_live:
  assumes "heap_ok s bs" and "(p, n) \<in> heap_live s bs" and "span p n \<inter> log_dirty s = {}" and "p < 2 ^ 64"
  obtains m where "kfree (of_nat p) s = Ret () (s\<lparr>mem := m\<rparr>)"
    and "heap_ok (s\<lparr>mem := m\<rparr>) (merge_free (release_at p (unat (g_heap_start s)) bs))"
    and "\<forall>x. x \<notin> metas (unat (g_heap_start s)) bs \<longrightarrow> m x = mem s x"
proof -
  let ?a = "unat (g_heap_start s)" and ?bs = "release_at p (unat (g_heap_start s)) bs"
  note o = heap_okD [OF assms(1)]
  note r = release_heap [OF assms(2) o(1,3)]
  have l: "?a + 32 \<le> p" using live_span [OF assms(2)] by simp
  then have p: "(of_nat p :: u64) - sizeof_heap_block = of_nat (p - 32)" "(of_nat p :: u64) \<noteq> 0"
    using unat_of_nat_less [OF assms(4)] by (auto simp: sizeof_heap_block_def of_nat_diff)
  have "link ?a ?bs = g_heap_start s" using r(5) by (simp add: link_def)
  moreover have "0 < ?a" "?a + extent ?bs \<le> 2 ^ 64" using o(2,3) r(2) by simp_all
  ultimately obtain m where m: "coalesce (g_heap_start s) (set_free (of_nat (p - 32)) True (mem s)) = Some m"
    "heap_at m ?a (merge_free ?bs)" "\<forall>x. x \<notin> metas ?a ?bs \<longrightarrow> m x = set_free (of_nat (p - 32)) True (mem s) x"
    using coalesce_merges [OF r(1)] by metis
  have lb: "live_bytes ?a (merge_free ?bs) = (\<Union>(q, k)\<in>heap_live s bs - {(p, n)}. span q k)"
    unfolding live_bytes_def live_merge r(4) ..
  show thesis
  proof (rule that)
    show "kfree (of_nat p) s = Ret () (s\<lparr>mem := m\<rparr>)"
      using p(2) r(8) m(1) by (simp only: kfree_def Let_def p(1) if_False option.case simp_thms)
    show "\<forall>x. x \<notin> metas ?a bs \<longrightarrow> m x = mem s x" using m(3) r(3,7) by simp
    have sub: "log_dirty s \<inter> span ?a (unat (g_heap_total_size s)) \<subseteq> live_bytes ?a bs" using assms(1) by (simp add: heap_ok_def)
    have "log_dirty s \<inter> span ?a (unat (g_heap_total_size s)) \<subseteq> live_bytes ?a (merge_free ?bs)"
    proof
      fix x assume x: "x \<in> log_dirty s \<inter> span ?a (unat (g_heap_total_size s))"
      then obtain q k where "(q, k) \<in> heap_live s bs" "x \<in> span q k" using sub unfolding live_bytes_def by auto
      moreover have "(q, k) \<noteq> (p, n)" using x assms(3) \<open>x \<in> span q k\<close> by auto
      ultimately show "x \<in> live_bytes ?a (merge_free ?bs)" unfolding lb by blast
    qed
    then show "heap_ok (s\<lparr>mem := m\<rparr>) (merge_free ?bs)"
      using assms(1) m(2) r(2,5,6) sizes_aligned_merge unfolding heap_ok_def by simp
  qed
qed

section \<open>The heap as an interface\<close>

text \<open>
  What a client of the allocator relies on. \<open>holds s B\<close>: the heap is well-formed and \<open>B\<close> are the allocated blocks
  (first byte, number of bytes); \<open>busy s\<close> are bytes that somebody else writes while the client works.
\<close>

locale allocator =
  fixes alloc :: "u64 \<Rightarrow> 's \<Rightarrow> (u64, 's) outcome" and release :: "u64 \<Rightarrow> 's \<Rightarrow> (unit, 's) outcome"
    and holds :: "'s \<Rightarrow> (nat \<times> nat) set \<Rightarrow> bool" and bytes :: "'s \<Rightarrow> memory" and busy :: "'s \<Rightarrow> u64 set"
  assumes alloc_law: "holds s B \<Longrightarrow> 0 < n \<Longrightarrow> unat n \<le> 2 ^ 64 - 8 \<Longrightarrow>
      returns (alloc n s) (\<lambda>p t. busy t = busy s \<and> (\<forall>(q, k)\<in>B. \<forall>x\<in>span q k - busy s. bytes t x = bytes s x) \<and>
        (p = 0 \<and> holds t B \<or> p \<noteq> 0 \<and> 8 dvd unat p \<and> unat p \<notin> fst ` B \<and>
          (\<exists>k\<ge>unat n. holds t (insert (unat p, k) B) \<and> span (unat p) k \<inter> busy s = {})))"
    and release_law: "holds s B \<Longrightarrow> (p, k) \<in> B \<Longrightarrow> 0 < k \<Longrightarrow> span p k \<inter> busy s = {} \<Longrightarrow>
      returns (release (of_nat p) s) (\<lambda>_ t. busy t = busy s \<and> holds t (B - {(p, k)}) \<and>
        (\<forall>(q, i)\<in>B. \<forall>x\<in>span q i. bytes t x = bytes s x))"
    and disjoint_law: "holds s B \<Longrightarrow> (p, k) \<in> B \<Longrightarrow> (q, i) \<in> B \<Longrightarrow> p \<noteq> q \<Longrightarrow> span p k \<inter> span q i = {}"
    and bound_law: "holds s B \<Longrightarrow> (p, k) \<in> B \<Longrightarrow> 0 < p \<and> p + k \<le> 2 ^ 64"
begin

text \<open>A new block overlaps no block that the client already has.\<close>

lemma alloc_fresh:
  assumes "holds s B" and "0 < n" and "unat n \<le> 2 ^ 64 - 8"
  shows "returns (alloc n s) (\<lambda>p t. (\<forall>(q, k)\<in>B. \<forall>x\<in>span q k - busy s. bytes t x = bytes s x) \<and> (p = 0 \<and> holds t B \<or>
    (\<exists>k\<ge>unat n. holds t (insert (unat p, k) B) \<and> 8 dvd unat p \<and> unat p + k \<le> 2 ^ 64 \<and> span (unat p) k \<inter> busy s = {} \<and>
      (\<forall>(q, i)\<in>B. span (unat p) k \<inter> span q i = {}))))"
  using alloc_law [OF assms]
proof (rule returns_weaken, elim conjE disjE exE)
  fix p t k
  assume k: "holds t (insert (unat p, k) B)" "unat p \<notin> fst ` B" "8 dvd unat p" "unat n \<le> k" "span (unat p) k \<inter> busy s = {}"
    and e: "\<forall>(q, k)\<in>B. \<forall>x\<in>span q k - busy s. bytes t x = bytes s x"
  have "span (unat p) k \<inter> span q i = {}" if "(q, i) \<in> B" for q i
    using that k(2) by (intro disjoint_law [OF k(1)]) force+
  then show "(\<forall>(q, k)\<in>B. \<forall>x\<in>span q k - busy s. bytes t x = bytes s x) \<and> (p = 0 \<and> holds t B \<or>
    (\<exists>k\<ge>unat n. holds t (insert (unat p, k) B) \<and> 8 dvd unat p \<and> unat p + k \<le> 2 ^ 64 \<and> span (unat p) k \<inter> busy s = {} \<and>
      (\<forall>(q, i)\<in>B. span (unat p) k \<inter> span q i = {})))"
    using k e bound_law [OF k(1), of "unat p" k] by blast
qed blast

text \<open>Giving a block back directly after it was taken leaves the client with the blocks and the bytes it had.\<close>

lemma alloc_release:
  assumes "holds s B" and "0 < n" and "unat n \<le> 2 ^ 64 - 8"
  shows "returns (alloc n s) (\<lambda>p t. p = 0 \<or>
    returns (release p t) (\<lambda>_ u. holds u B \<and> (\<forall>(q, i)\<in>B. \<forall>x\<in>span q i - busy s. bytes u x = bytes s x)))"
  using alloc_law [OF assms]
proof (rule returns_weaken, elim conjE disjE exE)
  fix p :: u64 and t k
  assume k: "holds t (insert (unat p, k) B)" "unat p \<notin> fst ` B" "span (unat p) k \<inter> busy s = {}" "busy t = busy s"
    and e: "\<forall>(q, k)\<in>B. \<forall>x\<in>span q k - busy s. bytes t x = bytes s x" and "unat n \<le> k"
  have b: "insert (unat p, k) B - {(unat p, k)} = B" using k(2) by force
  have "0 < k" using \<open>unat n \<le> k\<close> assms(2) by (simp add: word_less_nat_alt)
  then have "returns (release p t) (\<lambda>_ u. busy u = busy t \<and> holds u B \<and> (\<forall>(q, i)\<in>insert (unat p, k) B. \<forall>x\<in>span q i. bytes u x = bytes t x))"
    using release_law [OF k(1), of "unat p" k] k(3,4) by (simp add: b)
  then show "p = 0 \<or> returns (release p t) (\<lambda>_ u. holds u B \<and> (\<forall>(q, i)\<in>B. \<forall>x\<in>span q i - busy s. bytes u x = bytes s x))"
    using e by (intro disjI2) (erule returns_weaken, fastforce)
qed blast

end

definition heap_holds :: "'z heap_st_scheme \<Rightarrow> (nat \<times> nat) set \<Rightarrow> bool" where
  "heap_holds s B \<longleftrightarrow> log_ok s \<and> (\<exists>bs. heap_ok s bs \<and> heap_live s bs = B)"

lemma heap_holds_logged:
  fixes s t :: "'z heap_st_scheme"
  assumes "heap_holds s B" and "logged str s t" and "log_ok t"
  shows "heap_holds t B"
proof -
  obtain bs where bs: "heap_ok s bs" "heap_live s bs = B" using assms(1) by (auto simp: heap_holds_def)
  then show ?thesis using heap_ok_logged [OF bs(1) assms(2)] assms(3) by (auto simp: heap_holds_def)
qed

lemma live_not_meta: "heap_ok s bs \<Longrightarrow> (q, k) \<in> heap_live s bs \<Longrightarrow> x \<in> span q k \<Longrightarrow> x \<notin> metas (unat (g_heap_start s)) bs"
  using metas_live [of "unat (g_heap_start s)" bs] unfolding live_bytes_def by blast

lemma new_block_idle:
  assumes "heap_ok s bs" and "(p, k) \<in> heap_live s bs'" and "heap_live s bs \<subseteq> heap_live s bs'" and "p \<notin> fst ` heap_live s bs"
    and "extent bs' = extent bs"
  shows "span p k \<inter> log_dirty s = {}"
proof -
  have "x \<notin> log_dirty s" if x: "x \<in> span p k" for x
  proof
    assume d: "x \<in> log_dirty s"
    have "x \<in> span (unat (g_heap_start s)) (unat (g_heap_total_size s))"
      using x live_span [OF assms(2)] heap_okD(8) [OF assms(1)] assms(5) by (auto simp: span_iff)
    then obtain q i where q: "(q, i) \<in> heap_live s bs" "x \<in> span q i"
      using d assms(1) unfolding heap_ok_def live_bytes_def by blast
    then have "p \<noteq> q" using assms(4) by force
    then show False using live_disjoint [OF assms(2) subsetD [OF assms(3) q(1)]] x q(2) by blast
  qed
  then show ?thesis by blast
qed

lemma kmalloc_law:
  fixes s :: "'z heap_st_scheme"
  assumes "heap_holds s B" and "0 < n" and "unat n \<le> 2 ^ 64 - 8"
  shows "returns (kmalloc n s) (\<lambda>p t. log_dirty t = log_dirty s \<and> (\<forall>(q, k)\<in>B. \<forall>x\<in>span q k - log_dirty s. mem t x = mem s x) \<and>
        (p = 0 \<and> heap_holds t B \<or> p \<noteq> 0 \<and> 8 dvd unat p \<and> unat p \<notin> fst ` B \<and>
          (\<exists>k\<ge>unat n. heap_holds t (insert (unat p, k) B) \<and> span (unat p) k \<inter> log_dirty s = {})))"
proof -
  obtain bs where bs: "heap_ok s bs" "heap_live s bs = B" and ok: "log_ok s" using assms(1) by (auto simp: heap_holds_def)
  let ?n = "(n + 7) AND NOT 7 :: u64" and ?a = "unat (g_heap_start s)"
  have n0: "n \<noteq> 0" using assms(2) by auto
  have n: "unat n \<le> unat ?n" "0 < unat ?n" using round8 [OF assms(3)] assms(2) by (auto simp: word_less_nat_alt)
  show ?thesis
  proof (cases "take_first (unat ?n) ?a bs")
    case None
    have frame: "mem t x = mem s x" if "logged str s t" "x \<notin> log_dirty s" for str t x using that by (simp add: logged_def)
    from kmalloc_miss [OF bs(1) ok n0 None] show ?thesis
      by (rule returns_weaken) (use bs logged_sel(9) heap_ok_logged(2) [OF bs(1)] frame in \<open>fastforce simp: heap_holds_def\<close>)
  next
    case (Some hb)
    then obtain h bs' where t: "take_first (unat ?n) ?a bs = Some (h, bs')" by (cases hb) simp
    obtain m where m: "kmalloc n s = Ret (of_nat (h + 32)) (s\<lparr>mem := m\<rparr>)" "heap_ok (s\<lparr>mem := m\<rparr>) bs'"
      "\<forall>x. x \<notin> metas ?a bs' \<longrightarrow> m x = mem s x" "h + 32 + unat ?n \<le> 2 ^ 64" "8 dvd h"
      using kmalloc_hit [OF bs(1) n0 t] by metis
    note th = take_heap [OF t heap_okD(1-3) [OF bs(1)]]
    obtain k where k: "k \<ge> unat ?n" "heap_live s bs' = insert (h + 32, k) B" "h + 32 \<notin> fst ` B" using th(6) bs(2) by auto
    have u: "unat (of_nat (h + 32) :: u64) = h + 32" using m(4) n(2) by (intro unat_of_nat_less) simp
    have same: "m x = mem s x" if "(q, i) \<in> B" "x \<in> span q i" for q i x
      using that k(2) live_not_meta [OF m(2)] by (intro m(3) [rule_format]) auto
    have idle: "span (h + 32) k \<inter> log_dirty s = {}"
      by (rule new_block_idle [OF bs(1), of _ _ bs']) (use k bs(2) th(2) in auto)
    have "heap_holds (s\<lparr>mem := m\<rparr>) (insert (h + 32, k) B)" using ok m(2) k(2) by (auto simp: heap_holds_def)
    moreover have "(of_nat (h + 32) :: u64) \<noteq> 0" using u by (metis add_is_0 unat_0 zero_neq_numeral)
    ultimately show ?thesis using k n m(5) idle same
      unfolding m(1) returns_simps u by auto
  qed
qed

lemma kmalloc_frame:
  assumes "heap_holds s B" and "0 < n"
  shows "returns (kmalloc n s) (\<lambda>_ t. log_frame s t)"
proof -
  obtain bs where bs: "heap_ok s bs" and ok: "log_ok s" using assms(1) by (auto simp: heap_holds_def)
  have n0: "n \<noteq> 0" using assms(2) by auto
  show ?thesis
  proof (cases "take_first (unat ((n + 7) AND NOT 7)) (unat (g_heap_start s)) bs")
    case None
    from kmalloc_miss [OF bs ok n0 None] show ?thesis by (rule returns_weaken) (auto intro: logged_frame)
  next
    case (Some hb)
    then have "take_first (unat ((n + 7) AND NOT 7)) (unat (g_heap_start s)) bs = Some (fst hb, snd hb)" by simp
    then obtain m where "kmalloc n s = Ret (of_nat (fst hb + 32)) (s\<lparr>mem := m\<rparr>)" using kmalloc_hit [OF bs n0] by metis
    then show ?thesis by (simp add: mem_frame_upd)
  qed
qed

lemma kfree_law:
  fixes s :: "'z heap_st_scheme"
  assumes "heap_holds s B" and "(p, k) \<in> B" and "0 < k" and "span p k \<inter> log_dirty s = {}"
  shows "returns (kfree (of_nat p) s) (\<lambda>_ t. log_dirty t = log_dirty s \<and> heap_holds t (B - {(p, k)}) \<and>
        (\<forall>(q, i)\<in>B. \<forall>x\<in>span q i. mem t x = mem s x))"
proof -
  obtain bs where bs: "heap_ok s bs" "heap_live s bs = B" and ok: "log_ok s" using assms(1) by (auto simp: heap_holds_def)
  have l: "(p, k) \<in> heap_live s bs" using assms(2) bs(2) by simp
  have p: "p < 2 ^ 64" using live_span [OF l] heap_okD(3) [OF bs(1)] assms(3) by simp
  obtain m where m: "kfree (of_nat p) s = Ret () (s\<lparr>mem := m\<rparr>)"
    "heap_ok (s\<lparr>mem := m\<rparr>) (merge_free (release_at p (unat (g_heap_start s)) bs))"
    "\<forall>x. x \<notin> metas (unat (g_heap_start s)) bs \<longrightarrow> m x = mem s x"
    using kfree_live [OF bs(1) l assms(4) p] by metis
  have "heap_holds (s\<lparr>mem := m\<rparr>) (B - {(p, k)})"
    using ok m(2) release_heap(4) [OF l heap_okD(1,3) [OF bs(1)]] bs(2) by (auto simp: heap_holds_def)
  then show ?thesis using m(1,3) live_not_meta [OF bs(1)] bs(2) by auto
qed

interpretation heap: allocator kmalloc kfree heap_holds mem log_dirty
proof
  fix s :: "'z heap_st_scheme" and B p k q i
  show "returns (kmalloc n s) (\<lambda>p t. log_dirty t = log_dirty s \<and> (\<forall>(q, k)\<in>B. \<forall>x\<in>span q k - log_dirty s. mem t x = mem s x) \<and>
        (p = 0 \<and> heap_holds t B \<or> p \<noteq> 0 \<and> 8 dvd unat p \<and> unat p \<notin> fst ` B \<and>
          (\<exists>k\<ge>unat n. heap_holds t (insert (unat p, k) B) \<and> span (unat p) k \<inter> log_dirty s = {})))"
    if "heap_holds s B" "0 < n" "unat n \<le> 2 ^ 64 - 8" for n by (rule kmalloc_law [OF that])
  show "returns (kfree (of_nat p) s) (\<lambda>_ t. log_dirty t = log_dirty s \<and> heap_holds t (B - {(p, k)}) \<and>
        (\<forall>(q, i)\<in>B. \<forall>x\<in>span q i. mem t x = mem s x))"
    if "heap_holds s B" "(p, k) \<in> B" "0 < k" "span p k \<inter> log_dirty s = {}" by (rule kfree_law [OF that])
  show "span p k \<inter> span q i = {}" if "heap_holds s B" "(p, k) \<in> B" "(q, i) \<in> B" "p \<noteq> q"
    using that by (auto simp: heap_holds_def dest: live_disjoint)
  show "0 < p \<and> p + k \<le> 2 ^ 64" if "heap_holds s B" "(p, k) \<in> B"
    using that live_span heap_okD(3) by (fastforce simp: heap_holds_def)
qed

section \<open>Initialisation\<close>

definition first_block :: "u64 \<Rightarrow> u64 \<Rightarrow> memory \<Rightarrow> memory" where
  "first_block start sz m =
     set_free start True (set_next start 0 (set_size start (sz - sizeof_heap_block) (set_magic start HEAP_MAGIC m)))"

lemma first_block_heap:
  assumes "32 \<le> unat sz"
  shows "heap_at (first_block start sz m) (unat start) [Blk (unat sz - 32) True]"
proof -
  have "sz - 32 = of_nat (unat sz - 32)" using assms by (simp add: of_nat_diff)
  then show ?thesis by (simp add: first_block_def sizeof_heap_block_def link_def)
qed

lemma kalloc_init_returns:
  fixes s :: "'z heap_st_scheme"
  assumes "log_ok s" and "32 \<le> unat sz" and "8 < unat start" and "8 dvd unat start" and "unat start + unat sz \<le> 2 ^ 64"
    and "log_dirty s \<inter> span (unat start) (unat sz) = {}"
  shows "returns (kalloc_init start sz s) (\<lambda>_ t. log_ok t \<and> heap_ok t [Blk (unat sz - 32) True] \<and> g_heap_start t = start \<and>
    logged (level_tag LOG_INFO @ text_of ''Heap initialized at %p, size %u bytes'' [VWord start, VWord sz] @ newline)
      (s\<lparr>g_heap_start := start, g_heap_total_size := sz, mem := first_block start sz (mem s)\<rparr>) t)"
proof -
  let ?s = "s\<lparr>g_heap_start := start, g_heap_total_size := sz, mem := first_block start sz (mem s)\<rparr>"
  have d: "log_dirty ?s = log_dirty s" and ok: "log_ok ?s" using assms(1) by simp_all
  have h: "heap_ok ?s [Blk (unat sz - 32) True]"
    using assms first_block_heap [OF assms(2)] by (simp add: heap_ok_def d sizes_aligned_def)
  have "\<not> sz < sizeof_heap_block" using assms(2) by (simp add: sizeof_heap_block_def word_less_nat_alt)
  then have k: "kalloc_init start sz s = klog LOG_INFO ''Heap initialized at %p, size %u bytes'' [VWord start, VWord sz] ?s"
    by (simp add: kalloc_init_def first_block_def)
  show ?thesis unfolding k using klog_text [OF ok alloc_formats(2) [of start sz], of LOG_INFO]
    by (rule returns_weaken) (use heap_ok_logged [OF h] in auto)
qed

lemma heap_holds_write:
  assumes "heap_holds s B" and "(p, k) \<in> B" and "\<And>x. x \<notin> span p k \<Longrightarrow> m x = mem s x"
  shows "heap_holds (s\<lparr>mem := m\<rparr>) B"
proof -
  obtain bs where bs: "heap_ok s bs" "heap_live s bs = B" and ok: "log_ok s" using assms(1) by (auto simp: heap_holds_def)
  have "heap_ok (s\<lparr>mem := m\<rparr>) bs"
    using assms(2,3) bs unfolding live_bytes_def by (intro heap_ok_live_writes) (auto simp: live_bytes_def)
  then show ?thesis using bs(2) ok by (auto simp: heap_holds_def)
qed

section \<open>Outside the heap\<close>

text \<open>A request writes nothing outside the heap, except for a message on the console.\<close>

definition heap_span :: "'z heap_st_scheme \<Rightarrow> u64 set" where
  "heap_span s = span (unat (g_heap_start s)) (unat (g_heap_total_size s))"

lemma kmalloc_outside:
  fixes s :: "'z heap_st_scheme"
  assumes "heap_holds s B" and "0 < n"
  shows "returns (kmalloc n s) (\<lambda>p t. (p = 0 \<or> t = s\<lparr>mem := mem t\<rparr>) \<and>
    (\<forall>x. x \<notin> heap_span s \<union> log_dirty s \<longrightarrow> mem t x = mem s x))"
proof -
  obtain bs where bs: "heap_ok s bs" and ok: "log_ok s" using assms(1) by (auto simp: heap_holds_def)
  have n0: "n \<noteq> 0" using assms(2) by auto
  show ?thesis
  proof (cases "take_first (unat ((n + 7) AND NOT 7)) (unat (g_heap_start s)) bs")
    case None
    from kmalloc_miss [OF bs ok n0 None] show ?thesis by (rule returns_weaken) (auto dest: logged_mem)
  next
    case (Some hb)
    then have "take_first (unat ((n + 7) AND NOT 7)) (unat (g_heap_start s)) bs = Some (fst hb, snd hb)" by simp
    then obtain m where m: "kmalloc n s = Ret (of_nat (fst hb + 32)) (s\<lparr>mem := m\<rparr>)" "heap_ok (s\<lparr>mem := m\<rparr>) (snd hb)"
      "\<forall>x. x \<notin> metas (unat (g_heap_start s)) (snd hb) \<longrightarrow> m x = mem s x" using kmalloc_hit [OF bs n0] by metis
    have "metas (unat (g_heap_start s)) (snd hb) \<subseteq> heap_span s"
      using metas_span heap_okD(8) [OF m(2)] by (fastforce simp: heap_span_def)
    then show ?thesis using m(1,3) by auto
  qed
qed

lemma live_in_heap: "heap_holds s B \<Longrightarrow> (p, k) \<in> B \<Longrightarrow> span p k \<subseteq> heap_span s"
  using live_span heap_okD(8) by (fastforce simp: heap_holds_def heap_span_def span_iff)

section \<open>Room in the heap\<close>

text \<open>Memory determines the list of blocks.\<close>

lemma heap_at_unique:
  assumes "heap_at m a bs" and "heap_at m a cs" and "a + extent bs \<le> 2 ^ 64" and "a + extent cs \<le> 2 ^ 64" and "0 < a" and "bs = [] \<longleftrightarrow> cs = []"
  shows "bs = cs"
  using assms
proof (induction bs arbitrary: a cs)
  case (Cons b bs)
  then obtain c ds where cs: "cs = c # ds" by (cases cs) auto
  have z: "(of_nat (bsize b) :: u64) = of_nat (bsize c)" "bfree b = bfree c" using Cons.prems(1,2) cs by auto
  have "bsize b < 2 ^ 64" "bsize c < 2 ^ 64" using Cons.prems(3,4) cs by simp_all
  then have e: "bsize b = bsize c" using z(1) by (metis unat_of_nat_less)
  have l: "link (a + 32 + bsize b) bs = link (a + 32 + bsize b) ds" using Cons.prems(1,2) cs e by auto
  have nz: "link (a + 32 + bsize b) xs \<noteq> 0" if "xs \<noteq> []" "a + 32 + bsize b + extent xs \<le> 2 ^ 64" for xs
  proof -
    have "a + 32 + bsize b < 2 ^ 64" using that by (cases xs) auto
    then have "unat (of_nat (a + 32 + bsize b) :: u64) = a + 32 + bsize b" by (rule unat_of_nat_less)
    then have "(of_nat (a + 32 + bsize b) :: u64) \<noteq> 0" by (metis add_is_0 unat_0 zero_neq_numeral)
    then show ?thesis using that(1) by (simp add: link_def)
  qed
  have z0: "link (a + 32 + bsize b) xs = 0 \<longleftrightarrow> xs = []" if "a + 32 + bsize b + extent xs \<le> 2 ^ 64" for xs
    using nz [OF _ that] by (auto simp: link_def)
  have "a + 32 + bsize b + extent bs \<le> 2 ^ 64" "a + 32 + bsize b + extent ds \<le> 2 ^ 64" using Cons.prems(3,4) cs e by simp_all
  then have "bs = [] \<longleftrightarrow> ds = []" using l z0 by metis
  then have "bs = ds" using Cons.prems cs e by (intro Cons.IH [of "a + 32 + bsize b"]) auto
  then show ?case using cs e z(2) by (simp add: blk.expand)
qed simp

lemma heap_ok_unique: "heap_ok s bs \<Longrightarrow> heap_ok s cs \<Longrightarrow> bs = cs"
  using heap_okD [of s bs] heap_okD [of s cs] by (intro heap_at_unique [of "mem s" "unat (g_heap_start s)"]) auto

text \<open>\<open>heap_room s r\<close>: some free block has at least \<open>r\<close> bytes, so that requests up to \<open>r\<close> succeed.\<close>

definition heap_room :: "'z heap_st_scheme \<Rightarrow> nat \<Rightarrow> bool" where
  "heap_room s r \<longleftrightarrow> (\<exists>bs. heap_ok s bs \<and> (\<exists>b\<in>set bs. bfree b \<and> r \<le> bsize b))"

lemma kmalloc_room:
  fixes s :: "'z heap_st_scheme"
  assumes "heap_room s r" and "n \<noteq> 0" and "unat n \<le> 2 ^ 64 - 8" and N: "N = (unat n + 7) div 8 * 8" and "N \<le> r"
  shows "returns (kmalloc n s) (\<lambda>p t. p \<noteq> 0 \<and> (N + 40 \<le> r \<longrightarrow> heap_room t (r - N - 32)))"
proof -
  obtain bs b where bs: "heap_ok s bs" "b \<in> set bs" "bfree b" "r \<le> bsize b" using assms(1) by (auto simp: heap_room_def)
  have u: "unat ((n + 7) AND NOT 7) = N" using round8 [OF assms(3)] N by simp
  obtain h bs' where t: "take_first N (unat (g_heap_start s)) bs = Some (h, bs')"
    using bs assms(5) take_first_none [of N "unat (g_heap_start s)" bs] by (cases "take_first N (unat (g_heap_start s)) bs") auto
  obtain m where m: "kmalloc n s = Ret (of_nat (h + 32)) (s\<lparr>mem := m\<rparr>)" "heap_ok (s\<lparr>mem := m\<rparr>) bs'" "h + 32 + N \<le> 2 ^ 64"
    using kmalloc_hit [OF bs(1) assms(2), unfolded u, OF t] by metis
  have "0 < N" using assms(2) N by (auto simp: unat_gt_0 [symmetric])
  then have "unat (of_nat (h + 32) :: u64) = h + 32" using m(3) by (intro unat_of_nat_less) simp
  then have nz: "(of_nat (h + 32) :: u64) \<noteq> 0" by (metis add_is_0 unat_0 zero_neq_numeral)
  obtain pre c post where c: "bs = pre @ c # post" "bs' = pre @ cut N c @ post" by (rule take_first_split [OF t])
  have "heap_room (s\<lparr>mem := m\<rparr>) (r - N - 32)" if "N + 40 \<le> r"
  proof (cases "b = c")
    case True
    then have "Blk (bsize b - N - 32) True \<in> set bs'" using c(2) bs(4) that by (simp add: cut_def)
    then show ?thesis using m(2) bs(4) by (force simp: heap_room_def)
  next
    case False
    then have "b \<in> set bs'" using bs(2) c by auto
    then show ?thesis using m(2) bs(3,4) by (force simp: heap_room_def)
  qed
  then show ?thesis using m(1) nz by simp
qed

text \<open>A request fails exactly when no free block has room for its size, rounded up to a multiple of 8.\<close>

lemma kmalloc_fails:
  fixes s :: "'z heap_st_scheme"
  assumes "heap_holds s B" and "n \<noteq> 0" and "unat n \<le> 2 ^ 64 - 8"
  shows "returns (kmalloc n s) (\<lambda>p _. p = 0 \<longleftrightarrow> \<not> heap_room s ((unat n + 7) div 8 * 8))"
proof -
  let ?N = "(unat n + 7) div 8 * 8" and ?t = "\<lambda>bs. take_first ((unat n + 7) div 8 * 8) (unat (g_heap_start s)) bs"
  obtain bs where bs: "heap_ok s bs" and ok: "log_ok s" using assms(1) by (auto simp: heap_holds_def)
  have room: "heap_room s ?N \<longleftrightarrow> ?t bs \<noteq> None"
    using bs heap_ok_unique [OF bs] take_first_none [of ?N _ bs] unfolding heap_room_def by (metis not_less)
  show ?thesis
  proof (cases "?t bs")
    case None
    from kmalloc_miss [OF bs ok assms(2), unfolded round8 [OF assms(3)], OF None] room None show ?thesis
      by (auto elim!: returns_weaken)
  next
    case (Some hb)
    then have t: "?t bs = Some (fst hb, snd hb)" by simp
    obtain m where m: "kmalloc n s = Ret (of_nat (fst hb + 32)) (s\<lparr>mem := m\<rparr>)" "fst hb + 32 + ?N \<le> 2 ^ 64"
      using kmalloc_hit [OF bs assms(2), unfolded round8 [OF assms(3)], OF t] by metis
    have "0 < unat n" using assms(2) by (simp add: unat_gt_0)
    then have "fst hb + 32 < 2 ^ 64" using m(2) by auto
    then have "unat (of_nat (fst hb + 32) :: u64) = fst hb + 32" by (rule unat_of_nat_less)
    then have "(of_nat (fst hb + 32) :: u64) \<noteq> 0" by (metis add_is_0 unat_0 zero_neq_numeral)
    then show ?thesis using m(1) room Some by simp
  qed
qed

lemma heap_outside_writes:
  assumes "heap_holds s B" and "\<forall>x\<in>heap_span s. m x = mem s x"
  shows "heap_holds (s\<lparr>mem := m\<rparr>) B" and "heap_room s r \<Longrightarrow> heap_room (s\<lparr>mem := m\<rparr>) r"
proof -
  obtain bs where bs: "heap_ok s bs" "heap_live s bs = B" and ok: "log_ok s" using assms(1) by (auto simp: heap_holds_def)
  have "metas (unat (g_heap_start s)) bs \<subseteq> heap_span s"
    using metas_span heap_okD(8) [OF bs(1)] by (fastforce simp: heap_span_def)
  then have h: "heap_ok (s\<lparr>mem := m\<rparr>) bs" using assms(2) by (intro heap_ok_writes [OF bs(1)]) auto
  then show "heap_holds (s\<lparr>mem := m\<rparr>) B" using bs(2) ok by (auto simp: heap_holds_def)
  show "heap_room (s\<lparr>mem := m\<rparr>) r" if "heap_room s r"
    using that h heap_ok_unique [OF bs(1)] by (auto simp: heap_room_def)
qed

lemma heap_room_write:
  assumes "heap_room s r" and "heap_holds s B" and "(p, k) \<in> B" and "\<And>x. x \<notin> span p k \<Longrightarrow> m x = mem s x"
  shows "heap_room (s\<lparr>mem := m\<rparr>) r"
proof -
  obtain bs where bs: "heap_ok s bs" "heap_live s bs = B" using assms(2) by (auto simp: heap_holds_def)
  have "heap_ok (s\<lparr>mem := m\<rparr>) bs"
    using assms(3,4) bs unfolding live_bytes_def by (intro heap_ok_live_writes) (auto simp: live_bytes_def)
  then show ?thesis using assms(1) heap_ok_unique [OF bs(1)] by (auto simp: heap_room_def)
qed

lemma heap_room_logged:
  fixes s t :: "'z heap_st_scheme"
  shows "heap_room s r \<Longrightarrow> logged str s t \<Longrightarrow> heap_room t r"
  using heap_ok_logged(1) by (fastforce simp: heap_room_def)

section \<open>Properties\<close>

definition demo_heap :: heap_st where
  "demo_heap = log_st.extend (demo_log\<lparr>mem := first_block 0x900000 0x1000 (mem demo_log)\<rparr>)
     \<lparr>g_heap_start = 0x900000, g_heap_total_size = 0x1000\<rparr>"

lemma demo_heap_sel [simp]:
  "g_heap_start demo_heap = 0x900000" "g_heap_total_size demo_heap = 0x1000" "mem demo_heap = first_block 0x900000 0x1000 (mem demo_log)"
  by (simp_all add: demo_heap_def log_st.defs)

lemma demo_heap_log: "log_ok demo_heap" "log_dirty demo_heap = log_dirty demo_log"
proof -
  have "log_ok demo_heap = log_ok demo_log" by (simp add: demo_heap_def log_st.defs log_ok_defs)
  then show "log_ok demo_heap" using demo_log_ok by simp
  show "log_dirty demo_heap = log_dirty demo_log" by (simp add: demo_heap_def log_st.defs log_ok_defs)
qed

lemma demo_log_dirty: "log_dirty demo_log \<inter> span 0x900000 0x1000 = {}"
proof -
  have d: "log_dirty demo_log = region 0x800000 48 \<union> region 0xFD000000 128"
    by (simp add: log_ok_defs demo_log_def con_st.defs)
  have "region 0x800000 48 = span 0x800000 48" "region 0xFD000000 128 = span 0xFD000000 128"
    using span_region [of "0x800000" 48] span_region [of "0xFD000000" 128] by simp_all
  then show ?thesis unfolding d by (auto simp: span_iff)
qed

lemma demo_heap_ok: "heap_ok demo_heap [Blk 4064 True]"
  using first_block_heap [of "0x1000" "0x900000" "mem demo_log"] demo_log_dirty
  by (simp add: heap_ok_def sizes_aligned_def demo_heap_log)

lemma demo_heap_holds: "heap_holds demo_heap {}"
  unfolding heap_holds_def using demo_heap_ok demo_heap_log(1) by (auto intro!: exI [of _ "[Blk 4064 True]"])

text \<open>
  C17. \<open>kmalloc\<close> always returns. It returns a null pointer, with the allocated blocks as they were, or an aligned
  block of at least the requested size that overlaps no allocated block; in both cases the contents of the
  allocated blocks stay (a failed request prints a message, which may change the console's own buffer).
\<close>

theorem kmalloc_fresh_block:
  assumes "heap_holds s B" and "0 < n" and "unat n \<le> 2 ^ 64 - 8"
  shows "\<exists>p t. kmalloc n s = Ret p t \<and> (\<forall>(q, k)\<in>B. \<forall>x\<in>span q k - log_dirty s. mem t x = mem s x) \<and> (p = 0 \<and> heap_holds t B \<or>
    (\<exists>k\<ge>unat n. heap_holds t (insert (unat p, k) B) \<and> 8 dvd unat p \<and> unat p + k \<le> 2 ^ 64 \<and> span (unat p) k \<inter> log_dirty s = {} \<and>
      (\<forall>(q, i)\<in>B. span (unat p) k \<inter> span q i = {})))"
  using heap.alloc_fresh [OF assms] unfolding returns_conv .

theorem kmalloc_fresh_block_witness:
  "\<exists>p t. kmalloc 100 demo_heap = Ret p t \<and> (p = 0 \<and> heap_holds t {} \<or> (\<exists>k\<ge>100. heap_holds t {(unat p, k)} \<and> 8 dvd unat p))"
  using kmalloc_fresh_block [OF demo_heap_holds, of 100] by auto

text \<open>
  C18. \<open>kmalloc\<close> implements first fit on the list of blocks: it fails exactly when no free block is large enough for
  the size rounded up to a multiple of 8, and otherwise takes the first such block, cutting off the rest when a
  header and 8 bytes remain.
\<close>

theorem kmalloc_first_fit:
  assumes "heap_ok s bs" and "log_ok s" and "n \<noteq> 0" and "unat n \<le> 2 ^ 64 - 8"
  shows "\<exists>p t. kmalloc n s = Ret p t \<and> log_ok t \<and>
    (case take_first ((unat n + 7) div 8 * 8) (unat (g_heap_start s)) bs of
       None \<Rightarrow> p = 0 \<and> heap_ok t bs
     | Some (h, bs') \<Rightarrow> unat p = h + 32 \<and> heap_ok t bs')"
proof (cases "take_first (unat ((n + 7) AND NOT 7)) (unat (g_heap_start s)) bs")
  case None
  with kmalloc_miss [OF assms(1-3) None] show ?thesis
    unfolding returns_conv round8 [OF assms(4), symmetric] by auto
next
  case (Some hb)
  then obtain h bs' where t: "take_first (unat ((n + 7) AND NOT 7)) (unat (g_heap_start s)) bs = Some (h, bs')" by (cases hb) simp
  have "0 < unat n" using assms(3) by (simp add: unat_gt_0)
  then have pos: "0 < unat ((n + 7) AND NOT 7)" unfolding round8 [OF assms(4)] by auto
  obtain m where m: "kmalloc n s = Ret (of_nat (h + 32)) (s\<lparr>mem := m\<rparr>)" "heap_ok (s\<lparr>mem := m\<rparr>) bs'"
    "h + 32 + unat ((n + 7) AND NOT 7) \<le> 2 ^ 64" using kmalloc_hit [OF assms(1,3) t] by metis
  have "unat (of_nat (h + 32) :: u64) = h + 32" using m(3) pos by (intro unat_of_nat_less) simp
  then show ?thesis using m(1,2) assms(2) t unfolding round8 [OF assms(4), symmetric] by auto
qed

theorem kmalloc_first_fit_witness:
  "\<exists>p t. kmalloc 100 demo_heap = Ret p t \<and> unat p = 0x900020 \<and> heap_ok t [Blk 104 False, Blk 3928 True]"
  using kmalloc_first_fit [OF demo_heap_ok demo_heap_log(1), of 100] by auto

text \<open>
  C19. \<open>kfree\<close> of an allocated block always returns: exactly that block is no longer allocated, no two free blocks
  are neighbours any more, and the contents of all blocks stay.
\<close>

theorem kfree_releases:
  assumes "heap_ok s bs" and "(p, n) \<in> heap_live s bs" and "span p n \<inter> log_dirty s = {}" and "p < 2 ^ 64"
  shows "\<exists>t bs'. kfree (of_nat p) s = Ret () t \<and> heap_ok t bs' \<and> heap_live t bs' = heap_live s bs - {(p, n)} \<and> merged bs' \<and>
    (\<forall>x. x \<notin> metas (unat (g_heap_start s)) bs \<longrightarrow> mem t x = mem s x)"
proof -
  let ?bs = "merge_free (release_at p (unat (g_heap_start s)) bs)"
  obtain m where m: "kfree (of_nat p) s = Ret () (s\<lparr>mem := m\<rparr>)" "heap_ok (s\<lparr>mem := m\<rparr>) ?bs"
    "\<forall>x. x \<notin> metas (unat (g_heap_start s)) bs \<longrightarrow> m x = mem s x"
    using kfree_live [OF assms] by metis
  moreover have "heap_live (s\<lparr>mem := m\<rparr>) ?bs = heap_live s bs - {(p, n)}"
    using release_heap(4) [OF assms(2) heap_okD(1,3) [OF assms(1)]] by simp
  ultimately show ?thesis
    by (intro exI [of _ "s\<lparr>mem := m\<rparr>"] exI [of _ ?bs]) (simp add: merged_merge)
qed

lemma demo_heap_taken:
  obtains m where "heap_ok (demo_heap\<lparr>mem := m\<rparr>) [Blk 104 False, Blk 3928 True]"
proof -
  have n: "unat ((100 + 7 :: u64) AND NOT 7) = 104" using round8 [of 100] by simp
  have "take_first (unat ((100 + 7 :: u64) AND NOT 7)) (unat (g_heap_start demo_heap)) [Blk 4064 True] =
      Some (0x900000, [Blk 104 False, Blk 3928 True])" unfolding n by simp
  then show thesis by (rule kmalloc_hit [OF demo_heap_ok, rotated]) (rule that, assumption, simp)
qed

theorem kfree_releases_witness:
  "\<exists>(s :: heap_st) t bs'. kfree 0x900020 s = Ret () t \<and> heap_live s [Blk 104 False, Blk 3928 True] = {(0x900020, 104)} \<and>
     heap_ok t bs' \<and> heap_live t bs' = {}"
proof -
  obtain m where m: "heap_ok (demo_heap\<lparr>mem := m\<rparr>) [Blk 104 False, Blk 3928 True]" by (rule demo_heap_taken)
  have "span 0x900020 104 \<inter> log_dirty (demo_heap\<lparr>mem := m\<rparr>) = {}"
    using demo_log_dirty by (auto simp: demo_heap_log(2) span_iff)
  then obtain t bs' where "kfree 0x900020 (demo_heap\<lparr>mem := m\<rparr>) = Ret () t" "heap_ok t bs'" "heap_live t bs' = {}"
    using kfree_releases [OF m, of "0x900020" 104] by auto
  then show ?thesis by (intro exI [of _ "demo_heap\<lparr>mem := m\<rparr>"] exI [of _ t] exI [of _ bs']) simp
qed

text \<open>
  C20. Nothing leaks: taking a block and giving it back restores the list of blocks, whenever no two free blocks
  were neighbours before, as \<open>kalloc_init\<close> and every \<open>kfree\<close> leave them.
\<close>

theorem kmalloc_kfree_restores:
  assumes "heap_ok s bs" and "merged bs" and "n \<noteq> 0" and "unat n \<le> 2 ^ 64 - 8"
    and "take_first ((unat n + 7) div 8 * 8) (unat (g_heap_start s)) bs \<noteq> None"
  shows "\<exists>p t u. kmalloc n s = Ret p t \<and> kfree p t = Ret () u \<and> heap_ok u bs"
proof -
  let ?a = "unat (g_heap_start s)" and ?n = "(n + 7) AND NOT 7 :: u64"
  obtain h bs' where t: "take_first (unat ?n) ?a bs = Some (h, bs')" using assms(5) unfolding round8 [OF assms(4), symmetric] by auto
  obtain m where m: "kmalloc n s = Ret (of_nat (h + 32)) (s\<lparr>mem := m\<rparr>)" "heap_ok (s\<lparr>mem := m\<rparr>) bs'"
    "h + 32 + unat ?n \<le> 2 ^ 64" using kmalloc_hit [OF assms(1,3) t] by metis
  obtain pre b post where c: "bs = pre @ b # post" "bfree b" "unat ?n \<le> bsize b" "h = ?a + extent pre" "bs' = pre @ cut (unat ?n) b @ post"
    by (rule take_first_split [OF t])
  have "0 < unat n" using assms(3) by (simp add: unat_gt_0)
  then have pos: "0 < unat ?n" unfolding round8 [OF assms(4)] by auto
  define k where "k = (if unat ?n + 40 \<le> bsize b then unat ?n else bsize b)"
  have l: "(h + 32, k) \<in> heap_live (s\<lparr>mem := m\<rparr>) bs'" by (simp add: c(4,5) cut_def k_def)
  note th = take_heap [OF t heap_okD(1-3) [OF assms(1)]]
  have "span (h + 32) k \<inter> log_dirty s = {}"
    by (rule new_block_idle [OF assms(1), of _ _ bs']) (use l th(2,6) in auto)
  then have idle: "span (h + 32) k \<inter> log_dirty (s\<lparr>mem := m\<rparr>) = {}" by simp
  have "merge_free (release_at (h + 32) ?a bs') = bs"
  proof (cases "unat ?n + 40 \<le> bsize b")
    case True
    obtain r where r: "b = Blk (unat ?n + 32 + r) True" using True c(2) by (cases b) (auto intro: that [of "bsize b - unat ?n - 32"])
    then have "bs' = pre @ Blk (unat ?n) False # Blk r True # post" using True c(5) by (simp add: cut_def)
    then show ?thesis
      using release_split [of ?a pre "Blk (unat ?n) False" "Blk r True # post"] merge_cut [of pre "unat ?n" r post] assms(2)
      unfolding c(1,4) r by simp
  next
    case False
    then have "bs' = pre @ Blk (bsize b) False # post" using c(5) by (simp add: cut_def)
    moreover have "Blk (bsize b) True = b" using c(2) by (cases b) simp
    ultimately show ?thesis
      using release_split [of ?a pre "Blk (bsize b) False" post] merge_id [OF assms(2)] unfolding c(1,4) by simp
  qed
  moreover have "h + 32 < 2 ^ 64" using m(3) pos by simp
  ultimately obtain m' where "kfree (of_nat (h + 32)) (s\<lparr>mem := m\<rparr>) = Ret () (s\<lparr>mem := m'\<rparr>)" "heap_ok (s\<lparr>mem := m'\<rparr>) bs"
    using kfree_live [OF m(2) l idle] by auto
  then show ?thesis using m(1) by blast
qed

theorem kmalloc_kfree_restores_witness:
  "\<exists>p t u. kmalloc 100 demo_heap = Ret p t \<and> kfree p t = Ret () u \<and> heap_ok u [Blk 4064 True]"
  using kmalloc_kfree_restores [OF demo_heap_ok, of 100] by simp

text \<open>
  \<open>kcalloc\<close> always returns: a null pointer or a fresh block whose first \<open>nmemb * size\<close> bytes are zero, the
  product taken modulo \<open>2 ^ 64\<close> as the code does. The contents of the other blocks stay.
\<close>

theorem kcalloc_zeroed:
  assumes "heap_holds s B" and "0 < nmemb * sz" and "unat (nmemb * sz) \<le> 2 ^ 64 - 8"
  shows "\<exists>p t. kcalloc nmemb sz s = Ret p t \<and> (\<forall>(q, k)\<in>B. \<forall>x\<in>span q k - log_dirty s. mem t x = mem s x) \<and> (p = 0 \<and> heap_holds t B \<or>
    (\<exists>k\<ge>unat (nmemb * sz). heap_holds t (insert (unat p, k) B) \<and> (\<forall>x\<in>region p (unat (nmemb * sz)). mem t x = 0)))"
proof -
  let ?n = "nmemb * sz"
  obtain p t where t: "kmalloc ?n s = Ret p t" and fr: "\<forall>(q, k)\<in>B. \<forall>x\<in>span q k - log_dirty s. mem t x = mem s x" and
    c: "p = 0 \<and> heap_holds t B \<or> (\<exists>k\<ge>unat ?n. heap_holds t (insert (unat p, k) B) \<and> unat p + k \<le> 2 ^ 64 \<and>
      (\<forall>(q, i)\<in>B. span (unat p) k \<inter> span q i = {}))"
    using heap.alloc_fresh [OF assms] unfolding returns_conv by blast
  show ?thesis
  proof (cases "p = 0")
    case True
    then have "heap_holds t B" using c heap.bound_law [of t "insert (unat p, k) B" "unat p" k for k] by auto
    then show ?thesis using True t fr by (auto simp: kcalloc_def)
  next
    case False
    then obtain k where k: "k \<ge> unat ?n" "heap_holds t (insert (unat p, k) B)" "unat p + k \<le> 2 ^ 64"
      "\<forall>(q, i)\<in>B. span (unat p) k \<inter> span q i = {}" using c by blast
    let ?u = "t\<lparr>mem := memset p 0 ?n (mem t)\<rparr>"
    have "region p (unat ?n) = span (unat p) (unat ?n)" using k(1,3) span_region [of p "unat ?n"] by simp
    then have sub: "region p (unat ?n) \<subseteq> span (unat p) k" using k(1) by (auto simp: span_iff)
    have "heap_holds ?u (insert (unat p, k) B)"
      by (rule heap_holds_write [OF k(2)]) (use sub in \<open>auto simp: memset_spec\<close>)
    moreover have "\<forall>(q, i)\<in>B. \<forall>x\<in>span q i - log_dirty s. mem ?u x = mem s x"
      using fr k(4) sub by (fastforce simp: memset_spec)
    ultimately show ?thesis using t False k(1) by (auto simp: kcalloc_def memset_spec)
  qed
qed

text \<open>
  C21. \<open>kalloc_init\<close> sets the heap up: on an aligned range of at least 32 bytes that the console does not use it
  returns with a well-formed heap of one free block, and nothing allocated.
\<close>

theorem kalloc_init_establishes:
  assumes "log_ok s" and "32 \<le> unat sz" and "8 < unat start" and "8 dvd unat start" and "unat start + unat sz \<le> 2 ^ 64"
    and "log_dirty s \<inter> span (unat start) (unat sz) = {}"
  shows "\<exists>t. kalloc_init start sz s = Ret () t \<and> heap_holds t {} \<and> heap_ok t [Blk (unat sz - 32) True] \<and> g_heap_start t = start"
proof -
  obtain t where t: "kalloc_init start sz s = Ret () t" "log_ok t" "heap_ok t [Blk (unat sz - 32) True]" "g_heap_start t = start"
    using kalloc_init_returns [OF assms] unfolding returns_conv by auto
  then have "heap_holds t {}" unfolding heap_holds_def by (auto intro!: exI [of _ "[Blk (unat sz - 32) True]"])
  then show ?thesis using t by blast
qed

theorem kalloc_init_establishes_witness:
  "\<exists>t. kalloc_init 0x900000 0x1000 demo_heap = Ret () t \<and> heap_ok t [Blk 4064 True]"
  using kalloc_init_establishes [OF demo_heap_log(1), of "0x1000" "0x900000"] demo_log_dirty by (auto simp: demo_heap_log(2))

text \<open>
  Rounding a request up to a multiple of 8 wraps around: a request of almost \<open>2 ^ 64\<close> bytes succeeds with a block
  of no bytes at all.
\<close>

theorem kmalloc_size_wraps:
  assumes "heap_ok s (b # bs)" and "bfree b" and "40 \<le> bsize b" and "2 ^ 64 - 8 < unat n"
  shows "\<exists>t. kmalloc n s = Ret (g_heap_start s + 32) t \<and> heap_ok t (Blk 0 False # Blk (bsize b - 32) True # bs)"
proof -
  have "(unat n + 7) mod 2 ^ 64 = unat n + 7 - 2 ^ 64" using assms(4) unat64_bound [of n] by (subst le_mod_geq) simp_all
  then have "unat (n + 7) < 8" using unat64_bound [of n] by (simp add: unat_word_ariths)
  then have z: "unat ((n + 7) AND NOT 7) = 0" using unat_align_down [of "n + 7" 3] by (simp add: mask_eq_exp_minus_1)
  have "n \<noteq> 0" using assms(4) by auto
  moreover have "take_first (unat ((n + 7) AND NOT 7)) (unat (g_heap_start s)) (b # bs) =
      Some (unat (g_heap_start s), Blk 0 False # Blk (bsize b - 32) True # bs)" unfolding z using assms(2,3) by simp
  ultimately obtain m where "kmalloc n s = Ret (of_nat (unat (g_heap_start s) + 32)) (s\<lparr>mem := m\<rparr>)"
    "heap_ok (s\<lparr>mem := m\<rparr>) (Blk 0 False # Blk (bsize b - 32) True # bs)" using kmalloc_hit [OF assms(1)] by blast
  then show ?thesis by auto
qed

text \<open>
  The magic number does not detect a second \<open>kfree\<close> of the same block: as long as the block is still in the
  list, freeing it again returns as if nothing were wrong.
\<close>

theorem kfree_twice_unnoticed:
  assumes "heap_ok s (pre @ Blk n True # post)" and "p = unat (g_heap_start s) + extent pre + 32" and "p < 2 ^ 64"
  shows "\<exists>t. kfree (of_nat p) s = Ret () t \<and> heap_ok t (merge_free (pre @ Blk n True # post))"
proof -
  let ?a = "unat (g_heap_start s)" and ?bs = "pre @ Blk n True # post" and ?h = "unat (g_heap_start s) + extent pre"
  note o = heap_okD [OF assms(1)]
  note f = set_free_block [OF o(1,3)]
  have p: "(of_nat p :: u64) - sizeof_heap_block = of_nat ?h" "(of_nat p :: u64) \<noteq> 0"
    using unat_of_nat_less [OF assms(3)] assms(2) by (auto simp: sizeof_heap_block_def)
  obtain m where m: "coalesce (link ?a ?bs) (set_free (of_nat ?h) True (mem s)) = Some m" "heap_at m ?a (merge_free ?bs)"
    using coalesce_merges [OF f(1) _ o(3)] o(2) by auto
  have "kfree (of_nat p) s = Ret () (s\<lparr>mem := m\<rparr>)"
    using p(2) f(3) m(1) by (simp only: kfree_def Let_def p(1) o(4) [symmetric] if_False option.case simp_thms)
  moreover have "heap_ok (s\<lparr>mem := m\<rparr>) (merge_free ?bs)"
    using assms(1) m(2) sizes_aligned_merge [of ?bs] unfolding heap_ok_def live_bytes_def by simp
  ultimately show ?thesis by blast
qed

end
