(* ===== verification/Acpi.thy ===== *)
theory Acpi
  imports Multiboot Alloc
begin

text \<open>
  The ACPI tables, \<^verbatim>\<open>drivers/acpi.c\<close> and \<^verbatim>\<open>drivers/madt.c\<close>: the kernel finds the table of interrupt controllers (MADT)
  and that of the event timer (HPET) in the root table, counts the enabled processors and answers questions on the
  MADT's entries. All data is read from the firmware's tables in memory, field by field.
\<close>

section \<open>The table of interrupt controllers\<close>

record acpi_st = heap_st +
  madt_table :: u64
  cpu_count :: u32
  hpet_table :: u64

definition MADT_TYPE_LAPIC :: u8 where "MADT_TYPE_LAPIC = 0"
definition MADT_TYPE_IOAPIC :: u8 where "MADT_TYPE_IOAPIC = 1"
definition MADT_TYPE_ISO :: u8 where "MADT_TYPE_ISO = 2"
definition MADT_TYPE_LAPIC_NMI :: u8 where "MADT_TYPE_LAPIC_NMI = 4"
definition MADT_TYPE_LAPIC_OVERRIDE :: u8 where "MADT_TYPE_LAPIC_OVERRIDE = 5"

lemmas madt_type_defs = MADT_TYPE_LAPIC_def MADT_TYPE_IOAPIC_def MADT_TYPE_ISO_def MADT_TYPE_LAPIC_NMI_def MADT_TYPE_LAPIC_OVERRIDE_def

text \<open>
  \<open>acpi_sdt_header_t\<close> is 36 bytes with the length at 4. \<open>madt_t\<close> has the controllers' address at 36 and its entries
  from 44 on; an entry begins with a type and a length byte.
\<close>

definition sizeof_sdt_header :: u64 where "sizeof_sdt_header = 36"
definition sdt_length :: "memory \<Rightarrow> u64 \<Rightarrow> u32" where "sdt_length m table = load32 m (table + 4)"
definition madt_entries :: "u64 \<Rightarrow> u64" where "madt_entries madt = madt + 44"
definition madt_end :: "memory \<Rightarrow> u64 \<Rightarrow> u64" where "madt_end m madt = madt + ucast (sdt_length m madt)"
definition ics_type :: "memory \<Rightarrow> u64 \<Rightarrow> u8" where "ics_type m ptr = load8 m ptr"
definition ics_next :: "memory \<Rightarrow> u64 \<Rightarrow> u64" where "ics_next m ptr = ptr + ucast (load8 m (ptr + 1))"

definition lapic_uid :: "memory \<Rightarrow> u64 \<Rightarrow> u8" where "lapic_uid m ptr = load8 m (ptr + 2)"
definition lapic_apic_id :: "memory \<Rightarrow> u64 \<Rightarrow> u8" where "lapic_apic_id m ptr = load8 m (ptr + 3)"
definition lapic_flags :: "memory \<Rightarrow> u64 \<Rightarrow> u32" where "lapic_flags m ptr = load32 m (ptr + 4)"

text \<open>\<open>madt_ioapic_t\<close>, \<open>madt_iso_t\<close>, \<open>madt_lapic_nmi_t\<close>, and the address in an entry that overrides the table's.\<close>

definition ioapic_id_of :: "memory \<Rightarrow> u64 \<Rightarrow> u8" where "ioapic_id_of m ptr = load8 m (ptr + 2)"
definition ioapic_addr :: "memory \<Rightarrow> u64 \<Rightarrow> u32" where "ioapic_addr m ptr = load32 m (ptr + 4)"
definition ioapic_gsi_base :: "memory \<Rightarrow> u64 \<Rightarrow> u32" where "ioapic_gsi_base m ptr = load32 m (ptr + 8)"
definition iso_source :: "memory \<Rightarrow> u64 \<Rightarrow> u8" where "iso_source m ptr = load8 m (ptr + 3)"
definition iso_gsi :: "memory \<Rightarrow> u64 \<Rightarrow> u32" where "iso_gsi m ptr = load32 m (ptr + 4)"
definition iso_flags :: "memory \<Rightarrow> u64 \<Rightarrow> u16" where "iso_flags m ptr = load16 m (ptr + 8)"
definition nmi_uid :: "memory \<Rightarrow> u64 \<Rightarrow> u8" where "nmi_uid m ptr = load8 m (ptr + 2)"
definition nmi_lint :: "memory \<Rightarrow> u64 \<Rightarrow> u8" where "nmi_lint m ptr = load8 m (ptr + 5)"
definition madt_lapic_addr :: "memory \<Rightarrow> u64 \<Rightarrow> u32" where "madt_lapic_addr m madt = load32 m (madt + 36)"

definition madt_entry :: "u64 \<Rightarrow> 'z acpi_st_scheme \<Rightarrow> (unit, 'z acpi_st_scheme) outcome" where
  "madt_entry ptr s =
     (let m = mem s; type = ics_type m ptr in
      if type = MADT_TYPE_LAPIC then
        klog LOG_INFO ''LAPIC: cpu=%d apic_id=%d flags=%d''
          [VWord (ucast (lapic_uid m ptr)), VWord (ucast (lapic_apic_id m ptr)), VWord (ucast (lapic_flags m ptr))]
          (if lapic_flags m ptr AND 1 \<noteq> 0 then s\<lparr>cpu_count := cpu_count s + 1\<rparr> else s)
      else if type = MADT_TYPE_IOAPIC then
        klog LOG_INFO ''IOAPIC: id=%d addr=0x%x gsi_base=%d''
          [VWord (ucast (ioapic_id_of m ptr)), VWord (ucast (ioapic_addr m ptr)), VWord (ucast (ioapic_gsi_base m ptr))] s
      else if type = MADT_TYPE_ISO then
        klog LOG_INFO ''ISO: irq=%d -> gsi=%d flags=0x%x''
          [VWord (ucast (iso_source m ptr)), VWord (ucast (iso_gsi m ptr)), VWord (ucast (iso_flags m ptr))] s
      else if type = MADT_TYPE_LAPIC_NMI then
        klog LOG_INFO ''LAPIC NMI: cpu=%d lint=%d'' [VWord (ucast (nmi_uid m ptr)), VWord (ucast (nmi_lint m ptr))] s
      else Ret () s)"

definition madt_parse :: "u64 \<Rightarrow> 'z acpi_st_scheme \<Rightarrow> (unit, 'z acpi_st_scheme) outcome" where
  "madt_parse madt s =
     (let s = s\<lparr>madt_table := madt\<rparr>; last_ptr = madt_end (mem s) madt in
      andthen (loop (\<lambda>ptr s. ptr < last_ptr)
        (\<lambda>ptr s. andthen (madt_entry ptr s) (\<lambda>_ s. Ret (ics_next (mem s) ptr) s)) (madt_entries madt) s) (\<lambda>_ s. Ret () s))"

text \<open>
  The loop that the three look-ups share: the first entry that satisfies a test. \<open>None\<close>: the loop never ends;
  \<open>Some None\<close>: there is no such entry.
\<close>

partial_function (option) madt_scan :: "(u64 \<Rightarrow> bool) \<Rightarrow> memory \<Rightarrow> u64 \<Rightarrow> u64 \<Rightarrow> u64 option option" where
  "madt_scan hit m ptr last_ptr =
     (if ptr < last_ptr then (if hit ptr then Some (Some ptr) else madt_scan hit m (ics_next m ptr) last_ptr) else Some None)"

declare madt_scan.simps [code]

definition madt_lookup :: "(u64 \<Rightarrow> bool) \<Rightarrow> (u64 \<Rightarrow> 'a) \<Rightarrow> 'a \<Rightarrow> 'z acpi_st_scheme \<Rightarrow> ('a, 'z acpi_st_scheme) outcome" where
  "madt_lookup hit field missing s =
     (case madt_scan hit (mem s) (madt_entries (madt_table s)) (madt_end (mem s) (madt_table s)) of
        None \<Rightarrow> Hang
      | Some None \<Rightarrow> Ret missing s
      | Some (Some ptr) \<Rightarrow> Ret (field ptr) s)"

definition madt_get_lapic_base :: "'z acpi_st_scheme \<Rightarrow> (u64, 'z acpi_st_scheme) outcome" where
  "madt_get_lapic_base s =
     madt_lookup (\<lambda>ptr. ics_type (mem s) ptr = MADT_TYPE_LAPIC_OVERRIDE) (\<lambda>ptr. load64 (mem s) (ptr + 4))
       (ucast (madt_lapic_addr (mem s) (madt_table s))) s"

definition lapic_is :: "memory \<Rightarrow> u8 \<Rightarrow> u64 \<Rightarrow> bool" where
  "lapic_is m cpu_id ptr \<longleftrightarrow> ics_type m ptr = MADT_TYPE_LAPIC \<and> lapic_uid m ptr = cpu_id \<and> lapic_flags m ptr AND 1 \<noteq> 0"

definition madt_get_lapic_id :: "u8 \<Rightarrow> 'z acpi_st_scheme \<Rightarrow> (u8, 'z acpi_st_scheme) outcome" where
  "madt_get_lapic_id cpu_id s = madt_lookup (lapic_is (mem s) cpu_id) (lapic_apic_id (mem s)) 0xFF s"

definition madt_get_cpu_count :: "'z acpi_st_scheme \<Rightarrow> u32" where
  "madt_get_cpu_count s = cpu_count s"

definition madt_get_ioapic_addr :: "u8 \<Rightarrow> 'z acpi_st_scheme \<Rightarrow> (u32, 'z acpi_st_scheme) outcome" where
  "madt_get_ioapic_addr ioapic_id s =
     madt_lookup (\<lambda>ptr. ics_type (mem s) ptr = MADT_TYPE_IOAPIC \<and> ioapic_id_of (mem s) ptr = ioapic_id)
       (ioapic_addr (mem s)) 0 s"

section \<open>The root table\<close>

definition hpet_parse :: "u64 \<Rightarrow> 'z acpi_st_scheme \<Rightarrow> 'z acpi_st_scheme" where
  "hpet_parse hpet s = s\<lparr>hpet_table := hpet\<rparr>"

text \<open>
  \<open>memcmp(table->signature, "APIC", 4) == 0\<close>: the four bytes at the table are those of the literal.
\<close>

definition signature_is :: "memory \<Rightarrow> u64 \<Rightarrow> string \<Rightarrow> bool" where
  "signature_is m table sig \<longleftrightarrow> read_bytes m table 4 = map of_char sig"

definition sdt_entry :: "memory \<Rightarrow> u64 \<Rightarrow> u32 \<Rightarrow> u32 \<Rightarrow> u64" where
  "sdt_entry m entries entry_size i =
     (if entry_size = 4 then ucast (load32 m (entries + ucast (i * 4))) else load64 m (entries + ucast (i * 8)))"

definition acpi_table :: "u64 \<Rightarrow> 'z acpi_st_scheme \<Rightarrow> (unit, 'z acpi_st_scheme) outcome" where
  "acpi_table table s =
     andthen (klog LOG_INFO ''Found ACPI table: %.4s'' [VWord table] s) (\<lambda>_ s.
     andthen (if signature_is (mem s) table ''APIC''
              then andthen (klog LOG_INFO ''Starting to parse APIC table'' [] s) (\<lambda>_ s. madt_parse table s)
              else Ret () s) (\<lambda>_ s.
     if signature_is (mem s) table ''HPET''
     then andthen (klog LOG_INFO ''Starting to parse HPET table'' [] s) (\<lambda>_ s. Ret () (hpet_parse table s))
     else Ret () s))"

definition sdt_count :: "memory \<Rightarrow> u64 \<Rightarrow> u32 \<Rightarrow> u32" where
  "sdt_count m header entry_size = ucast ((ucast (sdt_length m header) - sizeof_sdt_header) div ucast entry_size)"

definition acpi_parse_tables :: "u64 \<Rightarrow> u32 \<Rightarrow> 'z acpi_st_scheme \<Rightarrow> (unit, 'z acpi_st_scheme) outcome" where
  "acpi_parse_tables header entry_size s =
     for_out 0 (sdt_count (mem s) header entry_size)
       (\<lambda>i s. acpi_table (sdt_entry (mem s) (header + sizeof_sdt_header) entry_size i) s) s"

definition acpi_parse_rsdt :: "u64 \<Rightarrow> 'z acpi_st_scheme \<Rightarrow> (unit, 'z acpi_st_scheme) outcome" where
  "acpi_parse_rsdt rsdt s = andthen (klog LOG_INFO ''Parsing RSDT'' [] s) (\<lambda>_ s. acpi_parse_tables rsdt 4 s)"

definition acpi_parse_xsdt :: "u64 \<Rightarrow> 'z acpi_st_scheme \<Rightarrow> (unit, 'z acpi_st_scheme) outcome" where
  "acpi_parse_xsdt xsdt s = andthen (klog LOG_INFO ''Parsing XSDT'' [] s) (\<lambda>_ s. acpi_parse_tables xsdt 8 s)"

definition acpi_init :: "u64 \<Rightarrow> 'z acpi_st_scheme \<Rightarrow> (unit, 'z acpi_st_scheme) outcome" where
  "acpi_init info s =
     andthen (get_acpi_rsdp info s) (\<lambda>rsdp s.
     if rsdp = 0 then kpanic ''Failed to find ACPI RSDP'' [] s
     else if rsdp_revision (mem s) rsdp \<ge> 2 then
       if xsdt_address (mem s) rsdp = 0 then kpanic ''ACPI 2.0 RSDP has no XSDT address'' [] s
       else andthen (klog LOG_INFO ''Using XSDT at 0x%x'' [VWord (xsdt_address (mem s) rsdp)] s) (\<lambda>_ s.
         acpi_parse_xsdt (xsdt_address (mem s) rsdp) s)
     else
       if rsdt_address (mem s) rsdp = 0 then kpanic ''ACPI 1.0 RSDP has no RSDT address'' [] s
       else andthen (klog LOG_INFO ''Using RSDT at 0x%x'' [VWord (ucast (rsdt_address (mem s) rsdp))] s) (\<lambda>_ s.
         acpi_parse_rsdt (ucast (rsdt_address (mem s) rsdp)) s))"

section \<open>Entries as a list\<close>

text \<open>\<open>ics_chain m ptr e es\<close>: \<open>es\<close> are the addresses of the entries from \<open>ptr\<close> up to \<open>e\<close>.\<close>

fun ics_chain :: "memory \<Rightarrow> u64 \<Rightarrow> u64 \<Rightarrow> u64 list \<Rightarrow> bool" where
  "ics_chain m ptr e [] \<longleftrightarrow> \<not> ptr < e"
| "ics_chain m ptr e (x # xs) \<longleftrightarrow> x = ptr \<and> ptr < e \<and> ics_chain m (ics_next m ptr) e xs"

lemma madt_scan_find: "ics_chain m ptr e es \<Longrightarrow> madt_scan hit m ptr e = Some (find hit es)"
proof (induction es arbitrary: ptr)
  case Nil
  then show ?case by (subst madt_scan.simps) simp
next
  case (Cons x xs)
  then show ?case by (subst madt_scan.simps) simp
qed

definition madt_list :: "'z acpi_st_scheme \<Rightarrow> u64 list \<Rightarrow> bool" where
  "madt_list s es \<longleftrightarrow> ics_chain (mem s) (madt_entries (madt_table s)) (madt_end (mem s) (madt_table s)) es"

lemma madt_lookup_find:
  "madt_list s es \<Longrightarrow> madt_lookup hit field missing s = Ret (case find hit es of None \<Rightarrow> missing | Some ptr \<Rightarrow> field ptr) s"
  by (simp add: madt_lookup_def madt_list_def madt_scan_find split: option.split)

lemma log_acpi [simp]:
  "log_ok (s\<lparr>madt_table := p\<rparr>) = log_ok s" "log_dirty (s\<lparr>madt_table := p\<rparr>) = log_dirty s"
  "log_ok (s\<lparr>cpu_count := n\<rparr>) = log_ok s" "log_dirty (s\<lparr>cpu_count := n\<rparr>) = log_dirty s"
  "log_ok (s\<lparr>hpet_table := p\<rparr>) = log_ok s" "log_dirty (s\<lparr>hpet_table := p\<rparr>) = log_dirty s"
  by (simp_all add: log_ok_defs)

lemma acpi_formats:
  "plain_format ''LAPIC: cpu=%d apic_id=%d flags=%d'' [VWord a, VWord b, VWord c]"
  "plain_format ''IOAPIC: id=%d addr=0x%x gsi_base=%d'' [VWord a, VWord b, VWord c]"
  "plain_format ''ISO: irq=%d -> gsi=%d flags=0x%x'' [VWord a, VWord b, VWord c]"
  "plain_format ''LAPIC NMI: cpu=%d lint=%d'' [VWord a, VWord b]"
  by (simp_all add: plain_format_def format_simps)

section \<open>Counting processors\<close>

definition enabled_lapic :: "memory \<Rightarrow> u64 \<Rightarrow> bool" where
  "enabled_lapic m ptr \<longleftrightarrow> ics_type m ptr = MADT_TYPE_LAPIC \<and> lapic_flags m ptr AND 1 \<noteq> 0"

definition ics_clear :: "u64 set \<Rightarrow> u64 list \<Rightarrow> bool" where
  "ics_clear D es \<longleftrightarrow> (\<forall>x\<in>set es. region x 8 \<inter> D = {})"

lemma ics_fields_cong:
  assumes "region x 8 \<inter> D = {}" and "\<And>y. y \<notin> D \<Longrightarrow> m' y = m y"
  shows "ics_next m' x = ics_next m x" and "enabled_lapic m' x = enabled_lapic m x"
proof -
  have e: "m' y = m y" if "y \<in> region x 8" for y using that assms by blast
  have b: "m' x = m x" "m' (x + 1) = m (x + 1)"
    using e [of x] e [of "x + 1"] by (simp_all add: region_iff)
  then show "ics_next m' x = ics_next m x" by (simp add: ics_next_def load8_def)
  have "lapic_flags m' x = lapic_flags m x"
    using load_part [of x 8 m' m 4 4, OF e] by (simp add: lapic_flags_def load32_def)
  then show "enabled_lapic m' x = enabled_lapic m x" using b by (simp add: enabled_lapic_def ics_type_def load8_def)
qed

lemma ics_chain_cong:
  assumes "ics_clear D es" and "\<And>y. y \<notin> D \<Longrightarrow> m' y = m y"
  shows "ics_chain m' ptr e es = ics_chain m ptr e es" and "filter (enabled_lapic m') es = filter (enabled_lapic m) es"
  using assms
  by (induction es arbitrary: ptr) (auto simp: ics_clear_def ics_fields_cong [OF _ assms(2)])

lemma madt_entry_logged:
  assumes "log_ok s"
  obtains t str where "madt_entry ptr s = Ret () t" and "log_ok t"
    and "logged str (s\<lparr>cpu_count := cpu_count s + (if enabled_lapic (mem s) ptr then 1 else 0)\<rparr>) t"
proof -
  let ?s = "s\<lparr>cpu_count := cpu_count s + (if enabled_lapic (mem s) ptr then 1 else 0)\<rparr>"
  have "returns (madt_entry ptr s) (\<lambda>_ t. log_ok t \<and> (\<exists>str. logged str ?s t))"
  proof (cases "ics_type (mem s) ptr = MADT_TYPE_LAPIC")
    case True
    then have e: "(if lapic_flags (mem s) ptr AND 1 \<noteq> 0 then s\<lparr>cpu_count := cpu_count s + 1\<rparr> else s) = ?s"
      by (simp add: enabled_lapic_def)
    show ?thesis unfolding madt_entry_def Let_def True e using klog_ok [OF _ acpi_formats(1), of ?s] assms by simp
  next
    case False
    then have e: "?s = s" by (simp add: enabled_lapic_def)
    show ?thesis unfolding e madt_entry_def Let_def
      using False klog_ok [OF assms acpi_formats(2)] klog_ok [OF assms acpi_formats(3)] klog_ok [OF assms acpi_formats(4)] assms logged_refl [of s]
      by (simp split: if_split) blast
  qed
  then show thesis using that by (auto simp: returns_conv)
qed

lemma logged_cpu:
  assumes "logged str s t"
  shows "logged str (s\<lparr>cpu_count := n\<rparr>) (t\<lparr>cpu_count := n\<rparr>)" and "cpu_count t = cpu_count s" and "t\<lparr>cpu_count := cpu_count s\<rparr> = t"
proof -
  have e: "t = s\<lparr>now := now t, events := events s @ map (\<lambda>c. OutB COM1 (of_char c)) str, mem := mem t,
      cursor_x := cursor_x t, cursor_y := cursor_y t, fg_color := fg_color t, bg_color := bg_color t\<rparr>"
    using assms by (simp add: logged_def)
  show c: "cpu_count t = cpu_count s" by (subst e) simp
  then show "t\<lparr>cpu_count := cpu_count s\<rparr> = t" by (metis acpi_st.surjective acpi_st.update_convs(2))
  show "logged str (s\<lparr>cpu_count := n\<rparr>) (t\<lparr>cpu_count := n\<rparr>)"
    using assms unfolding logged_def log_acpi by (cases s; cases t) simp
qed

lemma madt_loop:
  fixes s :: "'z acpi_st_scheme"
  assumes "ics_chain (mem s) ptr e es" and "ics_clear (log_dirty s) es" and "log_ok s"
  shows "returns (loop (\<lambda>ptr s. ptr < e) (\<lambda>ptr s. andthen (madt_entry ptr s) (\<lambda>_ s. Ret (ics_next (mem s) ptr) s)) ptr s)
    (\<lambda>_ t. log_ok t \<and> (\<exists>str. logged str (s\<lparr>cpu_count := cpu_count s + of_nat (length (filter (enabled_lapic (mem s)) es))\<rparr>) t))"
  using assms
proof (induction es arbitrary: ptr s)
  case Nil
  then show ?case by (subst loop_unfold) (auto intro: logged_refl)
next
  case (Cons x es)
  then have x: "x = ptr" "ptr < e" "ics_chain (mem s) (ics_next (mem s) ptr) e es"
    and cl: "region ptr 8 \<inter> log_dirty s = {}" "ics_clear (log_dirty s) es" by (auto simp: ics_clear_def)
  let ?s = "s\<lparr>cpu_count := cpu_count s + (if enabled_lapic (mem s) ptr then 1 else 0)\<rparr>"
  obtain u str where u: "madt_entry ptr s = Ret () u" "log_ok u" "logged str ?s u" by (rule madt_entry_logged [OF Cons.prems(3)])
  have m: "mem u y = mem s y" if "y \<notin> log_dirty s" for y using logged_mem [OF u(3)] that by simp
  have d: "log_dirty u = log_dirty s" using logged_sel(9) [OF u(3)] by simp
  note c = ics_chain_cong [OF cl(2) m]
  have rest: "returns (loop (\<lambda>ptr s. ptr < e) (\<lambda>ptr s. andthen (madt_entry ptr s) (\<lambda>_ s. Ret (ics_next (mem s) ptr) s)) (ics_next (mem s) ptr) u)
    (\<lambda>_ t. log_ok t \<and> (\<exists>str. logged str (u\<lparr>cpu_count := cpu_count u + of_nat (length (filter (enabled_lapic (mem u)) es))\<rparr>) t))"
    using x(3) c(1) cl(2) d u(2) by (intro Cons.IH) simp_all
  have "logged str (s\<lparr>cpu_count := cpu_count s + of_nat (length (filter (enabled_lapic (mem s)) (x # es)))\<rparr>)
      (u\<lparr>cpu_count := cpu_count u + of_nat (length (filter (enabled_lapic (mem u)) es))\<rparr>)"
    using logged_cpu(1) [OF u(3), of "cpu_count u + of_nat (length (filter (enabled_lapic (mem u)) es))"] logged_cpu(2) [OF u(3)]
    by (cases "enabled_lapic (mem s) ptr") (simp_all add: c(2) x(1) add.assoc)
  note tr = logged_trans [OF this]
  have n: "ics_next (mem u) ptr = ics_next (mem s) ptr" by (rule ics_fields_cong(1) [OF cl(1) m])
  show ?case
    by (subst loop_unfold, simp only: x(2) if_True u(1) andthen_simps n, rule returns_weaken [OF rest], use tr in blast)
qed

section \<open>Properties\<close>

text \<open>A table with an override of the controllers' address, a disabled and an enabled processor.\<close>

definition demo_madt :: memory where
  "demo_madt = (\<lambda>_. 0)(0x20004 := 72, 0x20027 := 0xFE,
     0x2002C := 5, 0x2002D := 12, 0x20032 := 0xE0, 0x20033 := 0xFE,
     0x20038 := 0, 0x20039 := 8, 0x2003A := 1, 0x2003B := 4,
     0x20040 := 0, 0x20041 := 8, 0x20042 := 1, 0x20043 := 5, 0x20044 := 1)"

definition demo_acpi :: acpi_st where
  "demo_acpi = heap_st.extend (demo_heap\<lparr>mem := demo_madt\<rparr>) \<lparr>madt_table = 0x20000, cpu_count = 0, hpet_table = 0\<rparr>"

lemma demo_acpi_sel [simp]: "mem demo_acpi = demo_madt" "madt_table demo_acpi = 0x20000" "cpu_count demo_acpi = 0"
  by (simp_all add: demo_acpi_def heap_st.defs)

lemmas madt_bytes = ioapic_id_of_def ioapic_addr_def madt_lapic_addr_def ics_next_def ics_type_def lapic_uid_def lapic_apic_id_def lapic_flags_def load8_def load32_bytes sdt_length_def
  madt_end_def madt_entries_def demo_madt_def

lemma demo_madt_chain: "ics_chain demo_madt 0x2002C 0x20048 [0x2002C, 0x20038, 0x20040]" "madt_end demo_madt 0x20000 = 0x20048"
  by (simp_all add: madt_bytes)

text \<open>
  C31. Parsing the table of interrupt controllers returns whenever its entries form a list that ends, remembers the
  table and adds the number of enabled processors to the count; nothing else changes but the log.
\<close>

theorem madt_parse_counts:
  assumes "ics_chain (mem s) (madt_entries madt) (madt_end (mem s) madt) es" and "ics_clear (log_dirty s) es" and "log_ok s"
  shows "\<exists>t str. madt_parse madt s = Ret () t \<and> log_ok t \<and>
    logged str (s\<lparr>madt_table := madt, cpu_count := cpu_count s + of_nat (length (filter (enabled_lapic (mem s)) es))\<rparr>) t"
  using madt_loop [of "s\<lparr>madt_table := madt\<rparr>" "madt_entries madt" "madt_end (mem s) madt" es] assms
  by (auto simp: madt_parse_def Let_def returns_conv)

theorem madt_parse_counts_witness:
  "\<exists>t str. madt_parse 0x20000 (demo_acpi\<lparr>con_initialized := False\<rparr>) = Ret () t \<and>
    logged str (demo_acpi\<lparr>con_initialized := False, madt_table := 0x20000, cpu_count := 1\<rparr>) t"
proof -
  let ?s = "demo_acpi\<lparr>con_initialized := False\<rparr>"
  have d: "log_dirty ?s = {}" by (simp add: log_dirty_def console_ready_def)
  have "log_ok ?s" using demo_heap_log(1)
    by (simp add: demo_acpi_def heap_st.defs log_ok_def console_ready_def uart_live_def uart_ready_def)
  moreover have "ics_chain (mem ?s) (madt_entries 0x20000) (madt_end (mem ?s) 0x20000) [0x2002C, 0x20038, 0x20040]"
    by (simp add: madt_bytes)
  moreover have "ics_clear (log_dirty ?s) [0x2002C, 0x20038, 0x20040]" by (simp add: d ics_clear_def)
  moreover have "length (filter (enabled_lapic (mem ?s)) [0x2002C, 0x20038, 0x20040]) = 1"
    by (simp add: enabled_lapic_def madt_bytes madt_type_defs)
  ultimately have "\<exists>t str. madt_parse 0x20000 ?s = Ret () t \<and> log_ok t \<and>
      logged str (?s\<lparr>madt_table := 0x20000, cpu_count := cpu_count ?s + of_nat 1\<rparr>) t"
    using madt_parse_counts [of ?s "0x20000" "[0x2002C, 0x20038, 0x20040]"] by metis
  then show ?thesis by auto
qed

text \<open>
  The entries as data, read off the bytes where the ACPI specification puts the fields: a processor with its number, the id of its
  interrupt controller and the enabled bit; an I/O controller with its id and address; an address that overrides the table's.
\<close>

datatype ics = Processor u8 u8 bool | Io_Controller u8 u32 | Controller_Address u64 | Other_Entry

definition ics_at :: "memory \<Rightarrow> u64 \<Rightarrow> ics" where
  "ics_at m p =
     (if m p = 0 then Processor (m (p + 2)) (m (p + 3)) (odd (unat (m (p + 4))))
      else if m p = 1 then Io_Controller (m (p + 2)) (of_nat (le_nat (read_bytes m (p + 4) 4)))
      else if m p = 5 then Controller_Address (of_nat (le_nat (read_bytes m (p + 4) 8)))
      else Other_Entry)"

text \<open>What the look-ups should find in a list of entries.\<close>

fun controller_of :: "u8 \<Rightarrow> ics list \<Rightarrow> u8" where
  "controller_of c [] = 255"
| "controller_of c (Processor c' ident True # es) = (if c' = c then ident else controller_of c es)"
| "controller_of c (_ # es) = controller_of c es"

fun override_of :: "u64 \<Rightarrow> ics list \<Rightarrow> u64" where
  "override_of header [] = header"
| "override_of header (Controller_Address a # es) = a"
| "override_of header (_ # es) = override_of header es"

fun io_address_of :: "u8 \<Rightarrow> ics list \<Rightarrow> u32" where
  "io_address_of i [] = 0"
| "io_address_of i (Io_Controller i' a # es) = (if i' = i then a else io_address_of i es)"
| "io_address_of i (_ # es) = io_address_of i es"

lemma flag_bit: "load32 m a AND 1 \<noteq> 0 \<longleftrightarrow> odd (unat (m a))"
proof -
  have "even (load32 m a) \<longleftrightarrow> even (unat (m a))" unfolding load32_bytes by (simp only: even_of_nat) simp
  then show ?thesis by (simp add: and_one_eq mod_2_eq_odd)
qed

lemma controller_of_find:
  "controller_of c (map (ics_at m) es) = (case find (lapic_is m c) es of None \<Rightarrow> 0xFF | Some e \<Rightarrow> lapic_apic_id m e)"
proof (induction es)
  case (Cons e es)
  then show ?case
    by (cases "m e = 0"; cases "odd (unat (m (e + 4)))")
      (simp_all add: ics_at_def lapic_is_def ics_type_def lapic_uid_def lapic_apic_id_def lapic_flags_def flag_bit madt_type_defs load8_def)
qed simp

lemma override_of_find:
  "override_of header (map (ics_at m) es) =
     (case find (\<lambda>e. ics_type m e = MADT_TYPE_LAPIC_OVERRIDE) es of None \<Rightarrow> header | Some e \<Rightarrow> load64 m (e + 4))"
proof (induction es)
  case (Cons e es)
  then show ?case by (simp add: ics_at_def ics_type_def madt_type_defs load8_def load64_def load_def)
qed simp

lemma io_address_of_find:
  "io_address_of i (map (ics_at m) es) =
     (case find (\<lambda>e. ics_type m e = MADT_TYPE_IOAPIC \<and> ioapic_id_of m e = i) es of None \<Rightarrow> 0 | Some e \<Rightarrow> ioapic_addr m e)"
proof (induction es)
  case (Cons e es)
  then show ?case by (simp add: ics_at_def ics_type_def ioapic_id_of_def ioapic_addr_def madt_type_defs load8_def load32_def load_def)
qed simp

text \<open>
  C32. The look-up of a processor's interrupt controller returns the id in the first enabled entry for that processor, skipping
  entries that are disabled, and 0xFF exactly as for an entry of that id when there is none; the controllers' address is that of the
  first override entry, else the 32 bits in the table's header; the address of an I/O controller is that in the first entry with its
  id, else 0. The entries are those in the table's bytes (\<open>ics_at\<close>).
\<close>

theorem madt_lookups:
  assumes "madt_list s es" and "entries = map (ics_at (mem s)) es"
    and "header = of_nat (le_nat (read_bytes (mem s) (madt_table s + 36) 4))"
  shows "madt_get_lapic_id c s = Ret (controller_of c entries) s \<and>
    madt_get_lapic_base s = Ret (override_of header entries) s \<and>
    madt_get_ioapic_addr i s = Ret (io_address_of i entries) s"
proof -
  have "ucast (madt_lapic_addr (mem s) (madt_table s)) = header"
    using load_bound [of 4 "mem s" "madt_table s + 36"] unfolding assms(3) madt_lapic_addr_def load32_def load_def
    by (simp add: unsigned_of_nat take_bit_nat_eq_self)
  then show ?thesis
    using assms(1) unfolding assms(2) controller_of_find override_of_find io_address_of_find
    by (simp add: madt_get_lapic_id_def madt_get_lapic_base_def madt_get_ioapic_addr_def madt_lookup_find)
qed

theorem madt_lookups_witness:
  "madt_get_lapic_id 1 demo_acpi = Ret 5 demo_acpi \<and> madt_get_lapic_id 2 demo_acpi = Ret 0xFF demo_acpi \<and>
    madt_get_lapic_base demo_acpi = Ret 0xFEE00000 demo_acpi"
proof -
  have l: "madt_list demo_acpi [0x2002C, 0x20038, 0x20040]"
    using demo_madt_chain by (simp add: madt_list_def madt_entries_def del: ics_chain.simps)
  have "[0..<8] = [0, 1, 2, 3, 4, 5, 6, 7 :: nat]" by (simp add: upt_rec)
  then have e: "map (ics_at (mem demo_acpi)) [0x2002C, 0x20038, 0x20040] =
      [Controller_Address 0xFEE00000, Processor 1 4 False, Processor 1 5 True]"
    by (simp add: ics_at_def demo_madt_def read_bytes_def)
  show ?thesis
    using madt_lookups [OF l e [symmetric] refl, of 1] madt_lookups [OF l e [symmetric] refl, of 2] by simp
qed

text \<open>
  An entry of length 0 makes the look-ups run for ever, unless they stop at it or before.
\<close>

theorem madt_zero_length_hangs:
  assumes "madt_entries (madt_table s) < madt_end (mem s) (madt_table s)"
    and "mem s (madt_entries (madt_table s) + 1) = 0" and "\<not> lapic_is (mem s) c (madt_entries (madt_table s))"
  shows "madt_get_lapic_id c s = Hang"
proof -
  let ?p = "madt_entries (madt_table s)"
  have n: "ics_next (mem s) ?p = ?p" using assms(2) by (simp add: ics_next_def load8_def)
  have "madt_scan (lapic_is (mem s) c) (mem s) ?p (madt_end (mem s) (madt_table s)) = None"
  proof (rule ccontr)
    assume "madt_scan (lapic_is (mem s) c) (mem s) ?p (madt_end (mem s) (madt_table s)) \<noteq> None"
    then obtain y where y: "madt_scan (lapic_is (mem s) c) (mem s) ?p (madt_end (mem s) (madt_table s)) = Some y" by blast
    have "\<not> (hit = lapic_is (mem s) c \<and> m = mem s \<and> p = ?p \<and> e = madt_end (mem s) (madt_table s))"
      if "madt_scan hit m p e = Some y" for hit m p e y
      by (rule madt_scan.raw_induct [where P = "\<lambda>hit m p e y. \<not> (hit = lapic_is (mem s) c \<and> m = mem s \<and> p = ?p \<and> e = madt_end (mem s) (madt_table s))", OF _ that])
        (use assms n in \<open>auto split: if_splits\<close>)
    from this [OF y] show False by simp
  qed
  then show ?thesis by (simp add: madt_get_lapic_id_def madt_lookup_def)
qed

end
