(* ===== verification/Paging_Spec.thy ===== *)
theory Paging_Spec
  imports Paging
begin

text \<open>
  What the mapping functions of \<^verbatim>\<open>drivers/paging.c\<close> do to the processor's translation. The tables of
  the pool are read as a map \<open>entries_of\<close> from table and index to entry, so that a store into a table is a
  point update and the allocation of a table changes nothing; the tree lemmas then give the effect of
  each function on \<open>translate\<close>.
\<close>

section \<open>The pool\<close>

definition tables :: "'z paging_st_scheme \<Rightarrow> u64 set" where
  "tables s = {pool_base s + of_nat (4096 * k) |k. 4096 * k < unat (pool_offset s)}"

definition entries_of :: "'z paging_st_scheme \<Rightarrow> u64 \<Rightarrow> u64 \<Rightarrow> u64" where
  "entries_of s t i = (if t \<in> tables s \<and> i < 512 then load64 (mem s) (entry_addr t i) else 0)"

text \<open>The pool is page-aligned, in the physical address space, and used from the bottom in whole tables.\<close>

definition pool_ok :: "'z paging_st_scheme \<Rightarrow> bool" where
  "pool_ok s \<longleftrightarrow> 4096 dvd unat (pool_base s) \<and> unat (pool_base s) + 131072 \<le> 2 ^ 52 \<and>
     4096 dvd unat (pool_offset s) \<and> unat (pool_offset s) \<le> 131072"

definition room :: "'z paging_st_scheme \<Rightarrow> nat \<Rightarrow> bool" where
  "room s n \<longleftrightarrow> unat (pool_offset s) + 4096 * n \<le> 131072"

definition pt_inv :: "u64 \<Rightarrow> 'z paging_st_scheme \<Rightarrow> bool" where
  "pt_inv r s \<longleftrightarrow> pool_ok s \<and> r \<in> tables s \<and> tree (entries_of s) r (tables s)"

text \<open>\<open>pool_only s s'\<close>: only the pool's bytes and its offset differ.\<close>

definition pool_only :: "'z paging_st_scheme \<Rightarrow> 'z paging_st_scheme \<Rightarrow> bool" where
  "pool_only s s' \<longleftrightarrow> s' = s\<lparr>mem := mem s', pool_offset := pool_offset s'\<rparr> \<and>
     (\<forall>x. x \<notin> region (pool_base s) 131072 \<longrightarrow> mem s' x = mem s x)"

lemma pool_only_refl: "pool_only s s"
  by (simp add: pool_only_def)

lemma pool_only_trans: "pool_only s t \<Longrightarrow> pool_only t u \<Longrightarrow> pool_only s u"
proof -
  assume a: "pool_only s t" "pool_only t u"
  have "u = t\<lparr>mem := mem u, pool_offset := pool_offset u\<rparr>" using a(2) by (simp add: pool_only_def)
  also have "t = s\<lparr>mem := mem t, pool_offset := pool_offset t\<rparr>" using a(1) by (simp add: pool_only_def)
  finally have "u = s\<lparr>mem := mem u, pool_offset := pool_offset u\<rparr>" by simp
  moreover have "pool_base t = pool_base s"
    using a(1) unfolding pool_only_def by (metis paging_st.select_convs(2) paging_st.surjective paging_st.update_convs(3) hw.update_convs(1))
  ultimately show ?thesis using a by (simp add: pool_only_def)
qed

lemma table_addr:
  assumes "pool_ok s" and "4096 * k < 131072"
  shows "unat (pool_base s + of_nat (4096 * k)) = unat (pool_base s) + 4096 * k"
  using assms by (simp add: pool_ok_def unat_word_ariths unat_of_nat)

lemma tablesE:
  assumes "t \<in> tables s" and "pool_ok s"
  obtains k where "t = pool_base s + of_nat (4096 * k)" "4096 * k < unat (pool_offset s)"
    "unat t = unat (pool_base s) + 4096 * k" "unat t + 4096 \<le> unat (pool_base s) + unat (pool_offset s)"
proof -
  from assms(1) obtain k where k: "t = pool_base s + of_nat (4096 * k)" "4096 * k < unat (pool_offset s)"
    by (auto simp: tables_def)
  obtain n where n: "unat (pool_offset s) = 4096 * n" using assms(2) by (auto simp: pool_ok_def)
  then have "4096 * k + 4096 \<le> unat (pool_offset s)" using k(2) by simp
  moreover have "unat t = unat (pool_base s) + 4096 * k"
    unfolding k(1) using assms(2) k(2) by (intro table_addr) (auto simp: pool_ok_def)
  ultimately show ?thesis using that k by simp
qed

lemma table_bounds:
  assumes "t \<in> tables s" and "pool_ok s"
  shows "unat t + 4096 \<le> 2 ^ 52" and "4096 dvd unat t" and "unat (pool_base s) \<le> unat t"
    and "unat t + 4096 \<le> unat (pool_base s) + unat (pool_offset s)"
proof -
  from tablesE [OF assms] obtain k where k: "unat t = unat (pool_base s) + 4096 * k"
    "unat t + 4096 \<le> unat (pool_base s) + unat (pool_offset s)" by metis
  then show "unat t + 4096 \<le> 2 ^ 52" "4096 dvd unat t" "unat (pool_base s) \<le> unat t"
    "unat t + 4096 \<le> unat (pool_base s) + unat (pool_offset s)"
    using assms(2) by (auto simp: pool_ok_def)
qed

lemma entry_addr_nat:
  assumes "t \<in> tables s" and "pool_ok s" and "i < 512"
  shows "unat (entry_addr t i) = unat t + 8 * unat i"
proof -
  have "unat i < 512" using assms(3) by (simp add: word_less_nat_alt)
  then show ?thesis using table_bounds(1) [OF assms(1,2)]
    by (simp add: entry_addr_def unat_word_ariths)
qed

text \<open>Two different entries do not overlap.\<close>

lemma entries_separate:
  assumes "t \<in> tables s" "u \<in> tables s" "pool_ok s" "i < 512" "j < 512" and "(t, i) \<noteq> (u, j)"
  shows "separate (entry_addr t i) 8 (entry_addr u j) 8"
proof -
  have ij: "unat i < 512" "unat j < 512" using assms(4,5) by (simp_all add: word_less_nat_alt)
  note e = entry_addr_nat [OF assms(1,3,4)] entry_addr_nat [OF assms(2,3,5)]
  note b = table_bounds [OF assms(1,3)] table_bounds [OF assms(2,3)]
  obtain x where x: "unat t = 4096 * x" using b(2) by blast
  obtain y where y: "unat u = 4096 * y" using b(6) by blast
  have ne: "512 * x + unat i \<noteq> 512 * y + unat j"
  proof
    assume *: "512 * x + unat i = 512 * y + unat j"
    then have "(512 * x + unat i) div 512 = (512 * y + unat j) div 512" by simp
    then have "x = y" using ij by simp
    with * have "unat i = unat j" by simp
    note \<open>x = y\<close> this
    then show False using assms(6) x y by (simp add: word_unat_eq_iff)
  qed
  have f: "fits (entry_addr t i) 8" "fits (entry_addr u j) 8"
    using e b(1,5) ij by (simp_all add: fits_def)
  consider "unat (entry_addr t i) + 8 \<le> unat (entry_addr u j)" | "unat (entry_addr u j) + 8 \<le> unat (entry_addr t i)"
    using ne unfolding e x y by linarith
  then show ?thesis
  proof cases
    case 1
    then show ?thesis using f by (intro separate_by_order) auto
  next
    case 2
    then have "separate (entry_addr u j) 8 (entry_addr t i) 8" using f by (intro separate_by_order) auto
    then show ?thesis by (simp add: separate_sym)
  qed
qed

lemma in_pool:
  assumes "pool_ok s" and "unat (pool_base s) \<le> unat a" and "unat a + n \<le> unat (pool_base s) + 131072"
    and "x \<in> region a n"
  shows "x \<in> region (pool_base s) 131072"
proof -
  have "unat (a - pool_base s) = unat a - unat (pool_base s)"
    using assms(2) by (simp add: unat_sub word_le_nat_alt)
  moreover have "x - pool_base s = (x - a) + (a - pool_base s)" by simp
  ultimately have "unat (x - pool_base s) = unat (x - a) + (unat a - unat (pool_base s))"
    using assms by (simp only: unat_word_ariths) (simp add: region_iff pool_ok_def)
  then show ?thesis using assms(2,3,4) by (simp add: region_iff)
qed

lemma load64_store64_separate: "separate a 8 b 8 \<Longrightarrow> load64 (store64 m b v) a = load64 m a"
  by (simp add: load64_def store64_def load_store_separate)

lemma set_entry_upd:
  assumes "t \<in> tables s" "pool_ok s" "i < 512"
  shows "entries_of (set_entry t i e s) = upd (entries_of s) t i e" and "pool_only s (set_entry t i e s)"
proof -
  have T: "tables (s\<lparr>mem := m\<rparr>) = tables s" for m by (simp add: tables_def)
  show "entries_of (set_entry t i e s) = upd (entries_of s) t i e"
  proof (intro ext)
    fix u j
    show "entries_of (set_entry t i e s) u j = upd (entries_of s) t i e u j"
      using assms entries_separate [OF _ assms(1,2) _ assms(3), of u j]
      by (auto simp: entries_of_def T upd_def set_entry_def load64_store64_separate)
  qed
  have "unat i < 512" using assms(3) by (simp add: word_less_nat_alt)
  then show "pool_only s (set_entry t i e s)"
    using in_pool [OF assms(2), of "entry_addr t i" 8] table_bounds(3,4) [OF assms(1,2)] assms(2)
    by (auto simp: pool_only_def set_entry_def pool_ok_def intro!: store64_outside) (auto simp: entry_addr_nat [OF assms] pool_ok_def)
qed

lemma read_bytes_memset_zero:
  assumes "\<And>k. k < n \<Longrightarrow> a + of_nat k \<in> region b (unat sz)"
  shows "read_bytes (memset b 0 sz m) a n = replicate n 0"
  using assms by (auto simp: read_bytes_def memset_spec intro!: nth_equalityI)

lemma le_nat_zeros [simp]: "le_nat (replicate n 0) = 0"
  by (induction n) auto

lemma load_memset_separate:
  assumes "separate a n b (unat sz)" and "n \<le> 2 ^ 64"
  shows "load n (memset b v sz m) a = load n m a"
  using separate_disjoint [OF assms(1)] region_elem [OF _ assms(2), of _ a]
  by (auto simp: load_def read_bytes_def memset_spec intro!: arg_cong [where f = le_nat])

text \<open>A fresh table is outside the tables in use, and taking it changes no entry.\<close>

lemma alloc_page_table_fresh:
  assumes "pool_ok s" and "room s 1"
  shows "returns (alloc_page_table s) (\<lambda>f s'. pool_ok s' \<and> f \<notin> tables s \<and> tables s' = insert f (tables s)
    \<and> entries_of s' = entries_of s \<and> pool_only s s' \<and> unat (pool_offset s') = unat (pool_offset s) + 4096
    \<and> f = pool_base s + pool_offset s)"
proof -
  let ?f = "pool_base s + pool_offset s"
  let ?m = "memset ?f 0 4096 (mem s)"
  let ?s = "s\<lparr>pool_offset := pool_offset s + 4096, mem := ?m\<rparr>"
  obtain n where n: "unat (pool_offset s) = 4096 * n" using assms(1) by (auto simp: pool_ok_def)
  have off: "unat (pool_offset s + 4096) = unat (pool_offset s) + 4096"
    using assms(2) by (simp add: unat_word_ariths room_def)
  have ok: "pool_ok ?s" using assms off by (simp add: pool_ok_def room_def)
  have fo: "?f = pool_base s + of_nat (4096 * n)" by (metis n of_nat_unat ucast_id)
  have fn: "unat ?f = unat (pool_base s) + 4096 * n"
    unfolding fo using assms n by (intro table_addr) (auto simp: room_def)
  have notin: "?f \<notin> tables s"
    using table_bounds(4) [OF _ assms(1), of ?f] fn n by auto
  have T: "tables ?s = insert ?f (tables s)"
  proof -
    have "4096 * k < 4096 * n + 4096 \<longleftrightarrow> k = n \<or> 4096 * k < 4096 * n" for k by auto
    then have "tables ?s = {pool_base s + of_nat (4096 * k) |k. k = n \<or> 4096 * k < 4096 * n}"
      by (simp add: tables_def off n)
    then show ?thesis unfolding tables_def n fo by auto
  qed
  have E: "entries_of ?s t i = entries_of s t i" for t i
  proof (cases "t \<in> tables ?s \<and> i < 512")
    case True
    then have i: "unat i < 512" by (simp add: word_less_nat_alt)
    have ea: "unat (entry_addr t i) = unat t + 8 * unat i"
      using entry_addr_nat [OF _ ok] True by blast
    show ?thesis
    proof (cases "t = ?f")
      case t: True
      have "entry_addr t i + of_nat k \<in> region ?f (unat (4096 :: u64))" if "k < 8" for k
      proof -
        have "entry_addr t i + of_nat k - ?f = of_nat (8 * unat i + k)"
          by (simp add: entry_addr_def t)
        moreover have "8 * unat i + k < 4096" using i that by simp
        ultimately show ?thesis by (simp add: region_iff unat_of_nat del: of_nat_add of_nat_mult)
      qed
      then have "load 8 ?m (entry_addr t i) = 0"
        unfolding load_def by (subst read_bytes_memset_zero) simp_all
      then show ?thesis using notin t by (simp add: entries_of_def load64_def)
    next
      case False
      then have t: "t \<in> tables s" using True T by auto
      have "separate (entry_addr t i) 8 ?f (unat (4096 :: u64))"
        using table_bounds(4) [OF t assms(1)] ea i fn n assms
        by (intro separate_by_order) (auto simp: fits_def pool_ok_def room_def)
      then have "load 8 ?m (entry_addr t i) = load 8 (mem s) (entry_addr t i)"
        by (rule load_memset_separate) simp
      then show ?thesis using True t by (simp add: entries_of_def load64_def)
    qed
  next
    case False
    then show ?thesis using T by (auto simp: entries_of_def)
  qed
  have "pool_only s ?s"
    using in_pool [OF assms(1), of ?f 4096] fn n assms(2)
    by (auto simp: pool_only_def memset_spec room_def)
  moreover have "alloc_page_table s = Ret ?f ?s"
    using assms(2) off by (simp add: alloc_page_table_def sizeof_page_table_def sizeof_pool_def word_less_nat_alt room_def Let_def)
  ultimately show ?thesis using ok notin T E off by (simp add: fun_eq_iff)
qed

section \<open>The descent\<close>

lemma table_low_bits:
  fixes t :: u64
  assumes "4096 dvd unat t"
  shows "t AND 0xFFF = 0" and "t AND NOT 0xFFF = t"
proof -
  have m: "(0xFFF :: u64) = mask 12" by (simp add: mask_eq_exp_minus_1)
  have "unat (t AND NOT (mask 12)) = unat t" using assms by (simp add: unat_align_down)
  then show d: "t AND NOT 0xFFF = t" by (simp only: m) (simp only: word_unat_eq_iff)
  have "t AND 0xFFF = (t AND NOT 0xFFF) AND 0xFFF" by (simp only: d)
  also have "\<dots> = 0" by (simp add: and.assoc)
  finally show "t AND 0xFFF = 0" .
qed

text \<open>The entry the descent writes for a new table \<open>t\<close>.\<close>

lemma table_entry:
  assumes "4096 dvd unat t"
  shows "is_table (t OR PAGE_PRESENT OR PAGE_WRITABLE)" and "(t OR PAGE_PRESENT OR PAGE_WRITABLE) AND NOT 0xFFF = t"
proof -
  note t = table_low_bits [OF assms]
  have "t AND 128 = (t AND 0xFFF) AND 128" by (simp add: and.assoc)
  then show "is_table (t OR PAGE_PRESENT OR PAGE_WRITABLE)"
    using t(1) by (simp add: is_table_def PAGE_PRESENT_def PAGE_WRITABLE_def PAGE_HUGE_def bit.conj_disj_distrib2)
  show "(t OR PAGE_PRESENT OR PAGE_WRITABLE) AND NOT 0xFFF = t"
    using t(2) by (simp add: PAGE_PRESENT_def PAGE_WRITABLE_def bit.conj_disj_distrib2)
qed

text \<open>\<open>same_pages\<close>: all translations and all large pages are as before.\<close>

definition huge_in :: "'z paging_st_scheme \<Rightarrow> u64 \<Rightarrow> u64 list \<Rightarrow> u64 \<Rightarrow> bool" where
  "huge_in s r q i \<longleftrightarrow> (\<exists>e. lk (entries_of s) r q i = Some e \<and> present e \<and> huge e)"

lemma next_table_descends:
  assumes inv: "pt_inv r s" and p: "path p" "length p \<le> 2" and a: "walk (entries_of s) r p = Some a"
    and i: "i < 512" and nh: "\<not> huge_in s r p i" and rm: "present (entries_of s a i) \<or> room s 1"
  shows "returns (next_table a i s) (\<lambda>t s'. pt_inv r s' \<and> walk (entries_of s') r (p @ [i]) = Some t
    \<and> (\<forall>v. trans (entries_of s') r v = trans (entries_of s) r v) \<and> pool_only s s'
    \<and> (\<forall>q j. path q \<longrightarrow> huge_in s' r q j \<longrightarrow> huge_in s r q j)
    \<and> (\<forall>q b. path q \<longrightarrow> walk (entries_of s) r q = Some b \<longrightarrow> walk (entries_of s') r q = Some b)
    \<and> (present (entries_of s a i) \<longrightarrow> s' = s) \<and> unat (pool_offset s') \<le> unat (pool_offset s) + 4096)"
proof -
  let ?E = "entries_of s"
  have ok: "pool_ok s" and tr: "tree ?E r (tables s)" using inv by (simp_all add: pt_inv_def)
  have aT: "a \<in> tables s" using tr p a by (auto simp: tree_def)
  have ge: "get_entry a i s = ?E a i" using aT i by (simp add: get_entry_def entries_of_def)
  have lka: "lk ?E r p i = Some (?E a i)" using a by (simp add: lk_def)
  show ?thesis
  proof (cases "present (?E a i)")
    case True
    then have "is_table (?E a i)" using nh lka by (simp add: huge_in_def is_table_iff)
    then have "walk ?E r (p @ [i]) = Some (?E a i AND NOT 0xFFF)" using a by (simp add: walk_append)
    moreover have "next_table a i s = Ret (?E a i AND NOT 0xFFF) s"
      using True by (simp add: next_table_def ge present_def)
    ultimately show ?thesis using inv by (simp add: pool_only_refl)
  next
    case False
    then have rm1: "room s 1" using rm by simp
    from alloc_page_table_fresh [OF ok rm1] obtain f s1 where f: "alloc_page_table s = Ret f s1"
      and s1: "pool_ok s1" "f \<notin> tables s" "tables s1 = insert f (tables s)" "entries_of s1 = ?E" "pool_only s s1"
      "unat (pool_offset s1) = unat (pool_offset s) + 4096"
      by (auto simp: returns_conv)
    let ?e = "f OR PAGE_PRESENT OR PAGE_WRITABLE"
    let ?s2 = "set_entry a i ?e s1"
    have fd: "4096 dvd unat f" using table_bounds(2) [OF _ s1(1)] s1(3) by blast
    note te = table_entry [OF fd]
    have aT1: "a \<in> tables s1" using aT s1(3) by simp
    have E2: "entries_of ?s2 = upd ?E a i ?e" using set_entry_upd(1) [OF aT1 s1(1) i] s1(4) by simp
    have po2: "pool_only s ?s2" using set_entry_upd(2) [OF aT1 s1(1) i] s1(5) pool_only_trans by blast
    have free: "\<not> is_table (?E a i)" using False by (simp add: is_table_iff)
    have z: "?E f j = 0" for j using s1(2) by (simp add: entries_of_def)
    note g = tree_graft [OF tr p(1) a free s1(2) z te]
    have T2: "tables ?s2 = insert f (tables s)" using s1(3) by (simp add: tables_def set_entry_def)
    have inv2: "pt_inv r ?s2"
      using g(1) s1(1) inv unfolding pt_inv_def T2 E2 by (simp add: pool_ok_def set_entry_def)
    have "walk (entries_of ?s2) r (p @ [i]) = Some f" unfolding E2 using g(2) path_snoc [OF p i] by simp
    moreover have "get_entry a i ?s2 = ?e" by (simp add: get_entry_def set_entry_def)
    then have "next_table a i s = Ret f ?s2" using False f te(2) by (simp add: next_table_def ge present_def)
    moreover have "trans (entries_of ?s2) r v = trans ?E r v" for v
      unfolding E2 by (rule trans_graft [OF tr p(1) a p(2) False s1(2) z te])
    moreover have "huge_in s r q j" if "path q" "huge_in ?s2 r q j" for q j
      using that te(1) unfolding huge_in_def E2 lk_graft [OF tr p(1) a free s1(2) z te that(1)]
      by (auto simp: is_table_iff present_def split: if_splits)
    moreover have "walk (entries_of ?s2) r q = Some b" if "path q" "walk ?E r q = Some b" for q b
      using that a free unfolding E2 g(2) [OF that(1)] by (auto simp: walk_append)
    moreover have "pool_offset ?s2 = pool_offset s1" by (simp add: set_entry_def)
    ultimately show ?thesis using inv2 po2 False s1(6) by simp
  qed
qed

section \<open>Memory and tree agree\<close>

lemma frame_mask_low:
  fixes e :: u64
  assumes "unat (e AND NOT 0xFFF) < 2 ^ 52"
  shows "e AND frame_mask = e AND NOT 0xFFF"
proof -
  have "frame_mask = NOT 0xFFF AND mask 52" by (simp add: frame_mask_def mask_eq_exp_minus_1)
  then have "e AND frame_mask = take_bit 52 (e AND NOT 0xFFF)" by (simp add: take_bit_eq_mask and.assoc)
  also have "\<dots> = e AND NOT 0xFFF"
    using assms by (simp only: word_unat_eq_iff unsigned_take_bit_eq take_bit_nat_eq_self)
  finally show ?thesis .
qed

lemma translate_trans:
  assumes "pt_inv r s"
  shows "translate (mem s) r v = trans (entries_of s) r v"
proof -
  let ?E = "entries_of s"
  have ok: "pool_ok s" and r: "r \<in> tables s" and tr: "tree ?E r (tables s)" using assms by (simp_all add: pt_inv_def)
  have load: "load64 (mem s) (entry_addr t (page_idx k v)) = ?E t (page_idx k v)" if "t \<in> tables s" for t k
    using that page_idx_512 by (simp add: entries_of_def)
  have into: "e AND NOT 0xFFF \<in> tables s \<and> e AND frame_mask = e AND NOT 0xFFF"
    if "path p" "length p \<le> 2" "walk ?E r p = Some a" "e = ?E a (page_idx k v)" "is_table e" for p a k e
  proof -
    have "walk ?E r (p @ [page_idx k v]) = Some (e AND NOT 0xFFF)" using that by (simp add: walk_append)
    moreover have "path (p @ [page_idx k v])" using path_snoc [OF that(1,2) page_idx_512] .
    ultimately have "e AND NOT 0xFFF \<in> tables s" using tr by (auto simp: tree_def)
    with table_bounds(1) [OF this ok] show ?thesis by (simp add: frame_mask_low)
  qed
  define e4 where "e4 = ?E r (page_idx 39 v)"
  define t3 where "t3 = e4 AND NOT 0xFFF"
  define e3 where "e3 = ?E t3 (page_idx 30 v)"
  define t2 where "t2 = e3 AND NOT 0xFFF"
  define e2 where "e2 = ?E t2 (page_idx 21 v)"
  define t1 where "t1 = e2 AND NOT 0xFFF"
  note d = e4_def [symmetric] t3_def [symmetric] e3_def [symmetric] t2_def [symmetric] e2_def [symmetric] t1_def [symmetric]
  have 4: "is_table e4 \<Longrightarrow> t3 \<in> tables s \<and> e4 AND frame_mask = t3"
    unfolding t3_def by (rule into [of "[]"]) (simp_all add: path_def e4_def)
  have 3: "is_table e4 \<Longrightarrow> is_table e3 \<Longrightarrow> t2 \<in> tables s \<and> e3 AND frame_mask = t2"
    unfolding t2_def by (rule into [of "[page_idx 39 v]"]) (simp_all add: path_idx e3_def t3_def e4_def is_table_def)
  have 2: "is_table e4 \<Longrightarrow> is_table e3 \<Longrightarrow> is_table e2 \<Longrightarrow> t1 \<in> tables s \<and> e2 AND frame_mask = t1"
    unfolding t1_def by (rule into [of "[page_idx 39 v, page_idx 30 v]"]) (simp_all add: path_idx e2_def t2_def e3_def t3_def e4_def)
  have w: "walk ?E r [page_idx 39 v] = (if is_table e4 then Some t3 else None)"
    "walk ?E r [page_idx 39 v, page_idx 30 v] = (if is_table e4 \<and> is_table e3 then Some t2 else None)"
    "walk ?E r [page_idx 39 v, page_idx 30 v, page_idx 21 v]
      = (if is_table e4 \<and> is_table e3 \<and> is_table e2 then Some t1 else None)"
    by (simp_all only: walk.simps d) simp_all
  have l4: "load64 (mem s) (entry_addr r (page_idx 39 v)) = e4" using load [OF r] by (simp add: e4_def)
  have l3: "is_table e4 \<Longrightarrow> load64 (mem s) (entry_addr t3 (page_idx 30 v)) = e3" using load 4 by (simp add: e3_def)
  have l2: "is_table e4 \<Longrightarrow> is_table e3 \<Longrightarrow> load64 (mem s) (entry_addr t2 (page_idx 21 v)) = e2"
    using load 3 by (simp add: e2_def)
  have l1: "is_table e4 \<Longrightarrow> is_table e3 \<Longrightarrow> is_table e2 \<Longrightarrow>
    load64 (mem s) (entry_addr t1 (page_idx 12 v)) = ?E t1 (page_idx 12 v)" using load 2 by simp
  show ?thesis
    unfolding translate_def trans_def Let_def lk_def w l4
    using 4 3 2 l3 l2 l1 unfolding is_table_def present_def huge_def
    by (auto simp: e3_def [symmetric] e2_def [symmetric])
qed

section \<open>Mapping one page\<close>

text \<open>
  Virtual addresses of one page: bits 47 to \<open>k\<close> agree. No large page lies over \<open>v\<close> at the levels that the
  descent passes.
\<close>

definition same_page :: "nat \<Rightarrow> u64 \<Rightarrow> u64 \<Rightarrow> bool" where
  "same_page k v w \<longleftrightarrow> drop_bit k (take_bit 48 v) = drop_bit k (take_bit 48 w)"

lemma page_idx_bits: "page_idx k v = take_bit 9 (drop_bit k v)"
proof -
  have "(0x1FF :: u64) = mask 9" by (simp add: mask_eq_exp_minus_1)
  then show ?thesis by (simp only: page_idx_def take_bit_eq_mask)
qed

lemma bits_agree:
  "take_bit n (drop_bit k a) = take_bit n (drop_bit k b) \<longleftrightarrow> (\<forall>i<n. bit a (k + i) = bit b (k + i))" for a b :: u64
proof (rule iffI, (rule allI, rule impI)?)
  fix i assume eq: "take_bit n (drop_bit k a) = take_bit n (drop_bit k b)" and i: "i < n"
  have "bit (take_bit n (drop_bit k a)) i = bit (take_bit n (drop_bit k b)) i" by (simp only: eq)
  then show "bit a (k + i) = bit b (k + i)" using i by (simp add: bit_take_bit_iff bit_drop_bit_eq)
next
  assume "\<forall>i<n. bit a (k + i) = bit b (k + i)"
  then show "take_bit n (drop_bit k a) = take_bit n (drop_bit k b)"
    by (intro bit_word_eqI) (auto simp: bit_take_bit_iff bit_drop_bit_eq)
qed

lemma same_page_idx: "same_page k v w \<longleftrightarrow> (\<forall>i<48 - k. bit v (k + i) = bit w (k + i))"
  unfolding same_page_def by (simp only: drop_bit_take_bit bits_agree)

lemma same_page_split:
  assumes "k \<le> 39"
  shows "same_page k v w \<longleftrightarrow> same_page (k + 9) v w \<and> page_idx k v = page_idx k w"
proof -
  have "(\<forall>i<48 - k. P (k + i)) \<longleftrightarrow> (\<forall>i<48 - (k + 9). P (k + 9 + i)) \<and> (\<forall>i<9. P (k + i))" (is "?L \<longleftrightarrow> ?R")
    for P :: "nat \<Rightarrow> bool"
  proof
    assume L: ?L
    have "P (k + 9 + i)" if "i < 48 - (k + 9)" for i using L [rule_format, of "9 + i"] that by (simp add: add.assoc)
    then show ?R using L assms by simp
  next
    assume R: ?R
    have "P (k + i)" if "i < 48 - k" for i
      using R conjunct1 [OF R, rule_format, of "i - 9"] that by (cases "i < 9") (auto simp: not_less)
    then show ?L by blast
  qed
  then show ?thesis by (simp only: same_page_idx page_idx_bits bits_agree)
qed

lemma same_page_2m:
  "same_page 21 v w \<longleftrightarrow> page_idx 39 v = page_idx 39 w \<and> page_idx 30 v = page_idx 30 w \<and> page_idx 21 v = page_idx 21 w"
proof -
  have "same_page 48 v w" by (simp add: same_page_idx)
  then show ?thesis using same_page_split [of 21 v w] same_page_split [of 30 v w] same_page_split [of 39 v w] by auto
qed

lemma same_page_4k: "same_page 12 v w \<longleftrightarrow> same_page 21 v w \<and> page_idx 12 v = page_idx 12 w"
  using same_page_split [of 12 v w] by simp

definition clear_2m :: "'z paging_st_scheme \<Rightarrow> u64 \<Rightarrow> u64 \<Rightarrow> bool" where
  "clear_2m s r v \<longleftrightarrow> \<not> huge_in s r [] (page_idx 39 v) \<and> \<not> huge_in s r [page_idx 39 v] (page_idx 30 v)"

definition clear_4k :: "'z paging_st_scheme \<Rightarrow> u64 \<Rightarrow> u64 \<Rightarrow> bool" where
  "clear_4k s r v \<longleftrightarrow> clear_2m s r v \<and> \<not> huge_in s r [page_idx 39 v, page_idx 30 v] (page_idx 21 v)"

text \<open>Enough of the pool is left for the tables that are missing on the way to \<open>p\<close>.\<close>

definition can_reach :: "'z paging_st_scheme \<Rightarrow> u64 \<Rightarrow> u64 list \<Rightarrow> bool" where
  "can_reach s r p \<longleftrightarrow> room s (length p) \<or> walk (entries_of s) r p \<noteq> None"

lemma can_reach_room: "room s (length p) \<Longrightarrow> can_reach s r p"
  by (simp add: can_reach_def)

text \<open>What the descent keeps: everything that \<open>translate\<close> sees, and the absence of large pages.\<close>

definition descent :: "u64 \<Rightarrow> 'z paging_st_scheme \<Rightarrow> 'z paging_st_scheme \<Rightarrow> bool" where
  "descent r s s' \<longleftrightarrow> pt_inv r s' \<and> pool_only s s'
    \<and> (\<forall>v. trans (entries_of s') r v = trans (entries_of s) r v)
    \<and> (\<forall>q j. path q \<longrightarrow> huge_in s' r q j \<longrightarrow> huge_in s r q j)
    \<and> (\<forall>q b. path q \<longrightarrow> walk (entries_of s) r q = Some b \<longrightarrow> walk (entries_of s') r q = Some b)"

lemma descent_refl: "pt_inv r s \<Longrightarrow> descent r s s"
  by (simp add: descent_def pool_only_refl)

lemma descent_trans: "descent r s t \<Longrightarrow> descent r t u \<Longrightarrow> descent r s u"
  using pool_only_trans by (fastforce simp: descent_def)

lemma descent_clear: "descent r s t \<Longrightarrow> path q \<Longrightarrow> \<not> huge_in s r q j \<Longrightarrow> \<not> huge_in t r q j"
  by (auto simp: descent_def)

lemma next_table_step:
  assumes "pt_inv r s" and "path p" and "length p \<le> 2" and "walk (entries_of s) r p = Some a"
    and "i < 512" and "\<not> huge_in s r p i"
    and "room s (Suc n) \<or> walk (entries_of s) r (p @ i # q) \<noteq> None"
  shows "returns (next_table a i s) (\<lambda>t s'. descent r s s' \<and> walk (entries_of s') r (p @ [i]) = Some t
    \<and> (room s' n \<or> walk (entries_of s') r (p @ i # q) \<noteq> None))"
proof -
  have pres: "present (entries_of s a i)" if "walk (entries_of s) r (p @ i # q) \<noteq> None"
    using that assms(4) by (auto simp: walk_append is_table_iff split: if_splits)
  then have rm: "present (entries_of s a i) \<or> room s 1" using assms(7) by (auto simp: room_def)
  from next_table_descends [OF assms(1-6) rm] show ?thesis
    by (rule returns_weaken) (use assms(7) pres in \<open>auto simp: descent_def room_def\<close>)
qed

text \<open>Three levels down to a page table, two to a page directory.\<close>

lemma descend_2m:
  fixes v :: u64
  defines "i4 \<equiv> page_idx 39 v" and "i3 \<equiv> page_idx 30 v"
  assumes "pt_inv r s" and "clear_2m s r v" and "room s (Suc (Suc n)) \<or> walk (entries_of s) r (i4 # i3 # q) \<noteq> None"
  shows "returns (andthen (next_table r i4 s) (\<lambda>pdpt s. next_table pdpt i3 s)) (\<lambda>t s'. descent r s s'
    \<and> walk (entries_of s') r [i4, i3] = Some t \<and> (room s' n \<or> walk (entries_of s') r (i4 # i3 # q) \<noteq> None))"
proof -
  have c: "\<not> huge_in s r [] i4" "\<not> huge_in s r [i4] i3" using assms(4) by (simp_all add: clear_2m_def i4_def i3_def)
  have lt: "i4 < 512" "i3 < 512" and pa: "path []" "path [i4]"
    by (simp_all add: i4_def i3_def page_idx_512 path_idx path_def)
  from next_table_step [OF assms(3) pa(1), of r i4 "Suc n" "i3 # q"] assms(5) c lt
  obtain t1 s1 where 1: "next_table r i4 s = Ret t1 s1" "descent r s s1" "walk (entries_of s1) r [i4] = Some t1"
    "room s1 (Suc n) \<or> walk (entries_of s1) r (i4 # i3 # q) \<noteq> None"
    by (auto simp: returns_conv)
  have inv1: "pt_inv r s1" using 1(2) by (simp add: descent_def)
  have c1: "\<not> huge_in s1 r [i4] i3" using descent_clear [OF 1(2) pa(2) c(2)] .
  from next_table_step [OF inv1 pa(2) _ 1(3) lt(2) c1, of n q] 1(4)
  obtain t2 s2 where 2: "next_table t1 i3 s1 = Ret t2 s2" "descent r s1 s2" "walk (entries_of s2) r [i4, i3] = Some t2"
    "room s2 n \<or> walk (entries_of s2) r (i4 # i3 # q) \<noteq> None"
    by (auto simp: returns_conv)
  then show ?thesis using 1 descent_trans by auto
qed

lemma tree_in: "tree E r T \<Longrightarrow> path p \<Longrightarrow> walk E r p = Some a \<Longrightarrow> a \<in> T"
  by (auto simp: tree_def)

lemma tree_leaf:
  assumes "tree E r T" and "path p" and "length p = 3" and "walk E r p = Some a"
  shows "tree (upd E a i e) r T" and "path q \<Longrightarrow> walk (upd E a i e) r q = walk E r q"
proof -
  have w: "walk (upd E a i e) r q = walk E r q" if "path q" for q
    using that assms(3) by (intro walk_upd_tree [OF assms(1,2,4)]) (auto simp: path_def)
  then show "path q \<Longrightarrow> walk (upd E a i e) r q = walk E r q" .
  show "tree (upd E a i e) r T" using assms(1) w unfolding tree_def by metis
qed

text \<open>Storing a leaf entry below a table of the tree.\<close>

lemma set_entry_inv:
  assumes "pt_inv r s" and "a \<in> tables s" and "i < 512" and "tree (upd (entries_of s) a i e) r (tables s)"
  shows "pt_inv r (set_entry a i e s)"
proof -
  have ok: "pool_ok s" using assms(1) by (simp add: pt_inv_def)
  have T: "tables (set_entry a i e s) = tables s" by (simp add: tables_def set_entry_def)
  show ?thesis
    using assms set_entry_upd(1) [OF assms(2) ok assms(3)] ok unfolding pt_inv_def T
    by (simp add: pool_ok_def set_entry_def)
qed

definition pte :: "u64 \<Rightarrow> u64 \<Rightarrow> u64" where
  "pte phys flags = (phys AND NOT 0xFFF) OR flags OR PAGE_PRESENT"

definition pde_2m :: "u64 \<Rightarrow> u64 \<Rightarrow> u64" where
  "pde_2m phys flags = (phys AND NOT 0x1FFFFF) OR flags OR PAGE_PRESENT OR PAGE_HUGE"

lemma present_pte: "present (pte phys flags)" "present (pde_2m phys flags)" "huge (pde_2m phys flags)"
proof -
  have "bit (pte phys flags AND PAGE_PRESENT) 0" "bit (pde_2m phys flags AND PAGE_PRESENT) 0" "bit (pde_2m phys flags AND PAGE_HUGE) 7"
    by (auto simp: pte_def pde_2m_def PAGE_PRESENT_def PAGE_HUGE_def bit_simps)
  then show "present (pte phys flags)" "present (pde_2m phys flags)" "huge (pde_2m phys flags)"
    unfolding present_def huge_def by (metis bit_0_eq bot_apply bot_bool_def)+
qed

lemma map_page_4kb_ok:
  assumes "pt_inv r s" and "clear_4k s r v" and "can_reach s r [page_idx 39 v, page_idx 30 v, page_idx 21 v]"
  shows "returns (map_page_4kb r v phys flags s) (\<lambda>_ s'. pt_inv r s' \<and> pool_only s s'
    \<and> (\<forall>w. translate (mem s') r w = (if same_page 12 w v then Some (page_4k (pte phys flags) w) else translate (mem s) r w))
    \<and> clear_4k s' r v \<and> walk (entries_of s') r [page_idx 39 v, page_idx 30 v, page_idx 21 v] \<noteq> None)"
proof -
  let ?i4 = "page_idx 39 v" and ?i3 = "page_idx 30 v" and ?i2 = "page_idx 21 v" and ?i1 = "page_idx 12 v"
  have c2: "clear_2m s r v" and c1: "\<not> huge_in s r [?i4, ?i3] ?i2" using assms(2) by (simp_all add: clear_4k_def)
  from descend_2m [OF assms(1) c2, of 1 "[?i2]"] assms(3) obtain t2 s2
    where 2: "andthen (next_table r ?i4 s) (\<lambda>pdpt s. next_table pdpt ?i3 s) = Ret t2 s2" "descent r s s2"
      "walk (entries_of s2) r [?i4, ?i3] = Some t2" "room s2 1 \<or> walk (entries_of s2) r [?i4, ?i3, ?i2] \<noteq> None"
    by (auto simp: returns_conv can_reach_def numeral_eq_Suc)
  have inv2: "pt_inv r s2" using 2(2) by (simp add: descent_def)
  from next_table_step [OF inv2 path_idx(2) _ 2(3) page_idx_512 descent_clear [OF 2(2) path_idx(2) c1], of 0 "[]"] 2(4)
  obtain t3 s3 where 3: "next_table t2 ?i2 s2 = Ret t3 s3" "descent r s2 s3" "walk (entries_of s3) r [?i4, ?i3, ?i2] = Some t3"
    by (auto simp: returns_conv)
  have d: "descent r s s3" using descent_trans [OF 2(2) 3(2)] .
  have inv3: "pt_inv r s3" and po: "pool_only s s3" using d by (simp_all add: descent_def)
  have tr: "tree (entries_of s3) r (tables s3)" and ok3: "pool_ok s3" using inv3 by (simp_all add: pt_inv_def)
  have t3: "t3 \<in> tables s3" using tree_in [OF tr path_idx(3) 3(3)] .
  let ?s = "set_entry t3 ?i1 (pte phys flags) s3"
  note E = set_entry_upd [OF t3 ok3 page_idx_512 [of 12 v], of "pte phys flags"]
  have l3: "length [?i4, ?i3, ?i2] = 3" by simp
  note leaf = tree_leaf [OF tr path_idx(3) l3 3(3), where i = ?i1 and e = "pte phys flags"]
  have inv: "pt_inv r ?s" using set_entry_inv [OF inv3 t3 page_idx_512 leaf(1)] .
  have w: "walk (entries_of ?s) r [?i4, ?i3, ?i2] = Some t3" unfolding E(1) using leaf(2) [OF path_idx(3)] 3(3) by simp
  have lk: "lk (entries_of ?s) r q j = lk (entries_of s3) r q j" if "path q" "length q \<le> 2" for q j
    unfolding E(1) using that by (subst lk_upd [OF tr path_idx(3) 3(3) that(1)]) auto
  have "huge_in ?s r q j = huge_in s3 r q j" if "path q" "length q \<le> 2" for q j
    using lk [OF that] by (simp add: huge_in_def)
  then have clear: "clear_4k ?s r v"
    using assms(2) descent_clear [OF d] path_idx [of v]
    by (simp add: clear_4k_def clear_2m_def) (simp add: path_def)
  have "map_page_4kb r v phys flags s = Ret () ?s"
    using 2(1) 3(1) by (simp add: map_page_4kb_def Let_def pte_def andthen_assoc [symmetric])
  moreover have "translate (mem ?s) r w = (if same_page 12 w v then Some (page_4k (pte phys flags) w) else translate (mem s) r w)" for w
    unfolding translate_trans [OF inv] translate_trans [OF assms(1)] E(1)
      trans_leaf [OF tr path_idx(3) 3(3) present_pte(1)] same_page_4k same_page_2m
    using d by (auto simp: descent_def)
  ultimately show ?thesis
    using inv w clear pool_only_trans [OF po E(2)] by simp
qed

text \<open>The store that ends \<open>map_page_2mb\<close>: a large page in an existing page directory.\<close>

lemma store_pde:
  fixes v phys flags :: u64 and s :: "'z paging_st_scheme"
  defines "e \<equiv> pde_2m phys flags"
  assumes "pt_inv r s" and t: "walk (entries_of s) r [page_idx 39 v, page_idx 30 v] = Some t"
  defines "s' \<equiv> set_entry t (page_idx 21 v) e s"
  shows "pt_inv r s'" and "pool_only s s'" and "pool_offset s' = pool_offset s"
    and "translate (mem s') r w = (if same_page 21 w v then Some (page_2m e w) else translate (mem s) r w)"
    and "lk (entries_of s') r [page_idx 39 v, page_idx 30 v] (page_idx 21 v) = Some e"
    and "path q \<Longrightarrow> length q \<le> 2 \<Longrightarrow> walk (entries_of s') r q = walk (entries_of s) r q"
    and "path q \<Longrightarrow> length q \<le> 1 \<Longrightarrow> huge_in s' r q j = huge_in s r q j"
proof -
  have tr: "tree (entries_of s) r (tables s)" and ok: "pool_ok s" using assms(2) by (simp_all add: pt_inv_def)
  have tT: "t \<in> tables s" using tree_in [OF tr path_idx(2) t] .
  have nt: "\<not> is_table e" using present_pte by (simp add: is_table_iff e_def)
  have pe: "present e" "huge e" using present_pte by (simp_all add: e_def)
  note E = set_entry_upd [OF tT ok page_idx_512 [of 21 v], of e, folded s'_def]
  show inv: "pt_inv r s'" unfolding s'_def using set_entry_inv [OF assms(2) tT page_idx_512 tree_prune [OF tr path_idx(2) t nt]] .
  show "pool_only s s'" by (rule E(2))
  show "pool_offset s' = pool_offset s" by (simp add: s'_def set_entry_def)
  show "lk (entries_of s') r [page_idx 39 v, page_idx 30 v] (page_idx 21 v) = Some e"
    unfolding E(1) using lk_upd [OF tr path_idx(2) t path_idx(2) [of v], of "page_idx 21 v" e "page_idx 21 v"] by simp
  show "walk (entries_of s') r q = walk (entries_of s) r q" if "path q" "length q \<le> 2"
    unfolding E(1) using that by (intro walk_upd_tree [OF tr path_idx(2) t that(1)]) auto
  have "lk (entries_of s') r q j = lk (entries_of s) r q j" if "path q" "length q \<le> 1"
    unfolding E(1) using that by (subst lk_upd [OF tr path_idx(2) t that(1)]) auto
  then show "huge_in s' r q j = huge_in s r q j" if "path q" "length q \<le> 1" using that by (simp add: huge_in_def)
  show "translate (mem s') r w = (if same_page 21 w v then Some (page_2m e w) else translate (mem s) r w)"
    unfolding translate_trans [OF inv] translate_trans [OF assms(2)] E(1)
      trans_huge [OF tr path_idx(2) t pe] same_page_2m by (rule refl)
qed

lemma map_page_2mb_ok:
  assumes "pt_inv r s" and "clear_2m s r v" and "can_reach s r [page_idx 39 v, page_idx 30 v]"
  shows "returns (map_page_2mb r v phys flags s) (\<lambda>_ s'. pt_inv r s' \<and> pool_only s s'
    \<and> (\<forall>w. translate (mem s') r w = (if same_page 21 w v then Some (page_2m (pde_2m phys flags) w) else translate (mem s) r w))
    \<and> clear_2m s' r v \<and> walk (entries_of s') r [page_idx 39 v, page_idx 30 v] \<noteq> None
    \<and> lk (entries_of s') r [page_idx 39 v, page_idx 30 v] (page_idx 21 v) = Some (pde_2m phys flags))"
proof -
  let ?i4 = "page_idx 39 v" and ?i3 = "page_idx 30 v"
  from descend_2m [OF assms(1,2), of 0 "[]"] assms(3) obtain t2 s2
    where 2: "andthen (next_table r ?i4 s) (\<lambda>pdpt s. next_table pdpt ?i3 s) = Ret t2 s2" "descent r s s2"
      "walk (entries_of s2) r [?i4, ?i3] = Some t2"
    by (auto simp: returns_conv can_reach_def numeral_eq_Suc)
  have inv2: "pt_inv r s2" and po: "pool_only s s2" using 2(2) by (simp_all add: descent_def)
  note S = store_pde [OF inv2 2(3), where phys = phys and flags = flags]
  have tr: "translate (mem s2) r w = translate (mem s) r w" for w
    using 2(2) by (simp add: translate_trans inv2 assms(1) descent_def)
  have "clear_2m (set_entry t2 (page_idx 21 v) (pde_2m phys flags) s2) r v"
    using assms(2) descent_clear [OF 2(2)] path_idx [of v] by (simp add: clear_2m_def S(7)) (simp add: path_def S(7))
  moreover have "map_page_2mb r v phys flags s = Ret () (set_entry t2 (page_idx 21 v) (pde_2m phys flags) s2)"
    using 2(1) by (simp add: map_page_2mb_def Let_def pde_2m_def andthen_assoc [symmetric])
  ultimately show ?thesis
    using S(1,5) S(6) [OF path_idx(2)] 2(3) pool_only_trans [OF po S(2)] by (simp add: S(4) tr)
qed

section \<open>Physical addresses\<close>

lemma mask_12: "(0xFFF :: u64) = mask 12" and mask_21: "(0x1FFFFF :: u64) = mask 21"
  by (simp_all add: mask_eq_exp_minus_1)

lemma bit_below: "unat (w :: u64) < 2 ^ n \<Longrightarrow> bit w i \<Longrightarrow> i < n"
proof -
  assume "unat w < 2 ^ n" "bit w i"
  then have "take_bit n w = w" by (simp only: word_unat_eq_iff unsigned_take_bit_eq take_bit_nat_eq_self)
  then show ?thesis using \<open>bit w i\<close> by (metis bit_take_bit_iff)
qed

lemma low_flags: "flags AND NOT 0xFFF = 0 \<Longrightarrow> bit flags i \<Longrightarrow> i < 12" for flags :: u64
proof (rule ccontr)
  assume f: "flags AND NOT 0xFFF = 0" and b: "bit flags i" "\<not> i < 12"
  then have "i < 64" using bit_imp_le_length by fastforce
  with b have "bit (flags AND NOT 0xFFF) i" unfolding mask_12 by (simp add: bit_simps)
  then show False using f by simp
qed

lemma page_4k_pte:
  assumes "unat phys < 2 ^ 52" and "flags AND NOT 0xFFF = 0"
  shows "page_4k (pte phys flags) w = ((phys AND NOT 0xFFF) OR (w AND 0xFFF), pte phys flags)"
proof -
  have m: "frame_mask = mask 52 AND NOT (mask 12)" by (simp add: frame_mask_def mask_eq_exp_minus_1)
  have "pte phys flags AND frame_mask = phys AND NOT 0xFFF"
    unfolding m mask_12 pte_def PAGE_PRESENT_def
    by (rule bit_word_eqI) (auto simp: bit_simps dest: bit_below [OF assms(1)] low_flags [OF assms(2)])
  then show ?thesis by (simp add: page_4k_def)
qed

lemma page_2m_pde:
  assumes "unat phys < 2 ^ 52" and "flags AND NOT 0xFFF = 0"
  shows "page_2m (pde_2m phys flags) w = ((phys AND NOT 0x1FFFFF) OR (w AND 0x1FFFFF), pde_2m phys flags)"
proof -
  have m: "0x000FFFFFFFE00000 = mask 52 AND NOT (mask 21 :: u64)" by (simp add: mask_eq_exp_minus_1)
  define c where "c = PAGE_PRESENT OR PAGE_HUGE"
  have l: "bit c i \<Longrightarrow> i < 21" for i
    using bit_below [of c 8 i] by (simp add: c_def PAGE_PRESENT_def PAGE_HUGE_def)
  have "pde_2m phys flags AND 0x000FFFFFFFE00000 = phys AND NOT 0x1FFFFF"
    unfolding m mask_21 pde_2m_def c_def [symmetric]
    by (rule bit_word_eqI) (auto simp: bit_simps dest: bit_below [OF assms(1)] low_flags [OF assms(2)] l)
  then show ?thesis by (simp add: page_2m_def)
qed

lemma pte_low: "flags AND NOT 0xFFF = 0 \<Longrightarrow> pte phys flags AND 0xFFF = flags OR PAGE_PRESENT"
  unfolding pte_def PAGE_PRESENT_def mask_12
  by (rule bit_word_eqI) (auto simp: bit_simps dest: low_flags [of flags, unfolded mask_12])

lemma pde_low:
  assumes "flags AND NOT 0xFFF = 0"
  shows "pde_2m phys flags AND 0xFFF = flags OR PAGE_PRESENT OR PAGE_HUGE"
proof -
  define c where "c = PAGE_PRESENT OR PAGE_HUGE"
  have l: "bit c i \<Longrightarrow> i < 12" for i
    using bit_below [of c 8 i] by (simp add: c_def PAGE_PRESENT_def PAGE_HUGE_def)
  show ?thesis
    unfolding pde_2m_def mask_12 mask_21 c_def [symmetric]
    by (rule bit_word_eqI) (auto simp: bit_simps dest: l low_flags [OF assms])
qed

lemma unat_splice:
  "unat ((a AND NOT (mask n)) OR (w AND mask n)) = unat a div 2 ^ n * 2 ^ n + unat w mod 2 ^ n" for a w :: u64
proof -
  have "(a AND NOT (mask n)) OR (w AND mask n) = (a AND NOT (mask n)) + (w AND mask n)"
    by (rule disjunctive_add_eq_or [symmetric]) (simp add: bit_eq_iff bit_simps)
  moreover have "unat (w AND mask n) = unat w mod 2 ^ n"
    by (simp only: take_bit_eq_mask [symmetric] unsigned_take_bit_eq) (simp only: take_bit_eq_mod)
  moreover have "unat a div 2 ^ n * 2 ^ n + unat w mod 2 ^ n < 2 ^ 64"
  proof (cases "n \<le> 64")
    case True
    have "unat a div 2 ^ n < 2 ^ (64 - n)"
      using unat64_bound [of a] True by (simp add: less_mult_imp_div_less power_add [symmetric])
    then have "unat a div 2 ^ n * 2 ^ n + 2 ^ n \<le> 2 ^ (64 - n) * 2 ^ n"
      by (metis Suc_leI add.commute mult.commute mult_Suc_right mult_le_mono2)
    then have "unat a div 2 ^ n * 2 ^ n + 2 ^ n \<le> 2 ^ 64" using True by (simp add: power_add [symmetric])
    moreover have "unat w mod 2 ^ n < 2 ^ n" by simp
    ultimately show ?thesis by linarith
  next
    case False
    then have "(2 :: nat) ^ 64 < 2 ^ n" by (intro power_strict_increasing) auto
    then show ?thesis using unat64_bound [of a] unat64_bound [of w] by simp
  qed
  ultimately show ?thesis by (simp add: unat_word_ariths unat_align_down)
qed

text \<open>The 48 bits of a virtual address that the walk reads, as a number.\<close>

definition va :: "u64 \<Rightarrow> nat" where "va w = unat w mod 2 ^ 48"

lemma va_small: "unat v < 2 ^ 48 \<Longrightarrow> va v = unat v"
  by (simp add: va_def)

lemma same_page_va: "same_page k w v \<longleftrightarrow> va w div 2 ^ k = va v div 2 ^ k"
proof -
  have u: "unat (drop_bit k (take_bit 48 x)) = va x div 2 ^ k" for x :: u64
    by (simp only: unsigned_drop_bit_eq unsigned_take_bit_eq take_bit_nat_eq_self [OF unsigned_less])
      (simp add: va_def drop_bit_eq_div take_bit_eq_mod)
  show ?thesis by (simp only: same_page_def word_unat_eq_iff u)
qed

lemma same_page_1g: "same_page 30 v w \<longleftrightarrow> page_idx 39 v = page_idx 39 w \<and> page_idx 30 v = page_idx 30 w"
proof -
  have "same_page 48 v w" by (simp add: same_page_idx)
  then show ?thesis using same_page_split [of 30 v w] same_page_split [of 39 v w] by auto
qed

lemma clear_4k_cong: "same_page 21 v w \<Longrightarrow> clear_4k s r v = clear_4k s r w"
  and clear_2m_cong: "same_page 30 v w \<Longrightarrow> clear_2m s r v = clear_2m s r w"
  by (simp_all add: same_page_2m same_page_1g clear_4k_def clear_2m_def)

section \<open>Mapping a region\<close>

text \<open>
  \<open>mapped\<close>: the addresses of \<open>len\<close> bytes from \<open>v\<close> translate to those from \<open>phys\<close>, with the low bits \<open>flags\<close>
  of the final entry; every other address translates as before.
\<close>

definition mapped :: "u64 \<Rightarrow> u64 \<Rightarrow> nat \<Rightarrow> u64 \<Rightarrow> u64 \<Rightarrow> memory \<Rightarrow> memory \<Rightarrow> bool" where
  "mapped v phys len flags r m m' \<longleftrightarrow>
     (\<forall>w. if unat v \<le> va w \<and> va w < unat v + len
       then \<exists>e. translate m' r w = Some (phys + of_nat (va w - unat v), e) \<and> e AND 0xFFF = flags
       else translate m' r w = translate m r w)"

lemma mapped_0: "mapped v phys 0 flags r m m"
  by (auto simp: mapped_def)

lemma mapped_extend:
  assumes "mapped v phys len fl r m m1" and "unat v + len < 2 ^ 48" and "unat v' = unat v + len" and "2 ^ k dvd unat v'"
    and "\<And>w. va w div 2 ^ k = unat v' div 2 ^ k \<Longrightarrow>
      \<exists>e. translate m2 r w = Some (phys + of_nat len + of_nat (va w - unat v'), e) \<and> e AND 0xFFF = fl"
    and "\<And>w. va w div 2 ^ k \<noteq> unat v' div 2 ^ k \<Longrightarrow> translate m2 r w = translate m1 r w"
  shows "mapped v phys (len + 2 ^ k) fl r m m2"
  unfolding mapped_def
proof (intro allI)
  fix w
  obtain c where c: "unat v' = 2 ^ k * c" using assms(4) by blast
  have in_page: "va w div 2 ^ k = unat v' div 2 ^ k \<longleftrightarrow> unat v' \<le> va w \<and> va w < unat v' + 2 ^ k"
  proof -
    have "va w div 2 ^ k = c \<longleftrightarrow> 2 ^ k * c \<le> va w \<and> va w < 2 ^ k * c + 2 ^ k"
    proof
      assume "va w div 2 ^ k = c"
      then have "va w = 2 ^ k * c + va w mod 2 ^ k" using mult_div_mod_eq [of "2 ^ k" "va w"] by simp
      moreover have "va w mod 2 ^ k < 2 ^ k" by simp
      ultimately show "2 ^ k * c \<le> va w \<and> va w < 2 ^ k * c + 2 ^ k" by linarith
    next
      assume "2 ^ k * c \<le> va w \<and> va w < 2 ^ k * c + 2 ^ k"
      then show "va w div 2 ^ k = c" by (intro div_nat_eqI) (simp_all add: add.commute)
    qed
    then show ?thesis by (simp add: c)
  qed
  show "if unat v \<le> va w \<and> va w < unat v + (len + 2 ^ k)
      then \<exists>e. translate m2 r w = Some (phys + of_nat (va w - unat v), e) \<and> e AND 0xFFF = fl
      else translate m2 r w = translate m r w"
  proof (cases "va w div 2 ^ k = unat v' div 2 ^ k")
    case True
    then have "va w - unat v = len + (va w - unat v')" using assms(3) in_page by simp
    then show ?thesis using assms(5) [OF True] True in_page assms(3) by (simp add: algebra_simps)
  next
    case False
    then have "unat v \<le> va w \<and> va w < unat v + (len + 2 ^ k) \<longleftrightarrow> unat v \<le> va w \<and> va w < unat v + len"
      using in_page unfolding assms(3) by auto
    then show ?thesis using assms(1) [unfolded mapped_def, rule_format, of w] assms(6) [OF False] by (simp only:)
  qed
qed

lemma splice_offset:
  assumes "unat v' = unat v + len" and "2 ^ k dvd unat v'" and "2 ^ k dvd unat phys'" and "va w div 2 ^ k = unat v' div 2 ^ k" and "k \<le> 48"
  shows "(phys' AND NOT (mask k)) OR (w AND mask k) = phys' + of_nat (va w - unat v')"
proof -
  have d: "(2 :: nat) ^ k dvd 2 ^ 48" using assms(5) by (rule le_imp_power_dvd)
  have "unat w mod 2 ^ k = va w mod 2 ^ k" unfolding va_def using d by (rule mod_mod_cancel [symmetric])
  moreover have "va w = unat v' + va w mod 2 ^ k"
    using assms(2,4) by (metis dvd_div_mult_self div_mult_mod_eq)
  ultimately have w: "unat w mod 2 ^ k = va w - unat v'" by simp
  have "unat ((phys' AND NOT (mask k)) OR (w AND mask k)) = unat phys' + (va w - unat v')"
    unfolding unat_splice w using assms(3) by simp
  then have "of_nat (unat ((phys' AND NOT (mask k)) OR (w AND mask k))) = (of_nat (unat phys' + (va w - unat v')) :: u64)"
    by (simp only:)
  then show ?thesis by (simp only: of_nat_add of_nat_unat ucast_id)
qed

text \<open>One round of the 4 KiB loop.\<close>

lemma map_page_4kb_extends:
  assumes "pt_inv r s" and "clear_4k s r v'" and "can_reach s r [page_idx 39 v', page_idx 30 v', page_idx 21 v']"
    and "flags AND NOT 0xFFF = 0" and "unat phys + len < 2 ^ 52" and "4096 dvd unat v" and "4096 dvd unat phys" and "4096 dvd len"
    and "unat v + len < 2 ^ 48" and "v' = v + of_nat len" and "mapped v phys len (flags OR PAGE_PRESENT) r m (mem s)"
  shows "returns (map_page_4kb r v' (phys + of_nat len) flags s) (\<lambda>_ s'. pt_inv r s' \<and> pool_only s s' \<and> clear_4k s' r v'
    \<and> can_reach s' r [page_idx 39 v', page_idx 30 v', page_idx 21 v']
    \<and> mapped v phys (len + 4096) (flags OR PAGE_PRESENT) r m (mem s'))"
proof -
  have v': "unat v' = unat v + len" using assms(9,10) by (simp add: unat_word_ariths unat_of_nat)
  have p': "unat (phys + of_nat len) = unat phys + len" using assms(5) by (simp add: unat_word_ariths unat_of_nat)
  have vv: "va v' = unat v'" using v' assms(9) by (intro va_small) simp
  have dv: "2 ^ 12 dvd unat v'" "2 ^ 12 dvd unat (phys + of_nat len)" using assms(6-8) by (simp_all add: v' p')
  have ext: "mapped v phys (len + 2 ^ 12) (flags OR PAGE_PRESENT) r m m'"
    if t: "\<forall>w. translate m' r w = (if same_page 12 w v' then Some (page_4k (pte (phys + of_nat len) flags) w) else translate (mem s) r w)"
    for m'
  proof (rule mapped_extend [OF assms(11) assms(9) v' dv(1)])
    fix w assume w: "va w div 2 ^ 12 = unat v' div 2 ^ 12"
    have "page_4k (pte (phys + of_nat len) flags) w
      = (phys + of_nat len + of_nat (va w - unat v'), pte (phys + of_nat len) flags)"
      using page_4k_pte [OF _ assms(4), of "phys + of_nat len" w] assms(5) splice_offset [OF v' dv w]
      by (simp only: p' mask_12)
    then show "\<exists>e. translate m' r w = Some (phys + of_nat len + of_nat (va w - unat v'), e) \<and> e AND 0xFFF = flags OR PAGE_PRESENT"
      using w t pte_low [OF assms(4)] by (simp add: same_page_va vv)
  next
    fix w assume "va w div 2 ^ 12 \<noteq> unat v' div 2 ^ 12"
    then show "translate m' r w = translate (mem s) r w" using t by (simp add: same_page_va vv)
  qed
  show ?thesis
    using map_page_4kb_ok [OF assms(1-3), of "phys + of_nat len" flags]
    by (rule returns_weaken) (use ext in \<open>simp add: can_reach_def\<close>)
qed

definition round_up :: "nat \<Rightarrow> nat \<Rightarrow> nat" where
  "round_up k n = (n + (2 ^ k - 1)) div 2 ^ k * 2 ^ k"

lemma round_up_rounds:
  assumes "n \<le> j * 2 ^ k" and "j \<le> round_up k n div 2 ^ k"
  shows "j * 2 ^ k = round_up k n"
proof -
  let ?q = "(n + (2 ^ k - 1)) div 2 ^ k"
  have r: "round_up k n = ?q * 2 ^ k" by (simp add: round_up_def)
  have "?q \<le> j" using assms(1) by (intro less_Suc_eq_le [THEN iffD1] less_mult_imp_div_less) (simp add: algebra_simps, use zero_less_power [of "2 :: nat" k] in linarith)
  moreover have "j \<le> ?q" using assms(2) unfolding r by simp
  ultimately show ?thesis unfolding r by simp
qed

lemma round_up_step:
  assumes "j * 2 ^ k < n"
  shows "Suc j \<le> round_up k n div 2 ^ k"
proof -
  have "Suc j * 2 ^ k \<le> n + (2 ^ k - 1)" using assms by simp
  then have "Suc j \<le> (n + (2 ^ k - 1)) div 2 ^ k" by (simp add: less_eq_div_iff_mult_less_eq)
  then show ?thesis by (simp add: round_up_def)
qed

lemma block_va:
  assumes "unat v < 2 ^ 48" and "unat v mod 2 ^ b + n \<le> 2 ^ b" and "j < n" and "b \<le> 48"
  shows "unat v + j < 2 ^ 48" and "unat (v + of_nat j) = unat v + j" and "same_page b (v + of_nat j) v"
proof -
  define c where "c = unat v div 2 ^ b"
  have v: "unat v = c * 2 ^ b + unat v mod 2 ^ b" unfolding c_def by (rule div_mult_mod_eq [symmetric])
  have p: "(2 :: nat) ^ 48 = 2 ^ (48 - b) * 2 ^ b" using assms(4) by (simp flip: power_add)
  have "c * 2 ^ b < 2 ^ (48 - b) * 2 ^ b" using assms(1) v p by linarith
  then have "Suc c \<le> 2 ^ (48 - b)" by simp
  then have "Suc c * 2 ^ b \<le> 2 ^ 48" unfolding p by (rule mult_le_mono1)
  then show lt: "unat v + j < 2 ^ 48" using v assms(2,3) by simp
  then show u: "unat (v + of_nat j) = unat v + j" by (simp add: unat_word_ariths unat_of_nat)
  have "(unat v + j) div 2 ^ b = c" using v assms(2,3) by (intro div_nat_eqI) (simp_all add: mult.commute)
  then show "same_page b (v + of_nat j) v" using lt assms(1) u by (simp add: same_page_va va_small c_def)
qed

lemma map_region_4kb_ok:
  assumes "pt_inv r s" and "clear_4k s r v" and "can_reach s r [page_idx 39 v, page_idx 30 v, page_idx 21 v]"
    and "flags AND NOT 0xFFF = 0" and "4096 dvd unat v" and "4096 dvd unat phys"
    and "unat v < 2 ^ 48" and "unat v mod 2 ^ 21 + unat sz \<le> 2 ^ 21" and "unat phys + unat sz \<le> 2 ^ 52"
  shows "returns (map_region_4kb r v phys sz flags s) (\<lambda>_ s'. pt_inv r s' \<and> pool_only s s'
    \<and> mapped v phys (round_up 12 (unat sz)) (flags OR PAGE_PRESENT) r (mem s) (mem s'))"
proof -
  let ?is = "[page_idx 39 v, page_idx 30 v, page_idx 21 v]"
  define P where "P k t \<longleftrightarrow> k \<le> round_up 12 (unat sz) div 2 ^ 12 \<and> pt_inv r t \<and> pool_only s t \<and> clear_4k t r v \<and> can_reach t r ?is
    \<and> mapped v phys (k * 4096) (flags OR PAGE_PRESENT) r (mem s) (mem t)" for k t
  have "returns (for_step 0 sz 0x1000 (\<lambda>offset s. map_page_4kb r (v + offset) (phys + offset) flags s) s)
    (\<lambda>_ t. \<exists>k. P k t \<and> unat sz \<le> k * unat (0x1000 :: u64))"
  proof (rule for_step_rule)
    have u: "unat (0x1000 :: u64) = 4096" by simp
    show "P 0 s" using assms(1-3) by (simp add: P_def mapped_0 pool_only_refl)
    show "unat sz + unat (0x1000 :: u64) \<le> 2 ^ LENGTH(64)" using assms(9) by simp
    fix k t assume P: "P k t" and "k * unat (0x1000 :: u64) < unat sz"
    then have lt: "k * 4096 < unat sz" by simp
    note b = block_va [OF assms(7,8) lt, simplified]
    have sp: "page_idx 39 (v + of_nat (k * 4096)) = page_idx 39 v" "page_idx 30 (v + of_nat (k * 4096)) = page_idx 30 v"
      "page_idx 21 (v + of_nat (k * 4096)) = page_idx 21 v"
      using b(3) by (simp_all add: same_page_2m)
    have cl: "clear_4k u r (v + of_nat (k * 4096)) = clear_4k u r v" for u :: "'a paging_st_scheme"
      using clear_4k_cong [OF b(3), of u r] by simp
    have "returns (map_page_4kb r (v + of_nat (k * 4096)) (phys + of_nat (k * 4096)) flags t) (\<lambda>_ s'. pt_inv r s' \<and> pool_only t s'
      \<and> clear_4k s' r (v + of_nat (k * 4096))
      \<and> can_reach s' r [page_idx 39 (v + of_nat (k * 4096)), page_idx 30 (v + of_nat (k * 4096)), page_idx 21 (v + of_nat (k * 4096))]
      \<and> mapped v phys (k * 4096 + 4096) (flags OR PAGE_PRESENT) r (mem s) (mem s'))"
      using P b(1) lt assms(4-6,9)
      by (intro map_page_4kb_extends) (auto simp: P_def sp cl simp del: of_nat_mult)
    then show "returns (map_page_4kb r (v + of_nat (k * unat (0x1000 :: u64))) (phys + of_nat (k * unat (0x1000 :: u64))) flags t) (\<lambda>_. P (Suc k))"
      unfolding u sp cl by (rule returns_weaken)
        (use P round_up_step [of k 12 "unat sz"] lt in \<open>auto simp: P_def add.commute intro: pool_only_trans\<close>)
  qed simp
  then show ?thesis
    unfolding map_region_4kb_def
    by (rule returns_weaken) (use round_up_rounds [of "unat sz" _ 12] in \<open>clarsimp simp: P_def, metis\<close>)
qed

text \<open>One round of the 2 MiB loop.\<close>

lemma map_page_2mb_extends:
  assumes "pt_inv r s" and "clear_2m s r v'" and "can_reach s r [page_idx 39 v', page_idx 30 v']"
    and "flags AND NOT 0xFFF = 0" and "unat phys + len < 2 ^ 52" and "0x200000 dvd unat v" and "0x200000 dvd unat phys" and "0x200000 dvd len"
    and "unat v + len < 2 ^ 48" and "v' = v + of_nat len" and "mapped v phys len (flags OR PAGE_PRESENT OR PAGE_HUGE) r m (mem s)"
  shows "returns (map_page_2mb r v' (phys + of_nat len) flags s) (\<lambda>_ s'. pt_inv r s' \<and> pool_only s s' \<and> clear_2m s' r v'
    \<and> can_reach s' r [page_idx 39 v', page_idx 30 v']
    \<and> mapped v phys (len + 0x200000) (flags OR PAGE_PRESENT OR PAGE_HUGE) r m (mem s'))"
proof -
  have v': "unat v' = unat v + len" using assms(9,10) by (simp add: unat_word_ariths unat_of_nat)
  have p': "unat (phys + of_nat len) = unat phys + len" using assms(5) by (simp add: unat_word_ariths unat_of_nat)
  have vv: "va v' = unat v'" using v' assms(9) by (intro va_small) simp
  have dv: "2 ^ 21 dvd unat v'" "2 ^ 21 dvd unat (phys + of_nat len)" using assms(6-8) by (simp_all add: v' p')
  have ext: "mapped v phys (len + 2 ^ 21) (flags OR PAGE_PRESENT OR PAGE_HUGE) r m m'"
    if t: "\<forall>w. translate m' r w = (if same_page 21 w v' then Some (page_2m (pde_2m (phys + of_nat len) flags) w) else translate (mem s) r w)"
    for m'
  proof (rule mapped_extend [OF assms(11) assms(9) v' dv(1)])
    fix w assume w: "va w div 2 ^ 21 = unat v' div 2 ^ 21"
    have "page_2m (pde_2m (phys + of_nat len) flags) w
      = (phys + of_nat len + of_nat (va w - unat v'), pde_2m (phys + of_nat len) flags)"
      using page_2m_pde [OF _ assms(4), of "phys + of_nat len" w] assms(5) splice_offset [OF v' dv w]
      by (simp only: p' mask_21)
    then show "\<exists>e. translate m' r w = Some (phys + of_nat len + of_nat (va w - unat v'), e) \<and> e AND 0xFFF = flags OR PAGE_PRESENT OR PAGE_HUGE"
      using w t pde_low [OF assms(4)] by (simp add: same_page_va vv)
  next
    fix w assume "va w div 2 ^ 21 \<noteq> unat v' div 2 ^ 21"
    then show "translate m' r w = translate (mem s) r w" using t by (simp add: same_page_va vv)
  qed
  show ?thesis
    using map_page_2mb_ok [OF assms(1-3), of "phys + of_nat len" flags]
    by (rule returns_weaken) (use ext in \<open>simp add: can_reach_def\<close>)
qed

lemma map_region_2mb_ok:
  assumes "pt_inv r s" and "clear_2m s r v" and "can_reach s r [page_idx 39 v, page_idx 30 v]"
    and "flags AND NOT 0xFFF = 0" and "0x200000 dvd unat v" and "0x200000 dvd unat phys"
    and "unat v < 2 ^ 48" and "unat v mod 2 ^ 30 + unat sz \<le> 2 ^ 30" and "unat phys + unat sz \<le> 2 ^ 52"
  shows "returns (map_region_2mb r v phys sz flags s) (\<lambda>_ s'. pt_inv r s' \<and> pool_only s s'
    \<and> mapped v phys (round_up 21 (unat sz)) (flags OR PAGE_PRESENT OR PAGE_HUGE) r (mem s) (mem s'))"
proof -
  let ?is = "[page_idx 39 v, page_idx 30 v]"
  define P where "P k t \<longleftrightarrow> k \<le> round_up 21 (unat sz) div 2 ^ 21 \<and> pt_inv r t \<and> pool_only s t \<and> clear_2m t r v \<and> can_reach t r ?is
    \<and> mapped v phys (k * 0x200000) (flags OR PAGE_PRESENT OR PAGE_HUGE) r (mem s) (mem t)" for k t
  have "returns (for_step 0 sz 0x200000 (\<lambda>offset s. map_page_2mb r (v + offset) (phys + offset) flags s) s)
    (\<lambda>_ t. \<exists>k. P k t \<and> unat sz \<le> k * unat (0x200000 :: u64))"
  proof (rule for_step_rule)
    have u: "unat (0x200000 :: u64) = 0x200000" by simp
    show "P 0 s" using assms(1-3) by (simp add: P_def mapped_0 pool_only_refl)
    show "unat sz + unat (0x200000 :: u64) \<le> 2 ^ LENGTH(64)" using assms(9) by simp
    fix k t assume P: "P k t" and "k * unat (0x200000 :: u64) < unat sz"
    then have lt: "k * 0x200000 < unat sz" by simp
    note b = block_va [OF assms(7,8) lt, simplified]
    have sp: "page_idx 39 (v + of_nat (k * 0x200000)) = page_idx 39 v" "page_idx 30 (v + of_nat (k * 0x200000)) = page_idx 30 v"
      using b(3) by (simp_all add: same_page_1g)
    have cl: "clear_2m u r (v + of_nat (k * 0x200000)) = clear_2m u r v" for u :: "'a paging_st_scheme"
      using clear_2m_cong [OF b(3), of u r] by simp
    have "returns (map_page_2mb r (v + of_nat (k * 0x200000)) (phys + of_nat (k * 0x200000)) flags t) (\<lambda>_ s'. pt_inv r s' \<and> pool_only t s'
      \<and> clear_2m s' r (v + of_nat (k * 0x200000))
      \<and> can_reach s' r [page_idx 39 (v + of_nat (k * 0x200000)), page_idx 30 (v + of_nat (k * 0x200000))]
      \<and> mapped v phys (k * 0x200000 + 0x200000) (flags OR PAGE_PRESENT OR PAGE_HUGE) r (mem s) (mem s'))"
      using P b(1) lt assms(4-6,9)
      by (intro map_page_2mb_extends) (auto simp: P_def sp cl simp del: of_nat_mult)
    then show "returns (map_page_2mb r (v + of_nat (k * unat (0x200000 :: u64))) (phys + of_nat (k * unat (0x200000 :: u64))) flags t) (\<lambda>_. P (Suc k))"
      unfolding u sp cl by (rule returns_weaken)
        (use P round_up_step [of k 21 "unat sz"] lt in \<open>auto simp: P_def add.commute intro: pool_only_trans\<close>)
  qed simp
  then show ?thesis
    unfolding map_region_2mb_def
    by (rule returns_weaken) (use round_up_rounds [of "unat sz" _ 21] in \<open>clarsimp simp: P_def, metis\<close>)
qed


section \<open>Properties\<close>

text \<open>An all-zero memory in which the pool's first table is the root: the state the witnesses start from.\<close>

definition demo_pt :: paging_st where
  "demo_pt = hw.extend demo_hw \<lparr>g_pml4 = 0x200000, pool_base = 0x200000, pool_offset = 4096\<rparr>"

lemma demo_pt_sel [simp]: "mem demo_pt = (\<lambda>_. 0)" "g_pml4 demo_pt = 0x200000" "pool_base demo_pt = 0x200000"
  "pool_offset demo_pt = 4096" "events demo_pt = []"
  by (simp_all add: demo_pt_def hw.defs demo_hw_def)

lemma load64_zero: "load64 (\<lambda>_. 0) a = 0"
proof -
  have "read_bytes (\<lambda>_. 0) a 8 = replicate 8 0" by (simp add: read_bytes_def map_replicate_const)
  then have "load 8 (\<lambda>_. 0) a = 0" unfolding load_def by (simp only: le_nat_zeros)
  then show ?thesis by (simp add: load64_def)
qed

lemma empty_tree:
  assumes "\<And>t i. E t i = 0"
  shows "tree E r {r}" and "lk E r q i = Some e \<Longrightarrow> \<not> present e"
proof -
  have "\<not> is_table 0" by (simp add: is_table_def)
  then have w: "walk E r p = (if p = [] then Some r else None)" for p
    by (cases p) (simp_all add: assms)
  then show "tree E r {r}" by (simp add: tree_def split: if_splits)
  show "lk E r q i = Some e \<Longrightarrow> \<not> present e" using w by (auto simp: lk_def assms present_def split: if_splits)
qed

lemma demo_pt_inv: "pt_inv 0x200000 demo_pt" "clear_4k demo_pt 0x200000 v" "clear_2m demo_pt 0x200000 v"
  "room demo_pt 3" "room demo_pt 2"
proof -
  have T: "tables demo_pt = {0x200000}"
  proof -
    have "4096 * k < 4096 \<longleftrightarrow> k = 0" for k :: nat by auto
    then show ?thesis by (simp add: tables_def)
  qed
  have E: "entries_of demo_pt t i = 0" for t i by (simp add: entries_of_def load64_zero)
  show "pt_inv 0x200000 demo_pt"
    using empty_tree(1) [OF E] by (simp add: pt_inv_def T pool_ok_def dvd_eq_mod_eq_0)
  show "clear_4k demo_pt 0x200000 v" "clear_2m demo_pt 0x200000 v"
    using empty_tree(2) [OF E] by (auto simp: clear_4k_def clear_2m_def huge_in_def)
  show "room demo_pt 3" "room demo_pt 2" by (simp_all add: room_def)
qed

text \<open>
  C3. \<open>map_page_4kb\<close> maps exactly one page: with three free tables in the pool and no large page over the
  address it returns; the processor then translates every address of the page of \<open>v\<close> to the frame of \<open>phys\<close>
  with the given flags, every other address as before; the tables stay a tree, and only the pool is written.
\<close>

theorem map_page_4kb_correct:
  assumes "pt_inv r s" and "clear_4k s r v" and "room s 3" and "flags AND NOT 0xFFF = 0" and "unat phys < 2 ^ 52"
  shows "returns (map_page_4kb r v phys flags s) (\<lambda>_ s'. pt_inv r s' \<and> pool_only s s' \<and>
    (\<forall>w. translate (mem s') r w =
       (if same_page 12 w v
        then Some ((phys AND NOT 0xFFF) OR (w AND 0xFFF), (phys AND NOT 0xFFF) OR flags OR PAGE_PRESENT)
        else translate (mem s) r w)))"
proof -
  have "can_reach s r [page_idx 39 v, page_idx 30 v, page_idx 21 v]" using assms(3) by (simp add: can_reach_room numeral_3_eq_3)
  from map_page_4kb_ok [OF assms(1,2) this, of phys flags] show ?thesis
    unfolding page_4k_pte [OF assms(5,4)] by (rule returns_weaken) (simp add: pte_def)
qed

theorem map_page_4kb_correct_witness:
  "returns (map_page_4kb 0x200000 0xB8000 0xB8000 PAGE_WRITABLE demo_pt) (\<lambda>_ s'. pt_inv 0x200000 s' \<and>
    translate (mem s') 0x200000 0xB8123 = Some (0xB8123, 0xB8003) \<and>
    translate (mem s') 0x200000 0xB9000 = translate (mem demo_pt) 0x200000 0xB9000)"
proof -
  have f: "PAGE_WRITABLE AND NOT 0xFFF = 0" by (simp add: PAGE_WRITABLE_def)
  have p: "same_page 12 0xB8123 0xB8000" "\<not> same_page 12 0xB9000 0xB8000" by (simp_all add: same_page_va va_def)
  show ?thesis
    by (rule returns_weaken [OF map_page_4kb_correct [OF demo_pt_inv(1,2,4) f, of "0xB8000"]])
      (simp_all add: p PAGE_WRITABLE_def PAGE_PRESENT_def)
qed

text \<open>
  C23. \<open>map_page_2mb\<close> maps exactly one large page: with two free tables and no 1 GiB page over the address it
  returns; all addresses of the 2 MiB page of \<open>v\<close> then translate into the 2 MiB frame of \<open>phys\<close>, all others as before.
\<close>

theorem map_page_2mb_correct:
  assumes "pt_inv r s" and "clear_2m s r v" and "room s 2" and "flags AND NOT 0xFFF = 0" and "unat phys < 2 ^ 52"
  shows "returns (map_page_2mb r v phys flags s) (\<lambda>_ s'. pt_inv r s' \<and> pool_only s s' \<and>
    (\<forall>w. translate (mem s') r w =
       (if same_page 21 w v
        then Some ((phys AND NOT 0x1FFFFF) OR (w AND 0x1FFFFF), (phys AND NOT 0x1FFFFF) OR flags OR PAGE_PRESENT OR PAGE_HUGE)
        else translate (mem s) r w)))"
proof -
  have "can_reach s r [page_idx 39 v, page_idx 30 v]" using assms(3) by (simp add: can_reach_room numeral_2_eq_2)
  from map_page_2mb_ok [OF assms(1,2) this, of phys flags] show ?thesis
    unfolding page_2m_pde [OF assms(5,4)] by (rule returns_weaken) (simp add: pde_2m_def)
qed

theorem map_page_2mb_correct_witness:
  "returns (map_page_2mb 0x200000 0x400000 0x600000 PAGE_WRITABLE demo_pt) (\<lambda>_ s'. pt_inv 0x200000 s' \<and>
    translate (mem s') 0x200000 0x412345 = Some (0x612345, 0x600083) \<and>
    translate (mem s') 0x200000 0x600000 = translate (mem demo_pt) 0x200000 0x600000)"
proof -
  have f: "PAGE_WRITABLE AND NOT 0xFFF = 0" by (simp add: PAGE_WRITABLE_def)
  have p: "same_page 21 0x412345 0x400000" "\<not> same_page 21 0x600000 0x400000" by (simp_all add: same_page_va va_def)
  show ?thesis
    by (rule returns_weaken [OF map_page_2mb_correct [OF demo_pt_inv(1,3,5) f, of "0x600000"]])
      (simp_all add: p PAGE_WRITABLE_def PAGE_PRESENT_def PAGE_HUGE_def)
qed

text \<open>The page-aligned range around \<open>[a, a + n)\<close> that the MMIO functions compute, inside one 2 MiB block.\<close>

lemma round_up_bounds: "n \<le> round_up k n" "round_up k n < n + 2 ^ k" "2 ^ k dvd round_up k n"
proof -
  let ?q = "n + (2 ^ k - 1)"
  have d: "?q = round_up k n + ?q mod 2 ^ k" unfolding round_up_def by (rule div_mult_mod_eq [symmetric])
  have m: "?q mod 2 ^ k < 2 ^ k" by simp
  have p: "(1 :: nat) \<le> 2 ^ k" by simp
  show "n \<le> round_up k n" using d m p by linarith
  show "round_up k n < n + 2 ^ k" using d p by linarith
  show "2 ^ k dvd round_up k n" by (simp add: round_up_def)
qed

lemma round_up_least: "n \<le> b \<Longrightarrow> 2 ^ k dvd b \<Longrightarrow> round_up k n \<le> b"
proof -
  assume b: "n \<le> b" "2 ^ k dvd b"
  then obtain j where j: "b = j * 2 ^ k" by (metis dvd_def mult.commute)
  have "(n + (2 ^ k - 1)) div 2 ^ k \<le> j"
    using b(1) unfolding j by (intro less_Suc_eq_le [THEN iffD1] less_mult_imp_div_less)
      (simp add: algebra_simps, use zero_less_power [of "2 :: nat" k] in linarith)
  then show ?thesis unfolding j round_up_def by simp
qed

lemma mmio_range:
  fixes a n :: u64
  defines "base \<equiv> a AND NOT 0xFFF" and "hi \<equiv> (a + n + 0xFFF) AND NOT 0xFFF"
  assumes "unat a mod 2 ^ 21 + unat n \<le> 2 ^ 21" and "unat a < 2 ^ 48"
  shows "unat base = unat a div 2 ^ 12 * 2 ^ 12" and "unat base + unat (hi - base) = round_up 12 (unat a + unat n)"
    and "unat base mod 2 ^ 21 + unat (hi - base) \<le> 2 ^ 21" and "same_page 21 base a"
    and "unat a + unat n \<le> 2 ^ 48" and "2 ^ 12 dvd unat (hi - base)"
proof -
  define c where "c = unat a div 2 ^ 21"
  have a: "unat a = c * 2 ^ 21 + unat a mod 2 ^ 21" unfolding c_def by (rule div_mult_mod_eq [symmetric])
  have "c < 2 ^ 27" using assms(4) unfolding c_def by (intro less_mult_imp_div_less) simp
  then have top: "(c + 1) * 2 ^ 21 \<le> 2 ^ 48" by simp
  then show sum: "unat a + unat n \<le> 2 ^ 48" using a assms(3) by simp
  show base: "unat base = unat a div 2 ^ 12 * 2 ^ 12" unfolding base_def mask_12 by (rule unat_align_down)
  have "unat (a + n + 0xFFF) = unat a + unat n + (2 ^ 12 - 1)" using sum by (simp add: unat_word_ariths)
  then have hi: "unat hi = round_up 12 (unat a + unat n)"
    unfolding hi_def mask_12 by (simp only: unat_align_down round_up_def)
  have bl: "unat base \<le> unat a" unfolding base by simp
  have le: "base \<le> hi" using bl round_up_bounds(1) [of "unat a + unat n" 12] hi by (simp add: word_le_nat_alt)
  then show diff: "unat base + unat (hi - base) = round_up 12 (unat a + unat n)"
    using hi by (simp add: unat_sub word_le_nat_alt)
  have "unat (hi - base) = unat hi - unat base" using le by (rule unat_sub)
  moreover have "2 ^ 12 dvd unat hi - unat base"
    unfolding hi base by (intro dvd_diff_nat round_up_bounds(3) dvd_triv_right)
  ultimately show "2 ^ 12 dvd unat (hi - base)" by (simp only:)
  have ra: "round_up 12 (unat a + unat n) \<le> (c + 1) * 2 ^ 21"
    using a assms(3) by (intro round_up_least) auto
  have "unat a div 2 ^ 12 = c * 2 ^ 9 + unat a mod 2 ^ 21 div 2 ^ 12"
  proof -
    have "unat a div 2 ^ 12 = (unat a mod 2 ^ 21 + c * 2 ^ 9 * 2 ^ 12) div 2 ^ 12" by (subst a) simp
    then show ?thesis by (simp only: div_mult_self1) simp
  qed
  then have b: "unat base = c * 2 ^ 21 + unat a mod 2 ^ 21 div 2 ^ 12 * 2 ^ 12" unfolding base by simp
  have q: "unat a mod 2 ^ 21 div 2 ^ 12 * 2 ^ 12 < 2 ^ 21"
    by (rule le_less_trans [OF div_times_less_eq_dividend]) simp
  have bm: "unat base mod 2 ^ 21 = unat a mod 2 ^ 21 div 2 ^ 12 * 2 ^ 12" unfolding b using q by simp
  show "unat base mod 2 ^ 21 + unat (hi - base) \<le> 2 ^ 21" using ra diff b bm by simp
  have "unat base div 2 ^ 21 = c" unfolding b using q by simp
  moreover have "unat base < 2 ^ 48" using bl assms(4) by simp
  ultimately show "same_page 21 base a" using assms(4) by (simp add: same_page_va va_small c_def)
qed

lemma mapped_identity:
  fixes a n base len :: u64
  assumes "mapped base base (unat len) fl r m m'" and "unat base \<le> unat a" and "unat base = unat a div 2 ^ 12 * 2 ^ 12"
    and "unat base + unat len = round_up 12 (unat a + unat n)"
  shows "(\<forall>w. unat a \<le> va w \<and> va w < unat a + unat n \<longrightarrow> (\<exists>e. translate m' r w = Some (of_nat (va w), e) \<and> e AND 0xFFF = fl)) \<and>
    (\<forall>w. va w < unat a div 4096 * 4096 \<or> round_up 12 (unat a + unat n) \<le> va w \<longrightarrow> translate m' r w = translate m r w)"
proof (intro conjI allI impI)
  fix w assume w: "unat a \<le> va w \<and> va w < unat a + unat n"
  then have "unat base \<le> va w \<and> va w < unat base + unat len"
    using assms(2,4) round_up_bounds(1) [of "unat a + unat n" 12] by linarith
  moreover from this have "base + of_nat (va w - unat base) = of_nat (va w)" by (simp add: of_nat_diff)
  ultimately show "\<exists>e. translate m' r w = Some (of_nat (va w), e) \<and> e AND 0xFFF = fl"
    using assms(1) [unfolded mapped_def, rule_format, of w] by simp
next
  fix w assume "va w < unat a div 4096 * 4096 \<or> round_up 12 (unat a + unat n) \<le> va w"
  then have "\<not> (unat base \<le> va w \<and> va w < unat base + unat len)" using assms(3,4) by auto
  then show "translate m' r w = translate m r w"
    using assms(1) [unfolded mapped_def, rule_format, of w] by (simp only: if_False)
qed

text \<open>
  C22. \<open>paging_map_mmio_region\<close> makes a device reachable at its physical address: for a range inside one 2 MiB
  block with no large page over it, and three free tables, every address of the range translates to itself,
  present, writable and uncached; addresses outside the pages of the range translate as before.
\<close>

theorem paging_map_mmio_region_identity:
  assumes "pt_inv (g_pml4 s) s" and "clear_4k s (g_pml4 s) phys" and "room s 3"
    and "unat phys < 2 ^ 48" and "unat phys mod 2 ^ 21 + unat sz \<le> 2 ^ 21"
  shows "returns (paging_map_mmio_region phys sz s) (\<lambda>_ s'. pt_inv (g_pml4 s) s' \<and> pool_only s s' \<and>
    (\<forall>w. unat phys \<le> va w \<and> va w < unat phys + unat sz \<longrightarrow>
       (\<exists>e. translate (mem s') (g_pml4 s) w = Some (of_nat (va w), e) \<and>
          e AND 0xFFF = PAGE_WRITABLE OR PAGE_CACHE_DISABLE OR PAGE_PRESENT)) \<and>
    (\<forall>w. va w < unat phys div 4096 * 4096 \<or> round_up 12 (unat phys + unat sz) \<le> va w \<longrightarrow>
       translate (mem s') (g_pml4 s) w = translate (mem s) (g_pml4 s) w))"
proof -
  let ?fl = "PAGE_WRITABLE OR PAGE_CACHE_DISABLE" and ?r = "g_pml4 s"
  define base where "base = phys AND NOT 0xFFF"
  define len where "len = ((phys + sz + 0xFFF) AND NOT 0xFFF) - base"
  note rng = mmio_range [OF assms(5,4), folded base_def, folded len_def]
  have f: "?fl AND NOT 0xFFF = 0" by (simp add: PAGE_WRITABLE_def PAGE_CACHE_DISABLE_def)
  have dv: "4096 dvd unat base" using rng(1) by simp
  have bs: "unat base \<le> unat phys" unfolding rng(1) by simp
  have reach: "can_reach s ?r [page_idx 39 base, page_idx 30 base, page_idx 21 base]"
    using assms(3) by (intro can_reach_room) (simp add: numeral_3_eq_3)
  have cl: "clear_4k s ?r base" using clear_4k_cong [OF rng(4)] assms(2) by blast
  have top: "unat base + unat len \<le> 2 ^ 52"
    using rng(2,5) round_up_bounds(2) [of 12 "unat phys + unat sz"] by simp
  have b48: "unat base < 2 ^ 48" using bs assms(4) by simp
  obtain j where j: "unat len = j * 2 ^ 12" using rng(6) by (metis dvd_def mult.commute)
  have ru: "round_up 12 (unat len) = unat len" using j by (simp add: round_up_def)
  have ok: "returns (map_region_4kb ?r base base len ?fl s) (\<lambda>_ s'. pt_inv ?r s' \<and> pool_only s s'
    \<and> mapped base base (unat len) (?fl OR PAGE_PRESENT) ?r (mem s) (mem s'))"
    using map_region_4kb_ok [OF assms(1) cl reach f dv dv b48 rng(3) top] unfolding ru .
  note conv = mapped_identity [where r = ?r and fl = "?fl OR PAGE_PRESENT" and m = "mem s", OF _ bs rng(1,2)]
  have "paging_map_mmio_region phys sz s = map_region_4kb ?r base base len ?fl s"
    by (simp only: paging_map_mmio_region_def Let_def base_def len_def)
  then show ?thesis using ok conv by (simp add: or.assoc) (erule returns_weaken, simp)
qed

theorem paging_map_mmio_region_identity_witness:
  "returns (paging_map_mmio_region 0xFEE00000 0x400 demo_pt) (\<lambda>_ s'. pt_inv 0x200000 s' \<and>
    (\<exists>e. translate (mem s') 0x200000 0xFEE000B0 = Some (0xFEE000B0, e) \<and> e AND 0xFFF = 0x13))"
proof -
  have va: "va 0xFEE000B0 = 0xFEE000B0" by (simp add: va_def)
  have cl: "clear_4k demo_pt (g_pml4 demo_pt) 0xFEE00000" and inv: "pt_inv (g_pml4 demo_pt) demo_pt"
    using demo_pt_inv by simp_all
  have fl: "PAGE_WRITABLE OR PAGE_CACHE_DISABLE OR PAGE_PRESENT = 0x13"
    by (simp add: PAGE_WRITABLE_def PAGE_CACHE_DISABLE_def PAGE_PRESENT_def)
  show ?thesis
  proof (rule returns_weaken [OF paging_map_mmio_region_identity [OF inv cl demo_pt_inv(4), of "0x400"]])
    fix a s' assume "pt_inv (g_pml4 demo_pt) s' \<and> pool_only demo_pt s' \<and>
      (\<forall>w. unat (0xFEE00000 :: u64) \<le> va w \<and> va w < unat (0xFEE00000 :: u64) + unat (0x400 :: u64) \<longrightarrow>
       (\<exists>e. translate (mem s') (g_pml4 demo_pt) w = Some (of_nat (va w), e) \<and>
          e AND 0xFFF = PAGE_WRITABLE OR PAGE_CACHE_DISABLE OR PAGE_PRESENT)) \<and>
      (\<forall>w. va w < unat (0xFEE00000 :: u64) div 4096 * 4096 \<or> round_up 12 (unat (0xFEE00000 :: u64) + unat (0x400 :: u64)) \<le> va w \<longrightarrow>
       translate (mem s') (g_pml4 demo_pt) w = translate (mem demo_pt) (g_pml4 demo_pt) w)"
    then show "pt_inv 0x200000 s' \<and> (\<exists>e. translate (mem s') 0x200000 0xFEE000B0 = Some (0xFEE000B0, e) \<and> e AND 0xFFF = 0x13)"
      using va fl by (auto dest!: spec [of _ "0xFEE000B0"])
  qed simp_all
qed

lemma next_table_present:
  assumes "pt_inv r s" and "path p" and "walk (entries_of s) r p = Some a" and "i < 512"
    and "lk (entries_of s) r p i = Some e" and "present e"
  shows "next_table a i s = Ret (e AND NOT 0xFFF) s"
proof -
  have "a \<in> tables s" using tree_in [OF _ assms(2,3)] assms(1) by (simp add: pt_inv_def)
  then have "get_entry a i s = e" using assms(3-5) by (simp add: get_entry_def entries_of_def lk_def)
  then show ?thesis using assms(6) by (simp add: next_table_def present_def)
qed

text \<open>
  C40. Mapping a 4 KiB page under an existing 2 MiB page writes the new entry into the mapped frame instead of
  a page table: the bits of the large page's entry are taken as the address of a table. If that word lies outside
  the pool, no translation changes, so the requested page stays unmapped while eight bytes of memory are lost.
\<close>

theorem map_page_4kb_under_large_page:
  assumes "pt_inv r s" and "walk (entries_of s) r [page_idx 39 v, page_idx 30 v] = Some pd"
    and "lk (entries_of s) r [page_idx 39 v, page_idx 30 v] (page_idx 21 v) = Some e" and "present e" and "huge e"
    and "\<And>x. x \<in> region (entry_addr (e AND NOT 0xFFF) (page_idx 12 v)) 8 \<Longrightarrow> x \<notin> region (pool_base s) 131072"
  shows "returns (map_page_4kb r v phys flags s) (\<lambda>_ s'.
    s' = s\<lparr>mem := store64 (mem s) (entry_addr (e AND NOT 0xFFF) (page_idx 12 v)) ((phys AND NOT 0xFFF) OR flags OR PAGE_PRESENT)\<rparr>
    \<and> (\<forall>w. translate (mem s') r w = translate (mem s) r w))"
proof -
  let ?i4 = "page_idx 39 v" and ?i3 = "page_idx 30 v" and ?E = "entries_of s"
  let ?s = "set_entry (e AND NOT 0xFFF) (page_idx 12 v) ((phys AND NOT 0xFFF) OR flags OR PAGE_PRESENT) s"
  have ok: "pool_ok s" using assms(1) by (simp add: pt_inv_def)
  have t4: "is_table (?E r ?i4)" and t3: "is_table (?E (?E r ?i4 AND NOT 0xFFF) ?i3)"
    and pd: "pd = ?E (?E r ?i4 AND NOT 0xFFF) ?i3 AND NOT 0xFFF"
    using assms(2) by (auto split: if_splits)
  have n4: "next_table r ?i4 s = Ret (?E r ?i4 AND NOT 0xFFF) s"
    by (rule next_table_present [OF assms(1), of "[]"]) (use t4 in \<open>simp_all add: path_def page_idx_512 lk_def is_table_iff\<close>)
  have n3: "next_table (?E r ?i4 AND NOT 0xFFF) ?i3 s = Ret pd s"
    unfolding pd by (rule next_table_present [OF assms(1) path_idx(1) [of v]]) (use t4 t3 in \<open>simp_all add: page_idx_512 lk_def is_table_iff\<close>)
  have n2: "next_table pd (page_idx 21 v) s = Ret (e AND NOT 0xFFF) s"
    by (rule next_table_present [OF assms(1) path_idx(2) assms(2) page_idx_512 assms(3,4)])
  have run: "map_page_4kb r v phys flags s = Ret () ?s"
    unfolding map_page_4kb_def Let_def n4 andthen_simps n3 n2 by (rule refl)
  have out: "x \<in> region (pool_base s) 131072 \<Longrightarrow> mem ?s x = mem s x" for x
    using assms(6) by (auto simp: set_entry_def intro: store64_outside)
  have T: "tables ?s = tables s" by (simp add: tables_def set_entry_def)
  have E: "entries_of ?s t i = ?E t i" for t i
  proof (cases "t \<in> tables s \<and> i < 512")
    case True
    then have b: "unat (entry_addr t i) = unat t + 8 * unat i" "unat i < 512"
      using entry_addr_nat [OF _ ok] by (auto simp: word_less_nat_alt)
    note tb = table_bounds [OF _ ok, of t]
    have "mem ?s (entry_addr t i + of_nat k) = mem s (entry_addr t i + of_nat k)" if "k < 8" for k
      by (rule out, rule in_pool [OF ok _ _ region_elem [OF that]]) (use True b tb ok in \<open>auto simp: pool_ok_def\<close>)
    then have "read_bytes (mem ?s) (entry_addr t i) 8 = read_bytes (mem s) (entry_addr t i) 8" by (simp add: read_bytes_def)
    then show ?thesis by (simp only: entries_of_def load64_def load_def T)
  next
    case False
    then show ?thesis by (simp only: entries_of_def T if_False)
  qed
  then have Eq: "entries_of ?s = ?E" by (intro ext)
  then have inv: "pt_inv r ?s" using assms(1) by (simp add: pt_inv_def tables_def pool_ok_def set_entry_def)
  show ?thesis unfolding run
    using translate_trans [OF inv] translate_trans [OF assms(1)] Eq by (simp add: set_entry_def)
qed

theorem map_page_4kb_under_large_page_witness:
  "\<exists>s. map_page_2mb 0x200000 0x400000 0x400000 PAGE_WRITABLE demo_pt = Ret () s \<and>
    returns (map_page_4kb 0x200000 0x403000 0xFEE00000 PAGE_WRITABLE s) (\<lambda>_ s'.
      load64 (mem s') 0x400018 = 0xFEE00003 \<and> translate (mem s') 0x200000 0x403000 = translate (mem s) 0x200000 0x403000)"
proof -
  let ?v = "0x403000 :: u64" and ?e = "pde_2m 0x400000 PAGE_WRITABLE"
  have ix: "page_idx 39 ?v = page_idx 39 0x400000" "page_idx 30 ?v = page_idx 30 0x400000" "page_idx 21 ?v = page_idx 21 0x400000"
    by (simp_all add: page_idx_def)
  have fr: "entry_addr (?e AND NOT 0xFFF) (page_idx 12 ?v) = 0x400018"
    by (simp add: entry_addr_def pde_2m_def page_idx_def PAGE_WRITABLE_def PAGE_PRESENT_def PAGE_HUGE_def)
  have "can_reach demo_pt 0x200000 [page_idx 39 0x400000, page_idx 30 0x400000]"
    using demo_pt_inv(5) by (intro can_reach_room) (simp add: numeral_2_eq_2)
  from map_page_2mb_ok [OF demo_pt_inv(1,3) this, of "0x400000" PAGE_WRITABLE] obtain s pd
    where s: "map_page_2mb 0x200000 0x400000 0x400000 PAGE_WRITABLE demo_pt = Ret () s" "pt_inv 0x200000 s" "pool_only demo_pt s"
      "walk (entries_of s) 0x200000 [page_idx 39 0x400000, page_idx 30 0x400000] = Some pd"
      "lk (entries_of s) 0x200000 [page_idx 39 0x400000, page_idx 30 0x400000] (page_idx 21 0x400000) = Some ?e"
    unfolding returns_conv not_None_eq by (elim exE conjE) (metis (full_types) old.unit.exhaust)
  have pb: "pool_base s = 0x200000"
    using s(3) unfolding pool_only_def
    by (metis demo_pt_sel(3) paging_st.select_convs(2) paging_st.surjective paging_st.update_convs(3) hw.update_convs(1))
  have "separate 0x400018 8 0x200000 131072" by (simp add: separate_def)
  then have out: "x \<notin> region (pool_base s) 131072" if "x \<in> region (entry_addr (?e AND NOT 0xFFF) (page_idx 12 ?v)) 8" for x
    using that separate_disjoint unfolding fr pb by blast
  have "returns (map_page_4kb 0x200000 ?v 0xFEE00000 PAGE_WRITABLE s) (\<lambda>_ s'.
    s' = s\<lparr>mem := store64 (mem s) (entry_addr (?e AND NOT 0xFFF) (page_idx 12 ?v)) ((0xFEE00000 AND NOT 0xFFF) OR PAGE_WRITABLE OR PAGE_PRESENT)\<rparr>
    \<and> (\<forall>w. translate (mem s') 0x200000 w = translate (mem s) 0x200000 w))"
    by (rule map_page_4kb_under_large_page [OF s(2), where v = ?v, unfolded ix, OF s(4,5) present_pte(2,3) out])
  then show ?thesis
    unfolding fr using s(1)
    by (auto simp: PAGE_WRITABLE_def PAGE_PRESENT_def intro!: exI [of _ s] elim!: returns_weaken)
qed

text \<open>
  When the 32 tables of the pool are used up and the address has no page-directory-pointer table, both
  mapping functions stop the kernel with the message of \<open>alloc_page_table\<close> and leave memory untouched.
\<close>

theorem pool_exhausted_panics:
  fixes s :: "'z paging_st_scheme"
  assumes "uart_live s" and "pool_offset s = sizeof_pool" and "get_entry r (page_idx 39 v) s AND PAGE_PRESENT = 0"
  shows "\<exists>t. map_page_4kb r v phys flags s = Panic t \<and> map_page_2mb r v phys flags s = Panic t \<and> mem t = mem s \<and>
    events t = events s @ map (\<lambda>c. OutB COM1 (of_char c))
      (''KERNEL PANIC:'' @ newline @ ''Page table pool exhausted'' @ newline) @ [Halted]"
proof -
  have f: "ref_format (mem s) ''Page table pool exhausted'' [] = Some ''Page table pool exhausted''"
    by (rule ref_format_plain) simp
  obtain n where n: "(kpanic ''Page table pool exhausted'' [] s :: (u64, 'z paging_st_scheme) outcome) =
    Panic (s\<lparr>now := n, rflags := rflags s AND NOT (push_bit 9 1),
    events := events s @ map (\<lambda>c. OutB COM1 (of_char c)) (''KERNEL PANIC:'' @ newline @ ''Page table pool exhausted'' @ newline) @ [Halted]\<rparr>)"
    by (rule kpanic_result [OF assms(1) f])
  have "alloc_page_table s = kpanic ''Page table pool exhausted'' [] s"
    using assms(2) by (simp add: alloc_page_table_def sizeof_pool_def sizeof_page_table_def)
  then show ?thesis
    using assms(3) n by (simp add: map_page_4kb_def map_page_2mb_def Let_def next_table_def)
qed

end
