(* ===== verification/Lapic.thy ===== *)
theory Lapic
  imports Acpi Paging_Spec
begin

text \<open>
  The local interrupt controller and the event timer, \<^verbatim>\<open>drivers/lapic.c\<close> and \<^verbatim>\<open>drivers/hpet.c\<close>: device registers behind
  addresses that the ACPI tables give. Reads follow the device's values over time, writes are events in program
  order; the theory shows in which order they happen and when the waiting loops end.
\<close>

section \<open>The local interrupt controller\<close>

text \<open>
  The last three fields are the addresses that the linker gives the tables of the processor's segments and interrupts.
\<close>

record dev_st = acpi_st +
  lapic_base :: u64
  hpet_base :: u64
  hpet_period :: u64
  hpet_freq :: u64
  idt_base :: u64
  gdt_base :: u64
  tss_base :: u64

definition LAPIC_ID :: u32 where "LAPIC_ID = 0x020"
definition LAPIC_VERSION :: u32 where "LAPIC_VERSION = 0x030"
definition LAPIC_TPR :: u32 where "LAPIC_TPR = 0x080"
definition LAPIC_EOI :: u32 where "LAPIC_EOI = 0x0B0"
definition LAPIC_SPURIOUS :: u32 where "LAPIC_SPURIOUS = 0x0F0"
definition LAPIC_ICR_LOW :: u32 where "LAPIC_ICR_LOW = 0x300"
definition LAPIC_ICR_HIGH :: u32 where "LAPIC_ICR_HIGH = 0x310"
definition LAPIC_TIMER :: u32 where "LAPIC_TIMER = 0x320"
definition LAPIC_TIMER_INIT :: u32 where "LAPIC_TIMER_INIT = 0x380"
definition LAPIC_TIMER_DIV :: u32 where "LAPIC_TIMER_DIV = 0x3E0"
definition LAPIC_ENABLE :: u32 where "LAPIC_ENABLE = push_bit 8 1"
definition LVT_VECTOR_MASK :: u32 where "LVT_VECTOR_MASK = 0xFF"
definition LVT_MASK :: u32 where "LVT_MASK = push_bit 16 1"
definition LVT_TIMER_PERIODIC :: u32 where "LVT_TIMER_PERIODIC = push_bit 17 1"

lemmas lapic_reg_defs = LAPIC_ID_def LAPIC_VERSION_def LAPIC_TPR_def LAPIC_EOI_def LAPIC_SPURIOUS_def LAPIC_ICR_LOW_def LAPIC_ICR_HIGH_def
  LAPIC_TIMER_def LAPIC_TIMER_INIT_def LAPIC_TIMER_DIV_def LAPIC_ENABLE_def LVT_VECTOR_MASK_def LVT_MASK_def LVT_TIMER_PERIODIC_def

definition lapic_read :: "u32 \<Rightarrow> 'z dev_st_scheme \<Rightarrow> u32 \<times> 'z dev_st_scheme" where
  "lapic_read reg s = mmio_read32 (lapic_base s + ucast reg) s"

definition lapic_write :: "u32 \<Rightarrow> u32 \<Rightarrow> 'z dev_st_scheme \<Rightarrow> 'z dev_st_scheme" where
  "lapic_write reg val s = mmio_write32 (lapic_base s + ucast reg) val s"

text \<open>The device reads in the arguments of the message are made from left to right.\<close>

definition lapic_init :: "'z dev_st_scheme \<Rightarrow> (unit, 'z dev_st_scheme) outcome" where
  "lapic_init s =
     andthen (madt_get_lapic_base s) (\<lambda>base s.
     andthen (paging_map_mmio_region base 0x1000 (s\<lparr>lapic_base := base\<rparr>)) (\<lambda>_ s.
     let msr = x86_rdmsr 0x1B s OR push_bit 11 1;
         s = x86_wrmsr 0x1B msr s;
         s = lapic_write LAPIC_SPURIOUS (LVT_VECTOR_MASK OR LAPIC_ENABLE) s;
         s = lapic_write LAPIC_TPR 0 s;
         s = lapic_write LAPIC_TIMER_DIV 0x3 s;
         s = lapic_write LAPIC_TIMER (0x20 OR LVT_TIMER_PERIODIC) s;
         s = lapic_write LAPIC_TIMER_INIT 0x100000 s;
         (timer, s) = lapic_read LAPIC_TIMER s;
         s = lapic_write LAPIC_TIMER timer s;
         (ident, s) = lapic_read LAPIC_ID s;
         (version, s) = lapic_read LAPIC_VERSION s
     in klog LOG_INFO ''LAPIC id=%d version=0x%x'' [VWord (ucast (drop_bit 24 ident)), VWord (ucast (version AND 0xFF))] s))"

definition lapic_send_ipi :: "u8 \<Rightarrow> u32 \<Rightarrow> 'z dev_st_scheme \<Rightarrow> (unit, 'z dev_st_scheme) outcome" where
  "lapic_send_ipi apic_id flags s =
     (let s = lapic_write LAPIC_ICR_HIGH (push_bit 24 (ucast apic_id)) s;
          s = lapic_write LAPIC_ICR_LOW flags s;
          (status, s) = lapic_read LAPIC_ICR_LOW s
      in andthen (loop (\<lambda>status s. status AND push_bit 12 1 \<noteq> 0)
           (\<lambda>_ s. let (status, s) = lapic_read LAPIC_ICR_LOW s in Ret status s) status s) (\<lambda>_ s. Ret () s))"

definition lapic_sleep_ms :: "u32 \<Rightarrow> 'z dev_st_scheme \<Rightarrow> 'z dev_st_scheme" where
  "lapic_sleep_ms ms s = for_word 0 ms (\<lambda>i s. for_word 0 (100000 :: u32) (\<lambda>j s. s) s) s"

definition lapic_eoi :: "'z dev_st_scheme \<Rightarrow> 'z dev_st_scheme" where
  "lapic_eoi s = mmio_write32 (lapic_base s + ucast LAPIC_EOI) 0 s"

definition lapic_id :: "'z dev_st_scheme \<Rightarrow> u32 \<times> 'z dev_st_scheme" where
  "lapic_id s = (let (v, s) = lapic_read LAPIC_ID s in (drop_bit 24 v, s))"

section \<open>The event timer\<close>

definition HPET_CAP :: u32 where "HPET_CAP = 0x000"
definition HPET_CONFIG :: u32 where "HPET_CONFIG = 0x010"
definition HPET_COUNTER :: u32 where "HPET_COUNTER = 0x0F0"
definition HPET_CFG_ENABLE :: u64 where "HPET_CFG_ENABLE = 1"

lemmas hpet_reg_defs = HPET_CAP_def HPET_CONFIG_def HPET_COUNTER_def HPET_CFG_ENABLE_def

definition hpet_read :: "u32 \<Rightarrow> 'z dev_st_scheme \<Rightarrow> u64 \<times> 'z dev_st_scheme" where
  "hpet_read reg s = mmio_read64 (hpet_base s + ucast reg) s"

definition hpet_write :: "u32 \<Rightarrow> u64 \<Rightarrow> 'z dev_st_scheme \<Rightarrow> 'z dev_st_scheme" where
  "hpet_write reg val s = mmio_write64 (hpet_base s + ucast reg) val s"

text \<open>\<open>hpet_t\<close>: the register block's address is at offset 44. A period of 0 divides by zero.\<close>

definition hpet_init :: "'z dev_st_scheme \<Rightarrow> (unit, 'z dev_st_scheme) outcome" where
  "hpet_init s =
     (if hpet_table s = 0 then kpanic ''HPET table not found'' [] s
      else let s = s\<lparr>hpet_base := load64 (mem s) (hpet_table s + 44)\<rparr> in
        andthen (paging_map_mmio_region (hpet_base s) 0x1000 s) (\<lambda>_ s.
        let (cap, s) = hpet_read HPET_CAP s; s = s\<lparr>hpet_period := drop_bit 32 cap\<rparr> in
        if hpet_period s = 0 then Undef
        else let s = s\<lparr>hpet_freq := 1000000000000000 div hpet_period s\<rparr> in
          andthen (klog LOG_INFO ''HPET base=0x%x period=%u fs freq=%u Hz''
            [VWord (hpet_base s), VWord (hpet_period s), VWord (hpet_freq s)] s) (\<lambda>_ s.
          Ret () (hpet_write HPET_CONFIG HPET_CFG_ENABLE (hpet_write HPET_COUNTER 0 (hpet_write HPET_CONFIG 0 s))))))"

definition hpet_ticks :: "'z dev_st_scheme \<Rightarrow> u64 \<times> 'z dev_st_scheme" where
  "hpet_ticks s = hpet_read HPET_COUNTER s"

definition hpet_sleep_us :: "u64 \<Rightarrow> 'z dev_st_scheme \<Rightarrow> (unit, 'z dev_st_scheme) outcome" where
  "hpet_sleep_us us s =
     (let ticks = (us * hpet_freq s) div 1000000; (start, s) = hpet_ticks s; target = start + ticks; (t, s) = hpet_ticks s
      in andthen (loop (\<lambda>t s. t < target) (\<lambda>_ s. let (t, s) = hpet_ticks s in Ret t s) t s) (\<lambda>_ s. Ret () s))"

definition hpet_sleep_ms :: "u64 \<Rightarrow> 'z dev_st_scheme \<Rightarrow> (unit, 'z dev_st_scheme) outcome" where
  "hpet_sleep_ms ms s = hpet_sleep_us (ms * 1000) s"

section \<open>Waiting on a device\<close>

text \<open>
  A loop that reads a register until a test fails ends at the first read that fails it, and never if there is none.
\<close>

lemma loop_poll:
  fixes s :: "'z hw_scheme"
  assumes read: "\<And>t. read (s\<lparr>now := t\<rparr>) = (f t, s\<lparr>now := Suc t\<rparr>)"
    and "\<not> test (f (t + k))" and "\<And>j. j < k \<Longrightarrow> test (f (t + j))"
  shows "loop (\<lambda>v s. test v) (\<lambda>_ s. let (v, s) = read s in Ret v s) (f t) (s\<lparr>now := Suc t\<rparr>) = Ret (f (t + k)) (s\<lparr>now := Suc (t + k)\<rparr>)"
  using assms(2,3)
proof (induction k arbitrary: t)
  case 0
  then show ?case by (subst loop_unfold) simp
next
  case (Suc k)
  have "test (f t)" using Suc.prems(2) [of 0] by simp
  moreover have "loop (\<lambda>v s. test v) (\<lambda>_ s. let (v, s) = read s in Ret v s) (f (Suc t)) (s\<lparr>now := Suc (Suc t)\<rparr>) =
      Ret (f (Suc t + k)) (s\<lparr>now := Suc (Suc t + k)\<rparr>)"
    using Suc.prems(1) Suc.prems(2) [of "Suc j" for j] by (intro Suc.IH) simp_all
  ultimately show ?case by (subst loop_unfold) (simp add: read)
qed

lemma loop_poll_hangs:
  fixes s :: "'z hw_scheme"
  assumes read: "\<And>t. read (s\<lparr>now := t\<rparr>) = (f t, s\<lparr>now := Suc t\<rparr>)" and "\<And>j. t \<le> j \<Longrightarrow> test (f j)"
  shows "loop (\<lambda>v s. test v) (\<lambda>_ s. let (v, s) = read s in Ret v s) (f t) (s\<lparr>now := Suc t\<rparr>) = Hang"
proof (rule loop_hangs [where I = "\<lambda>v u. \<exists>j\<ge>t. v = f j \<and> u = s\<lparr>now := Suc j\<rparr>"])
  fix v u assume "\<exists>j\<ge>t. v = f j \<and> u = s\<lparr>now := Suc j\<rparr>"
  then obtain j where j: "t \<le> j" "v = f j" "u = s\<lparr>now := Suc j\<rparr>" by blast
  have "t \<le> Suc j" using j(1) by simp
  then show "test v \<and> returns (let (v, u) = read u in Ret v u) (\<lambda>v u. \<exists>j\<ge>t. v = f j \<and> u = s\<lparr>now := Suc j\<rparr>)"
    using assms(2) [OF j(1)] j(2,3) by (auto simp: read)
qed blast

lemma first_time:
  fixes P :: "nat \<Rightarrow> bool"
  assumes "P n" and "t \<le> n"
  obtains k where "P (t + k)" and "\<And>j. j < k \<Longrightarrow> \<not> P (t + j)"
proof -
  let ?k = "LEAST k. P (t + k)"
  have "P (t + (n - t))" using assms by simp
  then have "P (t + ?k)" by (rule LeastI)
  moreover have "\<not> P (t + j)" if "j < ?k" for j using not_less_Least [OF that] .
  ultimately show thesis by (rule that)
qed

lemma now_id: "s\<lparr>now := now s\<rparr> = (s :: 'z hw_scheme)"
  by simp

lemma lapic_send_ipi_result:
  "(\<exists>n\<ge>now s. mmio_in s (lapic_base s + 0x300) n AND 0x1000 = 0 \<and> (\<forall>j. now s \<le> j \<and> j < n \<longrightarrow> mmio_in s (lapic_base s + 0x300) j AND 0x1000 \<noteq> 0) \<and>
      lapic_send_ipi apic_id flags s = Ret () (s\<lparr>now := Suc n, events := events s @
        [Mmio32 (lapic_base s + 0x310) (push_bit 24 (ucast apic_id)), Mmio32 (lapic_base s + 0x300) flags]\<rparr>)) \<or>
   (\<forall>n\<ge>now s. mmio_in s (lapic_base s + 0x300) n AND 0x1000 \<noteq> 0) \<and> lapic_send_ipi apic_id flags s = Hang"
proof -
  let ?e = "events s @ [Mmio32 (lapic_base s + 0x310) (push_bit 24 (ucast apic_id)), Mmio32 (lapic_base s + 0x300) flags]"
  let ?s = "s\<lparr>events := ?e\<rparr>"
  define f where "f t = (ucast (mmio_in s (lapic_base s + 0x300) t) :: u32)" for t
  have bit12: "ucast w AND (push_bit 12 1 :: u32) \<noteq> 0 \<longleftrightarrow> w AND 0x1000 \<noteq> 0" for w :: u64
    using bit_iff_and_push_bit_not_eq_0 [of "ucast w :: u32" 12] bit_iff_and_push_bit_not_eq_0 [of w 12] by (simp add: bit_simps)
  have rd: "lapic_read LAPIC_ICR_LOW (?s\<lparr>now := t\<rparr>) = (f t, ?s\<lparr>now := Suc t\<rparr>)" for t
    by (simp add: lapic_read_def mmio_read32_def f_def lapic_reg_defs)
  let ?L = "loop (\<lambda>status s. status AND push_bit 12 1 \<noteq> 0) (\<lambda>_ s. let (status, s) = lapic_read LAPIC_ICR_LOW s in Ret status s)"
  have start: "lapic_send_ipi apic_id flags s = andthen (?L (f (now s)) (?s\<lparr>now := Suc (now s)\<rparr>)) (\<lambda>_ s. Ret () s)"
    using rd [of "now s"] by (simp add: lapic_send_ipi_def lapic_write_def mmio_write32_def emit_def lapic_reg_defs Let_def)
  show ?thesis
  proof (cases "\<exists>n\<ge>now s. mmio_in s (lapic_base s + 0x300) n AND 0x1000 = 0")
    case True
    then obtain n where "now s \<le> n" "mmio_in s (lapic_base s + 0x300) n AND 0x1000 = 0" by blast
    then obtain k where k: "mmio_in s (lapic_base s + 0x300) (now s + k) AND 0x1000 = 0"
      "\<And>j. j < k \<Longrightarrow> \<not> mmio_in s (lapic_base s + 0x300) (now s + j) AND 0x1000 = 0"
      using first_time [of "\<lambda>n. mmio_in s (lapic_base s + 0x300) n AND 0x1000 = 0" n "now s"] by blast
    have "?L (f (now s)) (?s\<lparr>now := Suc (now s)\<rparr>) = Ret (f (now s + k)) (?s\<lparr>now := Suc (now s + k)\<rparr>)"
      by (rule loop_poll [where test = "\<lambda>v. v AND push_bit 12 1 \<noteq> 0"]) (use k rd bit12 in \<open>auto simp: f_def\<close>)
    then show ?thesis using k start
      by (intro disjI1 exI [of _ "now s + k"]) (auto simp: le_iff_add)
  next
    case False
    have "?L (f (now s)) (?s\<lparr>now := Suc (now s)\<rparr>) = Hang"
      by (rule loop_poll_hangs [where test = "\<lambda>v. v AND push_bit 12 1 \<noteq> 0"]) (use False rd bit12 in \<open>auto simp: f_def\<close>)
    then show ?thesis using False start by (intro disjI2) auto
  qed
qed

section \<open>Properties\<close>

definition demo_dev :: dev_st where
  "demo_dev = acpi_st.extend (demo_acpi\<lparr>mmio_in := (\<lambda>a t. if a = 0xFEE00300 then (if t < 5 then 0x1000 else 0) else of_nat (10 * t))\<rparr>)
     \<lparr>lapic_base = 0xFEE00000, hpet_base = 0xFED00000, hpet_period = 10000000, hpet_freq = 100000000,
      idt_base = 0x300000, gdt_base = 0x302000, tss_base = 0x303000\<rparr>"

lemma demo_dev_sel [simp]: "lapic_base demo_dev = 0xFEE00000" "hpet_base demo_dev = 0xFED00000" "hpet_freq demo_dev = 100000000" "now demo_dev = 0"
  "mmio_in demo_dev = (\<lambda>a t. if a = 0xFEE00300 then (if t < 5 then 0x1000 else 0) else of_nat (10 * t))" "idt_base demo_dev = 0x300000"
  by (simp_all add: demo_dev_def demo_acpi_def demo_heap_def demo_log_def demo_con_def demo_font_def demo_fb_def acpi_st.defs heap_st.defs
      log_st.defs con_st.defs font_st.defs fb_st.defs paging_st.defs hw.defs demo_hw_def)

text \<open>
  C36. An interprocessor interrupt is sent by writing the destination before the command, and the function returns as
  soon as the device reports delivery; when the device never does, it never returns.
\<close>

theorem lapic_send_ipi_delivers:
  "(\<exists>n\<ge>now s. mmio_in s (lapic_base s + 0x300) n AND 0x1000 = 0 \<and> (\<forall>j. now s \<le> j \<and> j < n \<longrightarrow> mmio_in s (lapic_base s + 0x300) j AND 0x1000 \<noteq> 0) \<and>
      lapic_send_ipi apic_id flags s = Ret () (s\<lparr>now := Suc n, events := events s @
        [Mmio32 (lapic_base s + 0x310) (push_bit 24 (ucast apic_id)), Mmio32 (lapic_base s + 0x300) flags]\<rparr>)) \<or>
   (\<forall>n\<ge>now s. mmio_in s (lapic_base s + 0x300) n AND 0x1000 \<noteq> 0) \<and> lapic_send_ipi apic_id flags s = Hang"
  by (rule lapic_send_ipi_result)

theorem lapic_send_ipi_delivers_witness:
  "lapic_send_ipi 1 0x4500 demo_dev = Ret () (demo_dev\<lparr>now := 6, events := events demo_dev @
     [Mmio32 0xFEE00310 0x1000000, Mmio32 0xFEE00300 0x4500]\<rparr>)"
proof -
  have five: "n = 5" if "(if n < 5 then 0x1000 else 0 :: u64) AND 0x1000 = 0" "\<forall>j. j < n \<longrightarrow> (if j < 5 then 0x1000 else 0 :: u64) AND 0x1000 \<noteq> 0" for n :: nat
    using that(1) spec [OF that(2), of 5] by (auto split: if_splits)
  have "(0 :: u64) AND 0x1000 = 0" by simp
  then have "\<not> (\<forall>n :: nat. (if n < 5 then 0x1000 else 0 :: u64) AND 0x1000 \<noteq> 0)" by (intro notI) (drule spec [of _ "5 :: nat"], simp)
  then show ?thesis
    using lapic_send_ipi_delivers [of demo_dev 1 "0x4500"] by (auto dest!: five [rotated])
qed

text \<open>
  The comparison in the loop is one of absolute values: a sleep whose target no later reading reaches never ends, as when a counter of
  32 bits wraps around before its target.
\<close>

lemma hpet_sleep_us_hangs:
  assumes "\<And>n. now s < n \<Longrightarrow> mmio_in s (hpet_base s + 0xF0) n < mmio_in s (hpet_base s + 0xF0) (now s) + (us * hpet_freq s) div 1000000"
  shows "hpet_sleep_us us s = Hang"
proof -
  let ?c = "mmio_in s (hpet_base s + 0xF0)" and ?target = "mmio_in s (hpet_base s + 0xF0) (now s) + (us * hpet_freq s) div 1000000"
  have rd: "hpet_ticks (s\<lparr>now := t\<rparr>) = (?c t, s\<lparr>now := Suc t\<rparr>)" for t
    by (simp add: hpet_ticks_def hpet_read_def mmio_read64_def hpet_reg_defs)
  have "loop (\<lambda>t s. t < ?target) (\<lambda>_ s. let (t, s) = hpet_ticks s in Ret t s) (?c (Suc (now s))) (s\<lparr>now := Suc (Suc (now s))\<rparr>) = Hang"
    by (rule loop_poll_hangs [where test = "\<lambda>v. v < ?target"]) (use assms rd in auto)
  then show ?thesis using rd [of "now s"] rd [of "Suc (now s)"] by (simp add: hpet_sleep_us_def Let_def)
qed

lemma hpet_32_bits_hangs:
  assumes "\<And>n. unat (mmio_in s (hpet_base s + 0xF0) n) < 2 ^ 32"
    and "2 ^ 32 \<le> unat (mmio_in s (hpet_base s + 0xF0) (now s) + (us * hpet_freq s) div 1000000)"
  shows "hpet_sleep_us us s = Hang"
proof (rule hpet_sleep_us_hangs)
  show "mmio_in s (hpet_base s + 0xF0) n < mmio_in s (hpet_base s + 0xF0) (now s) + (us * hpet_freq s) div 1000000" for n
    using less_le_trans [OF assms(1) assms(2)] by (simp only: word_less_nat_alt)
qed

text \<open>
  C37. Sleeping: when the counter runs without wrapping around and eventually gets far enough, \<open>hpet_sleep_us\<close> returns,
  at the first reading that is at least the requested number of ticks after the start; it changes nothing else.
\<close>

theorem hpet_sleep_us_waits:
  assumes "unat us * unat (hpet_freq s) < 2 ^ 64"
    and "unat (c (now s)) + unat us * unat (hpet_freq s) div 1000000 < 2 ^ 64"
    and "c = mmio_in s (hpet_base s + 0xF0)"
    and "now s < n" and "unat (c (now s)) + unat us * unat (hpet_freq s) div 1000000 \<le> unat (c n)"
  shows "\<exists>n>now s. hpet_sleep_us us s = Ret () (s\<lparr>now := Suc n\<rparr>) \<and>
    unat (c (now s)) + unat us * unat (hpet_freq s) div 1000000 \<le> unat (c n) \<and>
    (\<forall>j. now s < j \<and> j < n \<longrightarrow> unat (c j) < unat (c (now s)) + unat us * unat (hpet_freq s) div 1000000)"
proof -
  let ?ticks = "unat us * unat (hpet_freq s) div 1000000"
  define target where "target = c (now s) + (us * hpet_freq s) div 1000000"
  have "unat ((us * hpet_freq s) div 1000000) = ?ticks" using assms(1) by (simp add: unat_div unat_word_ariths)
  then have tg: "unat target = unat (c (now s)) + ?ticks" using assms(2) by (simp add: target_def unat_word_ariths)
  have rd: "hpet_ticks (s\<lparr>now := t\<rparr>) = (c t, s\<lparr>now := Suc t\<rparr>)" for t
    by (simp add: hpet_ticks_def hpet_read_def mmio_read64_def hpet_reg_defs assms(3))
  obtain k where k: "unat target \<le> unat (c (Suc (now s) + k))" "\<And>j. j < k \<Longrightarrow> \<not> unat target \<le> unat (c (Suc (now s) + j))"
    using first_time [of "\<lambda>n. unat target \<le> unat (c n)" n "Suc (now s)"] assms(4,5) tg by auto
  let ?L = "loop (\<lambda>t s. t < target) (\<lambda>_ s. let (t, s) = hpet_ticks s in Ret t s)"
  have "?L (c (Suc (now s))) (s\<lparr>now := Suc (Suc (now s))\<rparr>) = Ret (c (Suc (now s) + k)) (s\<lparr>now := Suc (Suc (now s) + k)\<rparr>)"
    by (rule loop_poll [where test = "\<lambda>v. v < target"]) (use k rd in \<open>auto simp: word_less_nat_alt not_le\<close>)
  moreover have "hpet_sleep_us us s = andthen (?L (c (Suc (now s))) (s\<lparr>now := Suc (Suc (now s))\<rparr>)) (\<lambda>_ s. Ret () s)"
    using rd [of "now s"] rd [of "Suc (now s)"] by (simp add: hpet_sleep_us_def Let_def target_def)
  moreover have "unat (c j) < unat target" if "now s < j" "j < Suc (now s) + k" for j
  proof -
    have "j - Suc (now s) < k" using that by linarith
    from k(2) [OF this] show ?thesis using that(1) by simp
  qed
  ultimately show ?thesis using k(1) tg by (intro exI [of _ "Suc (now s) + k"]) simp
qed

theorem hpet_sleep_us_waits_witness:
  "\<exists>n>0. hpet_sleep_us 1 demo_dev = Ret () (demo_dev\<lparr>now := Suc n\<rparr>) \<and> 100 \<le> unat (mmio_in demo_dev 0xFED000F0 n)"
  using hpet_sleep_us_waits [of 1 demo_dev "mmio_in demo_dev 0xFED000F0" 10] by (auto simp: unat_of_nat)

end
