(* ===== verification/Interrupts.thy ===== *)
theory Interrupts
  imports Lapic
begin

text \<open>
  Segments, interrupts and exceptions: \<^verbatim>\<open>drivers/gdt.c\<close>, \<^verbatim>\<open>drivers/idt.c\<close> (the timer's handler follows with the
  scheduler) and \<^verbatim>\<open>drivers/pic.c\<close>. Descriptors are split over several fields; the theory reads them back the way the
  processor does and shows that it finds what the code was asked to store.
\<close>

section \<open>Segments\<close>

text \<open>
  \<open>gdt_entry_t\<close>: \<open>limit_low\<close> at 0, \<open>base_low\<close> at 2, \<open>base_mid\<close> at 4, \<open>access\<close> at 5, \<open>granularity\<close> at 6, \<open>base_high\<close> at 7.
\<close>

definition gdt_set_entry :: "u64 \<Rightarrow> u32 \<Rightarrow> u32 \<Rightarrow> u8 \<Rightarrow> u8 \<Rightarrow> 'z dev_st_scheme \<Rightarrow> 'z dev_st_scheme" where
  "gdt_set_entry ent base limit access granularity s =
     (let m = mem s;
          m = store16 m ent (ucast (limit AND 0xFFFF));
          m = store16 m (ent + 2) (ucast (base AND 0xFFFF));
          m = store8 m (ent + 4) (ucast (drop_bit 16 base AND 0xFF));
          m = store8 m (ent + 5) access;
          m = store8 m (ent + 6) ((granularity AND 0xF0) OR ucast (drop_bit 16 limit AND 0x0F));
          m = store8 m (ent + 7) (ucast (drop_bit 24 base AND 0xFF))
      in s\<lparr>mem := m\<rparr>)"

text \<open>\<open>gdt_t\<close>: the null, code, data and task descriptors at 0, 8, 16 and 24, the upper half of the last at 32; 40 bytes.\<close>

definition gdt_set_tss :: "u64 \<Rightarrow> u32 \<Rightarrow> 'z dev_st_scheme \<Rightarrow> 'z dev_st_scheme" where
  "gdt_set_tss base limit s =
     (let s = gdt_set_entry (gdt_base s + 24) (ucast base) limit 0x89 0x00 s
      in s\<lparr>mem := store32 (store32 (mem s) (gdt_base s + 32) (ucast (drop_bit 32 base))) (gdt_base s + 36) 0\<rparr>)"

definition sizeof_tss :: u64 where "sizeof_tss = 104"
definition sizeof_gdt :: u64 where "sizeof_gdt = 40"

text \<open>Loading the segment registers with selector 0x10 has no counterpart in the model.\<close>

definition gdt_init :: "'z dev_st_scheme \<Rightarrow> 'z dev_st_scheme" where
  "gdt_init s =
     (let s = gdt_set_entry (gdt_base s) 0 0 0 0 s;
          s = gdt_set_entry (gdt_base s + 8) 0 0xFFFFF 0x9A 0xA0 s;
          s = gdt_set_entry (gdt_base s + 16) 0 0xFFFFF 0x92 0xC0 s;
          s = s\<lparr>mem := memset (tss_base s) 0 sizeof_tss (mem s)\<rparr>;
          s = s\<lparr>mem := store16 (mem s) (tss_base s + 102) (ucast sizeof_tss)\<rparr>;
          s = gdt_set_tss (tss_base s) (ucast (sizeof_tss - 1)) s;
          s = emit (LoadGdt (ucast (sizeof_gdt - 1)) (gdt_base s)) s
      in emit (LoadTr 0x18) s)"

section \<open>Interrupts\<close>

text \<open>
  \<open>idt_entry_t\<close>: \<open>offset_low\<close> at 0, \<open>selector\<close> at 2, \<open>ist\<close> at 4, \<open>flags\<close> at 5, \<open>offset_mid\<close> at 6, \<open>offset_high\<close> at 8, reserved
  at 12; 16 bytes.
\<close>

definition idt_set_entry :: "u8 \<Rightarrow> u64 \<Rightarrow> u8 \<Rightarrow> 'z dev_st_scheme \<Rightarrow> 'z dev_st_scheme" where
  "idt_set_entry vector handler flags s =
     (let addr = handler; ent = idt_base s + 16 * ucast vector; m = mem s;
          m = store16 m ent (ucast (addr AND 0xFFFF));
          m = store16 m (ent + 6) (ucast (drop_bit 16 addr AND 0xFFFF));
          m = store32 m (ent + 8) (ucast (drop_bit 32 addr AND 0xFFFFFFFF));
          m = store16 m (ent + 2) 0x08;
          m = store8 m (ent + 4) 0;
          m = store8 m (ent + 5) flags;
          m = store32 m (ent + 12) 0
      in s\<lparr>mem := m\<rparr>)"

definition sizeof_idt :: u64 where "sizeof_idt = 256 * 16"

text \<open>The addresses of the entry points in \<^verbatim>\<open>drivers/idt.nasm\<close> are arguments.\<close>

definition idt_init :: "(u32 \<Rightarrow> u64) \<Rightarrow> u64 \<Rightarrow> u64 \<Rightarrow> 'z dev_st_scheme \<Rightarrow> (unit, 'z dev_st_scheme) outcome" where
  "idt_init isr isr_timer isr_spurious s =
     (let s = for_word 0 32 (\<lambda>i s. idt_set_entry (ucast i) (isr i) 0x8E s) s;
          s = idt_set_entry 0x20 isr_timer 0x8E s;
          s = idt_set_entry 0xFF isr_spurious 0x8E s;
          limit = ucast (sizeof_idt - 1) :: u16;
          s = emit (LoadIdt limit (idt_base s)) s
      in klog LOG_INFO ''IDTR base: 0x%x limit: %u'' [VWord (idt_base s), VWord (ucast limit)] s)"

definition exception_names :: "string list" where
  "exception_names =
     [''Division By Zero'', ''Debug'', ''NMI'', ''Breakpoint'',
      ''Overflow'', ''Bound Range Exceeded'', ''Invalid Opcode'',
      ''Device Not Available'', ''Double Fault'', ''Coprocessor Segment Overrun'',
      ''Invalid TSS'', ''Segment Not Present'', ''Stack Fault'',
      ''General Protection Fault'', ''Page Fault'', ''Reserved'',
      ''x87 Floating Point'', ''Alignment Check'', ''Machine Check'',
      ''SIMD Floating Point'', ''Virtualization'', ''Control Protection'',
      ''Reserved'', ''Reserved'', ''Reserved'', ''Reserved'', ''Reserved'',
      ''Reserved'', ''Hypervisor Injection'', ''VMM Communication'', ''Security'']"

text \<open>\<open>rip\<close> is the word the handler reads from its stack frame. Reading past the end of the names is undefined.\<close>

definition exception_handler :: "u64 \<Rightarrow> u64 \<Rightarrow> u64 \<Rightarrow> 'z dev_st_scheme \<Rightarrow> (unit, 'z dev_st_scheme) outcome" where
  "exception_handler vector error_code rip s =
     (if unat vector < length exception_names then
        kpanic ''Exception %u: %s (error code: 0x%x) at rip=0x%x''
          [VWord vector, VLit (exception_names ! unat vector), VWord error_code, VWord rip] s
      else Undef)"

definition spurious_handler :: "'z dev_st_scheme \<Rightarrow> (unit, 'z dev_st_scheme) outcome" where
  "spurious_handler s = klog LOG_WARN ''Spurious interrupt received'' [] s"

section \<open>The legacy interrupt controllers\<close>

definition PIC1_DATA :: u16 where "PIC1_DATA = 0x21"
definition PIC2_DATA :: u16 where "PIC2_DATA = 0xA1"

definition pic_disable :: "'z dev_st_scheme \<Rightarrow> (unit, 'z dev_st_scheme) outcome" where
  "pic_disable s =
     (let s = x86_io_wait (x86_outb PIC1_DATA 0xFF s);
          s = x86_io_wait (x86_outb PIC2_DATA 0xFF s)
      in klog LOG_INFO ''PIC disabled'' [] s)"

section \<open>Reading gates back\<close>

text \<open>
  What the processor reads from a gate at \<open>e\<close>: handler, selector, stack table index and flags.
\<close>

definition gate_offset :: "memory \<Rightarrow> u64 \<Rightarrow> u64" where
  "gate_offset m e = ucast (load16 m e) OR push_bit 16 (ucast (load16 m (e + 6))) OR push_bit 32 (ucast (load32 m (e + 8)))"

definition gate :: "memory \<Rightarrow> u64 \<Rightarrow> u64 \<times> u16 \<times> u8 \<times> u8" where
  "gate m e = (gate_offset m e, load16 m (e + 2), load8 m (e + 4), load8 m (e + 5))"

lemma split_offset:
  fixes w :: u64
  shows "ucast (ucast (w AND 0xFFFF) :: u16) OR push_bit 16 (ucast (ucast (drop_bit 16 w AND 0xFFFF) :: u16)) OR
    push_bit 32 (ucast (ucast (drop_bit 32 w AND 0xFFFFFFFF) :: u32)) = w"
proof -
  have m: "(0xFFFF :: u64) = mask 16" "(0xFFFFFFFF :: u64) = mask 32" by (simp_all add: mask_eq_exp_minus_1)
  show ?thesis unfolding m
  proof (rule bit_word_eqI)
    fix n assume "n < LENGTH(64)"
    consider "n < 16" | "16 \<le> n" "n < 32" | "32 \<le> n" by linarith
    then show "bit (ucast (ucast (w AND mask 16) :: u16) OR push_bit 16 (ucast (ucast (drop_bit 16 w AND mask 16) :: u16)) OR
      push_bit 32 (ucast (ucast (drop_bit 32 w AND mask 32) :: u32)) :: u64) n = bit w n"
      using \<open>n < LENGTH(64)\<close> by cases (auto simp: bit_simps)
  qed
qed

lemma entry_offsets: "separate (e + of_nat i) n (e + of_nat j) k"
  if "i + n \<le> j \<or> j + k \<le> i" "j + k \<le> 2 ^ 64" "i + n \<le> 2 ^ 64" "0 < n" "0 < k" for e :: u64
  using that separate_offsets [of i n j k e] separate_offsets [of j k i n e] separate_sym by blast

lemmas access_defs = load16_def load32_def store16_def store32_def
lemmas access_separate = load_store_separate load_store8_separate load8_store_separate

lemma store8_separate: "a \<noteq> b \<Longrightarrow> load8 (store8 m b v) a = load8 m a"
  by (simp add: load8_def store8_def)

lemma idt_set_entry_gate:
  "gate (mem (idt_set_entry v h fl s)) (idt_base s + 16 * ucast v) = (h, 8, 0, fl)"
proof -
  let ?e = "idt_base s + 16 * ucast v"
  note o = entry_offsets [of 0 2 2 2 ?e] entry_offsets [of 0 2 4 1 ?e] entry_offsets [of 0 2 5 1 ?e] entry_offsets [of 0 2 6 2 ?e]
    entry_offsets [of 0 2 8 4 ?e] entry_offsets [of 0 2 12 4 ?e] entry_offsets [of 2 2 4 1 ?e] entry_offsets [of 2 2 5 1 ?e]
    entry_offsets [of 2 2 12 4 ?e] entry_offsets [of 6 2 2 2 ?e] entry_offsets [of 6 2 4 1 ?e] entry_offsets [of 6 2 5 1 ?e]
    entry_offsets [of 6 2 8 4 ?e] entry_offsets [of 6 2 12 4 ?e] entry_offsets [of 8 4 2 2 ?e] entry_offsets [of 8 4 4 1 ?e]
    entry_offsets [of 8 4 5 1 ?e] entry_offsets [of 8 4 12 4 ?e] entry_offsets [of 4 1 12 4 ?e] entry_offsets [of 5 1 12 4 ?e]
  have ne: "?e + 4 \<noteq> ?e + 5" by simp
  note c = o [simplified]
  have s16: "load16 (store16 m b w) a = load16 m a" if "separate a 2 b 2" for m a b w using that by (simp add: access_defs access_separate)
  have s16_32: "load16 (store32 m b w) a = load16 m a" if "separate a 2 b 4" for m a b w using that by (simp add: access_defs access_separate)
  have s16_8: "load16 (store8 m b w) a = load16 m a" if "separate a 2 b 1" for m a b w using that by (simp add: access_defs access_separate)
  have s32_16: "load32 (store16 m b w) a = load32 m a" if "separate a 4 b 2" for m a b w using that by (simp add: access_defs access_separate)
  have s32_32: "load32 (store32 m b w) a = load32 m a" if "separate a 4 b 4" for m a b w using that by (simp add: access_defs access_separate)
  have s32_8: "load32 (store8 m b w) a = load32 m a" if "separate a 4 b 1" for m a b w using that by (simp add: access_defs access_separate)
  have s8_32: "load8 (store32 m b w) a = load8 m a" if "separate a 1 b 4" for m a b w using that by (simp add: access_defs access_separate)
  show ?thesis
    unfolding gate_def gate_offset_def idt_set_entry_def Let_def
    by (simp add: s16 s16_32 s16_8 s32_16 s32_32 s32_8 s8_32 store8_separate c ne split_offset)
qed

lemma write_outside:
  "x \<notin> region a 2 \<Longrightarrow> store16 m a v x = m x" "x \<notin> region a 4 \<Longrightarrow> store32 m a w x = m x" "x \<notin> region a 1 \<Longrightarrow> store8 m a b x = m x"
  by (auto simp: store16_def store32_def store_def write_bytes_def region_iff store8_def)

lemma part_outside: "x \<notin> region a k \<Longrightarrow> i + n \<le> k \<Longrightarrow> k \<le> 2 ^ 64 \<Longrightarrow> x \<notin> region (a + of_nat i) n" for a :: u64
proof
  assume a: "x \<notin> region a k" "i + n \<le> k" "k \<le> 2 ^ 64" and "x \<in> region (a + of_nat i) n"
  then obtain j where "j < n" "x = a + of_nat i + of_nat j" by (auto simp: region_offset)
  then have "x = a + of_nat (i + j)" "i + j < k" using a(2) by simp_all
  then show False using a(1,3) region_elem [of "i + j" k a] by simp
qed

lemma idt_set_entry_outside:
  assumes "x \<notin> region (idt_base s + 16 * ucast v) 16"
  shows "mem (idt_set_entry v h fl s) x = mem s x"
proof -
  let ?e = "idt_base s + 16 * ucast v"
  note p = part_outside [OF assms]
  have "x \<notin> region ?e 2" "x \<notin> region (?e + 2) 2" "x \<notin> region (?e + 4) 1" "x \<notin> region (?e + 5) 1" "x \<notin> region (?e + 6) 2"
    "x \<notin> region (?e + 8) 4" "x \<notin> region (?e + 12) 4"
    using p [of 0 2] p [of 2 2] p [of 4 1] p [of 5 1] p [of 6 2] p [of 8 4] p [of 12 4] by simp_all
  then show ?thesis by (simp add: idt_set_entry_def Let_def write_outside)
qed

lemma gate_cong:
  assumes "\<And>x. x \<in> region e 16 \<Longrightarrow> m' x = m x"
  shows "gate m' e = gate m e"
  using load_part [of e 16 m' m, OF assms, of 0 2] load_part [of e 16 m' m, OF assms, of 2 2] load_part [of e 16 m' m, OF assms, of 6 2]
    load_part [of e 16 m' m, OF assms, of 8 4] assms [of "e + 4"] assms [of "e + 5"]
  by (simp add: gate_def gate_offset_def load16_def load32_def load8_def region_iff)

lemma idt_set_entry_other:
  assumes "v \<noteq> w"
  shows "gate (mem (idt_set_entry v h fl s)) (idt_base s + 16 * ucast w) = gate (mem s) (idt_base s + 16 * ucast w)"
proof (rule gate_cong)
  fix x assume x: "x \<in> region (idt_base s + 16 * ucast w) 16"
  have u: "16 * ucast c = (of_nat (16 * unat c) :: u64)" "unat c < 256" for c :: u8
    using unsigned_less [of c, where ?'a = nat] by (simp_all del: unsigned_less)
  have "unat v \<noteq> unat w" using assms by (simp add: word_unat_eq_iff)
  then have "separate (idt_base s + of_nat (16 * unat w)) 16 (idt_base s + of_nat (16 * unat v)) 16"
    using u(2) [of v] u(2) [of w] by (intro entry_offsets) auto
  then have "separate (idt_base s + 16 * ucast w) 16 (idt_base s + 16 * ucast v) 16" unfolding u(1) .
  then show "mem (idt_set_entry v h fl s) x = mem s x"
    using separate_disjoint x by (intro idt_set_entry_outside) blast
qed

text \<open>Filling in gates changes the bytes of the table, and nothing else.\<close>

definition idt_only :: "'z dev_st_scheme \<Rightarrow> 'z dev_st_scheme \<Rightarrow> bool" where
  "idt_only s t \<longleftrightarrow> t = s\<lparr>mem := mem t\<rparr> \<and> (\<forall>x. x \<notin> region (idt_base s) 4096 \<longrightarrow> mem t x = mem s x)"

lemma gate_in_table: "x \<in> region (b + 16 * ucast (v :: u8)) 16 \<Longrightarrow> x \<in> region b 4096" for b :: u64
proof (rule ccontr)
  assume x: "x \<in> region (b + 16 * ucast v) 16" "x \<notin> region b 4096"
  have "16 * ucast v = (of_nat (16 * unat v) :: u64)" "unat v < 256"
    using unsigned_less [of v, where ?'a = nat] by (simp_all del: unsigned_less)
  then show False using x part_outside [of x b 4096 "16 * unat v" 16] by simp
qed

lemma idt_only_sel:
  assumes "idt_only s t"
  shows "idt_base t = idt_base s" and "log_ok t = log_ok s" and "log_dirty t = log_dirty s" and "events t = events s"
proof -
  have e: "t = s\<lparr>mem := mem t\<rparr>" using assms by (simp add: idt_only_def)
  show "idt_base t = idt_base s" "log_ok t = log_ok s" "log_dirty t = log_dirty s" "events t = events s" by (subst e, simp)+
qed

lemma idt_only_refl: "idt_only s s"
  by (simp add: idt_only_def)

lemma idt_only_set_entry:
  assumes "idt_only s t"
  shows "idt_only s (idt_set_entry v h fl t)"
proof -
  have e: "t = s\<lparr>mem := mem t\<rparr>" using assms by (simp add: idt_only_def)
  have "idt_set_entry v h fl t = s\<lparr>mem := mem (idt_set_entry v h fl t)\<rparr>"
    unfolding idt_set_entry_def Let_def by (subst (1) e) simp
  moreover have "mem (idt_set_entry v h fl t) x = mem s x" if "x \<notin> region (idt_base s) 4096" for x
    using that assms gate_in_table idt_only_sel(1) [OF assms] by (subst idt_set_entry_outside) (auto simp: idt_only_def)
  ultimately show ?thesis unfolding idt_only_def by blast
qed

text \<open>The gates after \<open>idt_init\<close>, as a function of the vector.\<close>

definition idt_gate :: "(u32 \<Rightarrow> u64) \<Rightarrow> u64 \<Rightarrow> u64 \<Rightarrow> u8 \<Rightarrow> (u64 \<times> u16 \<times> u8 \<times> u8) option" where
  "idt_gate isr isr_timer isr_spurious v =
     (if v < 32 then Some (isr (ucast v), 8, 0, 0x8E)
      else if v = 0x20 then Some (isr_timer, 8, 0, 0x8E)
      else if v = 0xFF then Some (isr_spurious, 8, 0, 0x8E) else None)"

lemma exception_gates:
  fixes s :: "'z dev_st_scheme" and isr :: "u32 \<Rightarrow> u64" and v :: u8
  defines "t \<equiv> for_word 0 32 (\<lambda>i s. idt_set_entry (ucast i) (isr i) 0x8E s) s"
  shows "gate (mem t) (idt_base s + 16 * ucast v) = (if v < 32 then (isr (ucast v), 8, 0, 0x8E) else gate (mem s) (idt_base s + 16 * ucast v))"
    and "idt_only s t"
proof -
  define P where "P j u \<longleftrightarrow> idt_only s u \<and>
    (\<forall>v :: u8. gate (mem u) (idt_base s + 16 * ucast v) =
      (if unat v < j then (isr (ucast v), 8, 0, 0x8E) else gate (mem s) (idt_base s + 16 * ucast v)))" for j and u :: "'z dev_st_scheme"
  have "P (unat (32 :: u32)) t" unfolding t_def
  proof (rule for_word_rule)
    show "P (unat (0 :: u32)) s" by (simp add: P_def idt_only_refl)
    fix j and u :: "'z dev_st_scheme" assume P: "P j u" and "j < unat (32 :: u32)"
    then have j: "j < 32" and b: "idt_base u = idt_base s" by (simp_all add: P_def idt_only_sel)
    let ?i = "of_nat j :: u32" and ?c = "ucast (of_nat j :: u32) :: u8"
    have ui: "unat ?i = j" using j by (simp add: unat_of_nat)
    have "unat ?c = take_bit LENGTH(8) (unat ?i)" by (simp only: unsigned_ucast_eq unsigned_take_bit_eq)
    then have c: "unat ?c = j" using j unfolding ui by (simp add: take_bit_nat_eq_self)
    have "unat (ucast ?c :: u32) = take_bit LENGTH(32) (unat ?c)" by (rule unsigned_ucast_eq)
    then have i: "ucast ?c = ?i" using j unfolding c word_unat_eq_iff ui by (simp add: take_bit_nat_eq_self)
    have "gate (mem (idt_set_entry ?c (isr ?i) 0x8E u)) (idt_base s + 16 * ucast v) =
      (if unat v < Suc j then (isr (ucast v), 8, 0, 0x8E) else gate (mem s) (idt_base s + 16 * ucast v))" for v :: u8
    proof (cases "v = ?c")
      case True
      then show ?thesis using idt_set_entry_gate [of ?c "isr ?i" "0x8E" u] c i b by simp
    next
      case False
      then have "unat v \<noteq> j" using c by (metis word_unat_eq_iff)
      then show ?thesis using idt_set_entry_other [of ?c v "isr ?i" "0x8E" u] False P b by (auto simp: P_def less_Suc_eq)
    qed
    then show "P (Suc j) (idt_set_entry ?c (isr ?i) 0x8E u)" using P by (simp add: P_def idt_only_set_entry)
  qed simp
  then show "gate (mem t) (idt_base s + 16 * ucast v) = (if v < 32 then (isr (ucast v), 8, 0, 0x8E) else gate (mem s) (idt_base s + 16 * ucast v))"
    "idt_only s t" by (simp_all add: P_def word_less_nat_alt)
qed

lemma idt_filled:
  fixes s :: "'z dev_st_scheme" and isr :: "u32 \<Rightarrow> u64" and isr_timer isr_spurious :: u64 and v :: u8
  defines "t \<equiv> idt_set_entry 0xFF isr_spurious 0x8E (idt_set_entry 0x20 isr_timer 0x8E
    (for_word 0 32 (\<lambda>i s. idt_set_entry (ucast i) (isr i) 0x8E s) s))"
  shows "idt_only s t"
    and "gate (mem t) (idt_base s + 16 * ucast v) =
      (case idt_gate isr isr_timer isr_spurious v of Some g \<Rightarrow> g | None \<Rightarrow> gate (mem s) (idt_base s + 16 * ucast v))"
proof -
  define s1 where "s1 = for_word 0 32 (\<lambda>i s. idt_set_entry (ucast i) (isr i) 0x8E s) s"
  define s2 where "s2 = idt_set_entry 0x20 isr_timer 0x8E s1"
  note e = exception_gates [where isr = isr and s = s, folded s1_def]
  have o: "idt_only s s2" using e(2) by (simp add: s2_def idt_only_set_entry)
  have t: "t = idt_set_entry 0xFF isr_spurious 0x8E s2" by (simp add: t_def s2_def s1_def)
  show "idt_only s t" unfolding t using o by (rule idt_only_set_entry)
  have b: "idt_base s1 = idt_base s" "idt_base s2 = idt_base s" using e(2) o by (simp_all add: idt_only_sel)
  have 2: "gate (mem s2) (idt_base s + 16 * ucast v) =
      (if v = 0x20 then (isr_timer, 8, 0, 0x8E) else gate (mem s1) (idt_base s + 16 * ucast v))" for v :: u8
    using idt_set_entry_gate [of "0x20" isr_timer "0x8E" s1] idt_set_entry_other [of "0x20" v isr_timer "0x8E" s1] by (simp add: s2_def b)
  have 3: "gate (mem t) (idt_base s + 16 * ucast v) =
      (if v = 0xFF then (isr_spurious, 8, 0, 0x8E) else gate (mem s2) (idt_base s + 16 * ucast v))" for v :: u8
    using idt_set_entry_gate [of "0xFF" isr_spurious "0x8E" s2] idt_set_entry_other [of "0xFF" v isr_spurious "0x8E" s2] by (simp add: t b)
  show "gate (mem t) (idt_base s + 16 * ucast v) =
      (case idt_gate isr isr_timer isr_spurious v of Some g \<Rightarrow> g | None \<Rightarrow> gate (mem s) (idt_base s + 16 * ucast v))"
    unfolding 3 2 e(1) by (simp add: idt_gate_def)
qed

lemma interrupt_formats:
  "plain_format ''IDTR base: 0x%x limit: %u'' [VWord a, VWord b]"
  "plain_format ''PIC disabled'' []" "plain_format ''Spurious interrupt received'' []"
  by (simp_all add: plain_format_def format_simps)

lemma log_events [simp]: "log_ok (s\<lparr>events := es\<rparr>) = log_ok s" "log_dirty (s\<lparr>events := es\<rparr>) = log_dirty s"
  by (simp_all add: log_ok_defs)

lemma idt_init_ok:
  assumes "log_ok s" and "region (idt_base s) 4096 \<inter> log_dirty s = {}"
  shows "\<exists>t out. idt_init isr isr_timer isr_spurious s = Ret () t \<and> log_ok t \<and>
    (\<forall>v. gate (mem t) (idt_base s + 16 * ucast v) =
       (case idt_gate isr isr_timer isr_spurious v of Some g \<Rightarrow> g | None \<Rightarrow> gate (mem s) (idt_base s + 16 * ucast v))) \<and>
    events t = events s @ LoadIdt 4095 (idt_base s) # map (\<lambda>c. OutB COM1 (of_char c)) out \<and>
    log_frame s t \<and> (\<forall>x. x \<notin> region (idt_base s) 4096 \<longrightarrow> x \<notin> log_dirty s \<longrightarrow> mem t x = mem s x)"
proof -
  define s2 where "s2 = idt_set_entry 0xFF isr_spurious 0x8E (idt_set_entry 0x20 isr_timer 0x8E
    (for_word 0 32 (\<lambda>i s. idt_set_entry (ucast i) (isr i) 0x8E s) s))"
  note F = idt_filled [where isr = isr and isr_timer = isr_timer and isr_spurious = isr_spurious and s = s, folded s2_def]
  define s3 where "s3 = emit (LoadIdt 4095 (idt_base s)) s2"
  have ok: "log_ok s3" "log_dirty s3 = log_dirty s" "mem s3 = mem s2" "events s3 = events s @ [LoadIdt 4095 (idt_base s)]"
    using assms(1) idt_only_sel [OF F(1)] by (simp_all add: s3_def emit_def)
  have e2: "s2 = s\<lparr>mem := mem s2\<rparr>" using F(1) by (simp add: idt_only_def)
  have "log_frame s s2" using mem_frame_upd [of s "mem s2"] e2 by simp
  moreover have "log_frame s2 s3" by (simp add: log_frame_def s3_def emit_def)
  ultimately have fr: "log_frame s s3" by (rule log_frame_trans)
  obtain t str where t: "klog LOG_INFO ''IDTR base: 0x%x limit: %u'' [VWord (idt_base s), VWord 4095] s3 = Ret () t"
    "logged str s3 t" "log_ok t"
    by (rule klog_textE [OF ok(1) interrupt_formats(1)])
  have out: "mem t x = mem s2 x" if "x \<notin> log_dirty s" for x using logged_mem [OF t(2)] ok(2,3) that by simp
  have "idt_init isr isr_timer isr_spurious s = Ret () t"
    using t(1) idt_only_sel(1) [OF F(1)] by (simp add: idt_init_def Let_def s2_def [symmetric] s3_def sizeof_idt_def emit_def)
  moreover have "gate (mem t) (idt_base s + 16 * ucast v) = gate (mem s2) (idt_base s + 16 * ucast v)" for v :: u8
    by (rule gate_cong) (use out gate_in_table assms(2) in blast)
  moreover have "mem t x = mem s x" if "x \<notin> region (idt_base s) 4096" "x \<notin> log_dirty s" for x
    using out that F(1) by (simp add: idt_only_def)
  moreover have "log_frame s t" using log_frame_trans [OF fr logged_frame [OF t(2)]] .
  ultimately show ?thesis using t(3) F(2) logged_events [OF t(2)] ok(4) by (intro exI [of _ t]) auto
qed

section \<open>Descriptors read back\<close>

text \<open>Base and limit of a segment descriptor at \<open>e\<close>, as the processor puts them together.\<close>

definition desc_base :: "memory \<Rightarrow> u64 \<Rightarrow> u32" where
  "desc_base m e = ucast (load16 m (e + 2)) OR push_bit 16 (ucast (load8 m (e + 4))) OR push_bit 24 (ucast (load8 m (e + 7)))"

definition desc_limit :: "memory \<Rightarrow> u64 \<Rightarrow> u32" where
  "desc_limit m e = ucast (load16 m e) OR push_bit 16 (ucast (load8 m (e + 6) AND 0x0F))"

section \<open>Properties\<close>

text \<open>
  C34. After \<open>idt_init\<close> the processor finds, for every vector, the handler the code asked for: the 32 exception
  stubs, the timer's and the spurious interrupt's entry, all as present ring 0 interrupt gates of the code segment;
  the gates of other vectors are as before, and the table's address and limit are loaded.
\<close>

theorem idt_init_gates:
  assumes "log_ok s" and "region (idt_base s) 4096 \<inter> log_dirty s = {}"
  shows "\<exists>t out. idt_init isr isr_timer isr_spurious s = Ret () t \<and> log_ok t \<and>
    (\<forall>v. gate (mem t) (idt_base s + 16 * ucast v) =
       (case idt_gate isr isr_timer isr_spurious v of Some g \<Rightarrow> g | None \<Rightarrow> gate (mem s) (idt_base s + 16 * ucast v))) \<and>
    events t = events s @ LoadIdt 4095 (idt_base s) # map (\<lambda>c. OutB COM1 (of_char c)) out"
  using idt_init_ok [OF assms, of isr isr_timer isr_spurious] by blast

theorem idt_init_gates_witness:
  "\<exists>t. idt_init (\<lambda>i. 0x100000 + 16 * ucast i) 0x100200 0x100210 (demo_dev\<lparr>con_initialized := False\<rparr>) = Ret () t \<and>
     gate (mem t) 0x3000E0 = (0x1000E0, 8, 0, 0x8E) \<and> gate (mem t) 0x300200 = (0x100200, 8, 0, 0x8E)"
proof -
  let ?s = "demo_dev\<lparr>con_initialized := False\<rparr>"
  have d: "log_dirty ?s = {}" by (simp add: log_dirty_def console_ready_def)
  have ok: "log_ok ?s" using demo_heap_log(1)
    by (simp add: demo_dev_def acpi_st.defs demo_acpi_def heap_st.defs log_ok_def console_ready_def uart_live_def uart_ready_def)
  obtain t where t: "idt_init (\<lambda>i. 0x100000 + 16 * ucast i) 0x100200 0x100210 ?s = Ret () t"
    "\<forall>v. gate (mem t) (idt_base ?s + 16 * ucast v) =
       (case idt_gate (\<lambda>i. 0x100000 + 16 * ucast i) 0x100200 0x100210 v of Some g \<Rightarrow> g | None \<Rightarrow> gate (mem ?s) (idt_base ?s + 16 * ucast v))"
    using idt_init_gates [OF ok, of "\<lambda>i. 0x100000 + 16 * ucast i" "0x100200" "0x100210"] d by auto
  show ?thesis
    using t(1) spec [OF t(2), of 14] spec [OF t(2), of "0x20"] by (intro exI [of _ t]) (simp add: idt_gate_def)
qed

lemma ref_str_lit_some: "\<exists>out. ref_str m (VLit str) k = Some out"
proof -
  have "\<not> (str_char m (VLit str) (0 + length str) \<noteq> nul \<and> (k < 0 \<or> int (0 + length str) < k))" by (simp add: str_char_def)
  with poll_finds [of "\<lambda>len. \<not> (str_char m (VLit str) len \<noteq> nul \<and> (k < 0 \<or> int len < k))" 0 "length str"] show ?thesis unfolding ref_str_def str_len_def by auto
qed

lemma exception_format: "plain_format ''Exception %u: %s (error code: 0x%x) at rip=0x%x'' [VWord v, VLit str, VWord c, VWord r]"
  using ref_str_lit_some [of "\<lambda>_. 0" str "- 1"] by (auto simp: plain_format_def format_simps)

text \<open>
  C35. A processor exception stops the kernel with its number, name, error code and address for the first 31 vectors.
  The table of names has 31 entries for 32 installed handlers: exception 31 reads past its end.
\<close>

theorem exception_handler_panics:
  fixes s :: "'z dev_st_scheme"
  assumes "uart_live s" and "unat vector < 32"
  shows "if unat vector < 31
    then \<exists>t. exception_handler vector error_code rip s = Panic t \<and> events t = events s @ map (\<lambda>c. OutB COM1 (of_char c)) (''KERNEL PANIC:'' @ newline @
      text_of ''Exception %u: %s (error code: 0x%x) at rip=0x%x'' [VWord vector, VLit (exception_names ! unat vector), VWord error_code, VWord rip] @ newline)
      @ [Halted]
    else exception_handler vector error_code rip s = Undef"
proof (cases "unat vector < 31")
  case True
  let ?fmt = "''Exception %u: %s (error code: 0x%x) at rip=0x%x''"
    and ?args = "[VWord vector, VLit (exception_names ! unat vector), VWord error_code, VWord rip]"
  have n: "length exception_names = 31" by (simp add: exception_names_def)
  have f: "ref_format (mem s) ?fmt ?args = Some (text_of ?fmt ?args)" by (rule plain_format_text [OF exception_format])
  show ?thesis
    by (rule kpanic_result [OF assms(1) f]) (use True n in \<open>auto simp: exception_handler_def\<close>)
next
  case False
  then show ?thesis by (simp add: exception_handler_def exception_names_def)
qed

theorem exception_handler_panics_witness:
  "exception_handler 31 0 0 demo_dev = Undef \<and> (\<exists>t. exception_handler 14 2 0x100000 demo_dev = Panic t)"
proof -
  have "uart_live demo_dev" using demo_heap_log(1)
    by (simp add: demo_dev_def acpi_st.defs demo_acpi_def heap_st.defs log_ok_def uart_live_def uart_ready_def)
  from exception_handler_panics [OF this, of 31 0 0] exception_handler_panics [OF this, of 14 2 "0x100000"] show ?thesis by auto
qed

text \<open>
  A segment descriptor reads back as it was written: the base, the low 20 bits of the limit, the access byte, the
  flags; and nothing outside its eight bytes changes.
\<close>

theorem gdt_set_entry_roundtrip:
  "desc_base (mem (gdt_set_entry e base limit access gran s)) e = base \<and>
   desc_limit (mem (gdt_set_entry e base limit access gran s)) e = take_bit 20 limit \<and>
   load8 (mem (gdt_set_entry e base limit access gran s)) (e + 5) = access \<and>
   load8 (mem (gdt_set_entry e base limit access gran s)) (e + 6) AND 0xF0 = gran AND 0xF0 \<and>
   (\<forall>x. x \<notin> region e 8 \<longrightarrow> mem (gdt_set_entry e base limit access gran s) x = mem s x)"
proof -
  let ?m = "mem (gdt_set_entry e base limit access gran s)"
  note o = entry_offsets [of 0 2 2 2 e] entry_offsets [of 0 2 4 1 e] entry_offsets [of 0 2 5 1 e] entry_offsets [of 0 2 6 1 e]
    entry_offsets [of 0 2 7 1 e] entry_offsets [of 2 2 4 1 e] entry_offsets [of 2 2 5 1 e] entry_offsets [of 2 2 6 1 e] entry_offsets [of 2 2 7 1 e]
  note c = o [simplified]
  have s16: "load16 (store16 m b w) a = load16 m a" if "separate a 2 b 2" for m a b w using that by (simp add: access_defs access_separate)
  have s16_8: "load16 (store8 m b w) a = load16 m a" if "separate a 2 b 1" for m a b w using that by (simp add: access_defs access_separate)
  have f: "load16 ?m e = ucast (limit AND 0xFFFF)" "load16 ?m (e + 2) = ucast (base AND 0xFFFF)"
    "load8 ?m (e + 4) = ucast (drop_bit 16 base AND 0xFF)" "load8 ?m (e + 5) = access"
    "load8 ?m (e + 6) = (gran AND 0xF0) OR ucast (drop_bit 16 limit AND 0x0F)" "load8 ?m (e + 7) = ucast (drop_bit 24 base AND 0xFF)"
    unfolding gdt_set_entry_def Let_def by (simp_all add: s16 s16_8 store8_separate c)
  have m: "(0xFFFF :: u32) = mask 16" "(0xFF :: u32) = mask 8" "(0xF :: u32) = mask 4" "(0xF :: u8) = mask 4" "(0xF0 :: u8) = NOT (mask 4)"
    by (simp_all add: mask_eq_exp_minus_1)
  have "desc_base ?m e = base" unfolding desc_base_def f m
  proof (rule bit_word_eqI)
    fix n assume n: "n < LENGTH(32)"
    consider "n < 16" | "16 \<le> n" "n < 24" | "24 \<le> n" by linarith
    then show "bit (ucast (ucast (base AND mask 16) :: u16) OR push_bit 16 (ucast (ucast (drop_bit 16 base AND mask 8) :: u8)) OR
      push_bit 24 (ucast (ucast (drop_bit 24 base AND mask 8) :: u8)) :: u32) n = bit base n"
      using n by cases (auto simp: bit_simps)
  qed
  moreover have "desc_limit ?m e = take_bit 20 limit" unfolding desc_limit_def f m
  proof (rule bit_word_eqI)
    fix n assume n: "n < LENGTH(32)"
    consider "n < 16" | "16 \<le> n" "n < 20" | "20 \<le> n" by linarith
    then show "bit (ucast (ucast (limit AND mask 16) :: u16) OR push_bit 16 (ucast ((gran AND NOT (mask 4) OR ucast (drop_bit 16 limit AND mask 4)) AND mask 4)) :: u32) n =
      bit (take_bit 20 limit) n"
      using n by cases (auto simp: bit_simps)
  qed
  moreover have "load8 ?m (e + 6) AND 0xF0 = gran AND 0xF0" unfolding f m by (rule bit_word_eqI) (auto simp: bit_simps)
  moreover have "?m x = mem s x" if "x \<notin> region e 8" for x
  proof -
    note p = part_outside [OF that]
    show ?thesis using p [of 0 2] p [of 2 2] p [of 4 1] p [of 5 1] p [of 6 1] p [of 7 1]
      by (simp add: gdt_set_entry_def Let_def write_outside)
  qed
  ultimately show ?thesis using f(4) by blast
qed

end
