(* ===== verification/Scheduler.thy ===== *)
theory Scheduler
  imports Interrupts
begin

text \<open>
  The scheduler, \<^verbatim>\<open>drivers/scheduler.c\<close> with the switch of stacks in \<^verbatim>\<open>drivers/scheduler.nasm\<close>: a run queue of tasks linked
  through memory, and for each processor the task it runs and the one it idles in. The registers that a switch saves
  are part of the state, so that a switch is a state change like any other.
\<close>

section \<open>Tasks\<close>

text \<open>
  \<open>cpu_locals\<close>, \<open>task_exit_addr\<close>, \<open>task_trampoline_addr\<close> and \<open>idle_task_addr\<close> are addresses that the linker gives; \<open>rip\<close> is where the
  processor continues after a switch.
\<close>

record sched_st = dev_st +
  rq_head :: u64
  rq_tail :: u64
  rq_lock :: u32
  rq_count :: u32
  next_task_id :: u32
  cpu_locals :: u64
  task_exit_addr :: u64
  task_trampoline_addr :: u64
  idle_task_addr :: u64
  rsp :: u64
  rbp :: u64
  rbx :: u64
  r12 :: u64
  r13 :: u64
  r14 :: u64
  r15 :: u64
  rip :: u64

definition TASK_READY :: u32 where "TASK_READY = 0"
definition TASK_RUNNING :: u32 where "TASK_RUNNING = 1"
definition TASK_DEAD :: u32 where "TASK_DEAD = 3"
definition TASK_STACK_SIZE :: u64 where "TASK_STACK_SIZE = 0x4000"
definition MAX_CPUS :: u32 where "MAX_CPUS = 16"

text \<open>
  \<open>task_t\<close>: \<open>rsp\<close> at 0, \<open>cr3\<close> at 8, \<open>state\<close> at 16, \<open>id\<close> at 20, \<open>cpu_id\<close> at 24, \<open>next\<close> at 32, the stack from 40 on.
\<close>

definition sizeof_task :: u64 where "sizeof_task = 40 + TASK_STACK_SIZE"

definition task_state :: "memory \<Rightarrow> u64 \<Rightarrow> u32" where "task_state m t = load32 m (t + 16)"
definition task_id :: "memory \<Rightarrow> u64 \<Rightarrow> u32" where "task_id m t = load32 m (t + 20)"
definition task_cpu :: "memory \<Rightarrow> u64 \<Rightarrow> u8" where "task_cpu m t = load8 m (t + 24)"
definition task_next :: "memory \<Rightarrow> u64 \<Rightarrow> u64" where "task_next m t = load64 m (t + 32)"

definition set_rsp :: "u64 \<Rightarrow> u64 \<Rightarrow> memory \<Rightarrow> memory" where "set_rsp t v m = store64 m t v"
definition set_cr3 :: "u64 \<Rightarrow> u64 \<Rightarrow> memory \<Rightarrow> memory" where "set_cr3 t v m = store64 m (t + 8) v"
definition set_state :: "u64 \<Rightarrow> u32 \<Rightarrow> memory \<Rightarrow> memory" where "set_state t v m = store32 m (t + 16) v"
definition set_id :: "u64 \<Rightarrow> u32 \<Rightarrow> memory \<Rightarrow> memory" where "set_id t v m = store32 m (t + 20) v"
definition set_cpu :: "u64 \<Rightarrow> u8 \<Rightarrow> memory \<Rightarrow> memory" where "set_cpu t v m = store8 m (t + 24) v"
definition set_task_next :: "u64 \<Rightarrow> u64 \<Rightarrow> memory \<Rightarrow> memory" where "set_task_next t v m = store64 m (t + 32) v"

definition on_mem :: "(memory \<Rightarrow> memory) \<Rightarrow> 'z sched_st_scheme \<Rightarrow> 'z sched_st_scheme" where
  "on_mem f s = s\<lparr>mem := f (mem s)\<rparr>"

section \<open>The run queue\<close>

definition scheduler_enqueue :: "u64 \<Rightarrow> 'z sched_st_scheme \<Rightarrow> (unit, 'z sched_st_scheme) outcome" where
  "scheduler_enqueue task s =
     (let s = on_mem (set_task_next task 0 \<circ> set_state task TASK_READY) s in
      case spinlock_acquire (rq_lock s) of
        None \<Rightarrow> Hang
      | Some l \<Rightarrow>
          (let s = s\<lparr>rq_lock := l\<rparr>;
               s = (if rq_tail s = 0 then s\<lparr>rq_head := task, rq_tail := task\<rparr>
                    else (on_mem (set_task_next (rq_tail s) task) s)\<lparr>rq_tail := task\<rparr>);
               s = s\<lparr>rq_count := rq_count s + 1\<rparr>
           in Ret () (s\<lparr>rq_lock := spinlock_release (rq_lock s)\<rparr>)))"

definition scheduler_dequeue :: "'z sched_st_scheme \<Rightarrow> (u64, 'z sched_st_scheme) outcome" where
  "scheduler_dequeue s =
     (case spinlock_acquire (rq_lock s) of
        None \<Rightarrow> Hang
      | Some l \<Rightarrow>
          (let s = s\<lparr>rq_lock := l\<rparr>; task = rq_head s;
               s = (if task \<noteq> 0 then
                      let s = s\<lparr>rq_head := task_next (mem s) task\<rparr>;
                          s = (if rq_head s = 0 then s\<lparr>rq_tail := 0\<rparr> else s);
                          s = s\<lparr>rq_count := rq_count s - 1\<rparr>
                      in on_mem (set_task_next task 0) s
                    else s)
           in Ret task (s\<lparr>rq_lock := spinlock_release (rq_lock s)\<rparr>)))"

section \<open>Switching\<close>

definition push :: "u64 \<Rightarrow> 'z sched_st_scheme \<Rightarrow> 'z sched_st_scheme" where
  "push v s = s\<lparr>rsp := rsp s - 8, mem := store64 (mem s) (rsp s - 8) v\<rparr>"

definition pop :: "'z sched_st_scheme \<Rightarrow> u64 \<times> 'z sched_st_scheme" where
  "pop s = (load64 (mem s) (rsp s), s\<lparr>rsp := rsp s + 8\<rparr>)"

text \<open>The stack pointer is at the return address, as after a \<open>call\<close>.\<close>

definition scheduler_context_switch :: "u64 \<Rightarrow> u64 \<Rightarrow> 'z sched_st_scheme \<Rightarrow> 'z sched_st_scheme" where
  "scheduler_context_switch old new s =
     (let s = push (rbp s) s; s = push (rbx s) s; s = push (r12 s) s; s = push (r13 s) s; s = push (r14 s) s; s = push (r15 s) s;
          s = on_mem (set_rsp old (rsp s)) s;
          s = s\<lparr>rsp := load64 (mem s) new\<rparr>;
          (v, s) = pop s; s = s\<lparr>r15 := v\<rparr>;
          (v, s) = pop s; s = s\<lparr>r14 := v\<rparr>;
          (v, s) = pop s; s = s\<lparr>r13 := v\<rparr>;
          (v, s) = pop s; s = s\<lparr>r12 := v\<rparr>;
          (v, s) = pop s; s = s\<lparr>rbx := v\<rparr>;
          (v, s) = pop s; s = s\<lparr>rbp := v\<rparr>;
          (v, s) = pop s
      in s\<lparr>rip := v\<rparr>)"

text \<open>\<open>task_trampoline\<close> calls the function in R12 with the argument in R13.\<close>

definition task_trampoline :: "'z sched_st_scheme \<Rightarrow> u64 \<times> u64" where
  "task_trampoline s = (let entry = r12 s; arg = r13 s in (entry, arg))"

text \<open>\<open>idle_task\<close> waits for ever; only an interrupt takes the processor away from it.\<close>

definition idle_task :: "u64 \<Rightarrow> 'z sched_st_scheme \<Rightarrow> (unit, 'z sched_st_scheme) outcome" where
  "idle_task arg s = loop (\<lambda>_ _. True) (\<lambda>_ s. Ret () s) () s"

lemma idle_task_hangs: "idle_task arg s = Hang"
  unfolding idle_task_def by (rule loop_hangs [where I = "\<lambda>_ _. True"]) simp_all

text \<open>\<open>cpu_local_t\<close>: \<open>current\<close> at 0, \<open>idle\<close> at 8, 24 bytes; the array is indexed with the id that the controller reports.\<close>

definition cpu_local :: "'z sched_st_scheme \<Rightarrow> u64 \<times> 'z sched_st_scheme" where
  "cpu_local s = (let (ident, s) = lapic_id s in (cpu_locals s + 24 * ucast ident, s))"

definition cpu_current :: "memory \<Rightarrow> u64 \<Rightarrow> u64" where "cpu_current m cpu = load64 m cpu"
definition cpu_idle :: "memory \<Rightarrow> u64 \<Rightarrow> u64" where "cpu_idle m cpu = load64 m (cpu + 8)"
definition set_current :: "u64 \<Rightarrow> u64 \<Rightarrow> memory \<Rightarrow> memory" where "set_current cpu t m = store64 m cpu t"
definition set_idle :: "u64 \<Rightarrow> u64 \<Rightarrow> memory \<Rightarrow> memory" where "set_idle cpu t m = store64 m (cpu + 8) t"

text \<open>
  The part of \<open>scheduler_yield\<close> after the choice of the next task. \<open>ret\<close> is the return address of the call of the switch.
\<close>

definition switch_to :: "u64 \<Rightarrow> u64 \<Rightarrow> u64 \<Rightarrow> u64 \<Rightarrow> 'z sched_st_scheme \<Rightarrow> (unit, 'z sched_st_scheme) outcome" where
  "switch_to ret cpu old next_task s =
     andthen (if old \<noteq> 0 \<and> task_state (mem s) old = TASK_RUNNING then scheduler_enqueue old s else Ret () s) (\<lambda>_ s.
     let s = on_mem (set_state next_task TASK_RUNNING) s;
         (ident, s) = lapic_id s;
         s = on_mem (set_cpu next_task (ucast ident)) s;
         s = on_mem (set_current cpu next_task) s
     in Ret () (scheduler_context_switch (if old \<noteq> 0 then old else cpu_idle (mem s) cpu) next_task (push ret s)))"

definition scheduler_yield :: "u64 \<Rightarrow> 'z sched_st_scheme \<Rightarrow> (unit, 'z sched_st_scheme) outcome" where
  "scheduler_yield ret s =
     (let (cpu, s) = cpu_local s; old = cpu_current (mem s) cpu in
      andthen (scheduler_dequeue s) (\<lambda>next_task s.
      if next_task = 0 then
        if old \<noteq> 0 \<and> task_state (mem s) old = TASK_RUNNING then Ret () s
        else switch_to ret cpu old (cpu_idle (mem s) cpu) s
      else switch_to ret cpu old next_task s))"

definition scheduler_tick :: "u64 \<Rightarrow> 'z sched_st_scheme \<Rightarrow> (unit, 'z sched_st_scheme) outcome" where
  "scheduler_tick ret s = scheduler_yield ret s"

definition timer_handler :: "u64 \<Rightarrow> 'z sched_st_scheme \<Rightarrow> (unit, 'z sched_st_scheme) outcome" where
  "timer_handler ret s = scheduler_tick ret (lapic_eoi s)"

section \<open>Creating and ending tasks\<close>

text \<open>\<open>*--rsp = v\<close> on a local stack pointer.\<close>

definition push_at :: "u64 \<Rightarrow> u64 \<times> memory \<Rightarrow> u64 \<times> memory" where
  "push_at v = (\<lambda>(sp, m). (sp - 8, store64 m (sp - 8) v))"

definition initial_stack :: "u64 \<Rightarrow> u64 \<Rightarrow> u64 \<Rightarrow> u64 \<Rightarrow> u64 \<times> memory \<Rightarrow> u64 \<times> memory" where
  "initial_stack exit_addr trampoline entry arg =
     push_at 0 \<circ> push_at 0 \<circ> push_at entry \<circ> push_at arg \<circ> push_at 0 \<circ> push_at 0 \<circ> push_at trampoline \<circ> push_at exit_addr"

definition task_create :: "u64 \<Rightarrow> u64 \<Rightarrow> 'z sched_st_scheme \<Rightarrow> (u64, 'z sched_st_scheme) outcome" where
  "task_create entry arg s =
     andthen (kmalloc sizeof_task s) (\<lambda>task s.
     let s = on_mem (memset task 0 sizeof_task) s in
     andthen (klog LOG_INFO ''task at 0x%x rsp=0x%x'' [VWord task, VWord (load64 (mem s) task)] s) (\<lambda>_ s.
     let s = (on_mem (set_id task (next_task_id s)) s)\<lparr>next_task_id := next_task_id s + 1\<rparr>;
         s = on_mem (set_state task TASK_READY) s;
         s = on_mem (set_cpu task 0xFF) s;
         s = on_mem (set_cr3 task (x86_read_cr3 s)) s;
         (sp, m) = initial_stack (task_exit_addr s) (task_trampoline_addr s) entry arg (task + 40 + TASK_STACK_SIZE, mem s);
         s = s\<lparr>mem := set_rsp task sp m\<rparr>
     in andthen (klog LOG_INFO ''task %d rsp=0x%x trampoline=0x%x''
          [VWord (ucast (task_id (mem s) task)), VWord (load64 (mem s) task), VWord (task_trampoline_addr s)] s) (\<lambda>_ s.
        Ret task s)))"

definition task_exit :: "u64 \<Rightarrow> 'z sched_st_scheme \<Rightarrow> (unit, 'z sched_st_scheme) outcome" where
  "task_exit ret s =
     (let (cpu, s) = cpu_local s; (ident, s) = lapic_id s in
      andthen (klog LOG_INFO ''Task %d exited on cpu %d'' [VWord (ucast (task_id (mem s) (cpu_current (mem s) cpu))), VWord (ucast ident)] s) (\<lambda>_ s.
      scheduler_yield ret (on_mem (set_state (cpu_current (mem s) cpu) TASK_DEAD) s)))"

definition sizeof_cpu_locals :: u64 where "sizeof_cpu_locals = 16 * 24"

definition scheduler_init :: "'z sched_st_scheme \<Rightarrow> (unit, 'z sched_st_scheme) outcome" where
  "scheduler_init s =
     andthen (for_out 0 MAX_CPUS (\<lambda>i s.
       let s = on_mem (set_current (cpu_locals s + 24 * ucast i) 0) s in
       andthen (task_create (idle_task_addr s) 0 s) (\<lambda>t s.
       Ret () (on_mem (set_idle (cpu_locals s + 24 * ucast i) t) s)))
       (on_mem (memset (cpu_locals s) 0 sizeof_cpu_locals) s)) (\<lambda>_ s.
     andthen (klog LOG_INFO ''sizeof task_t: %u'' [VWord sizeof_task] s) (\<lambda>_ s.
     andthen (klog LOG_INFO ''tasks needed: %u, total: %u bytes'' [VWord 24, VWord (24 * sizeof_task)] s) (\<lambda>_ s.
     klog LOG_INFO ''Scheduler initialized'' [] s)))"

section \<open>The worker loop\<close>

text \<open>
  One round of the loop of \<open>cpu_enter_worker\<close>: \<open>True\<close> when the processor has switched to a task. What follows the switch in the
  source runs when a task switches back.
\<close>

definition worker_step :: "u64 \<Rightarrow> u64 \<Rightarrow> 'z sched_st_scheme \<Rightarrow> (bool, 'z sched_st_scheme) outcome" where
  "worker_step ret cpu s =
     andthen (scheduler_dequeue s) (\<lambda>task s.
     if task \<noteq> 0 then
       let (ident, s) = lapic_id s in
       andthen (klog LOG_INFO ''CPU %d picked up task %d'' [VWord (ucast ident), VWord (ucast (task_id (mem s) task))] s) (\<lambda>_ s.
       let s = on_mem (set_state task TASK_RUNNING) s;
           (ident, s) = lapic_id s;
           s = on_mem (set_cpu task (ucast ident)) s;
           s = on_mem (set_current cpu task) s
       in Ret True (scheduler_context_switch (cpu_idle (mem s) cpu) task (push ret s)))
     else Ret False s)"

text \<open>The worker up to its first switch: it never returns, and waits for ever on a queue that stays empty.\<close>

definition cpu_enter_worker :: "u64 \<Rightarrow> 'z sched_st_scheme \<Rightarrow> (unit, 'z sched_st_scheme) outcome" where
  "cpu_enter_worker ret s =
     (let (cpu, s) = cpu_local s; (ident, s) = lapic_id s in
      andthen (klog LOG_INFO ''CPU %d entering worker'' [VWord (ucast ident)] s) (\<lambda>_ s.
      let s = on_mem (set_rsp (cpu_idle (mem s) cpu) (rsp s)) s;
          s = on_mem (set_current cpu (cpu_idle (mem s) cpu)) s;
          (ident, s) = lapic_id s
      in andthen (klog LOG_INFO ''CPU %d starting loop'' [VWord (ucast ident)] s) (\<lambda>_ s.
         andthen (loop (\<lambda>switched s. \<not> switched) (\<lambda>_ s. worker_step ret cpu s) False s) (\<lambda>_ s. Ret () s))))"

end
