(* ===== verification/Smp.thy ===== *)
theory Smp
  imports Scheduler
begin

text \<open>
  Start of the other processors, \<^verbatim>\<open>drivers/smp.c\<close>: the boot processor copies and patches the trampoline, then starts each
  processor with an INIT and two start-up messages and waits until it reports.
\<close>

text \<open>
  \<open>aps_started\<close> is shared by all processors: what this one has added is \<open>aps_own\<close>, and \<open>aps_others t\<close> is what the others have added by
  time \<open>t\<close>. The addresses of the trampoline's symbols, of the stacks and of \<open>ap_main\<close> come from the linker.
\<close>

record trampoline =
  trampoline_start :: u64
  trampoline_end :: u64
  trampoline_pm :: u64
  trampoline_pm_jmp :: u64
  trampoline_gdt :: u64
  trampoline_gdt_ptr :: u64
  trampoline_gdt64 :: u64
  trampoline_gdt64_ptr :: u64
  trampoline_pml4 :: u64
  trampoline_stack :: u64
  trampoline_entry :: u64
  trampoline_load_addr :: u64

record smp_st = sched_st +
  aps_own :: u32
  aps_others :: "nat \<Rightarrow> u32"
  aps_expected :: u32
  ap_stacks :: u64
  ap_main_addr :: u64
  tramp :: trampoline

definition AP_STACK_SIZE :: u64 where "AP_STACK_SIZE = 0x4000"
definition MAX_APS :: nat where "MAX_APS = 16"

definition get_ap_stack :: "u8 \<Rightarrow> 'z smp_st_scheme \<Rightarrow> u64" where
  "get_ap_stack cpu_id s = ap_stacks s + ucast cpu_id * AP_STACK_SIZE + AP_STACK_SIZE"

definition aps_started :: "'z smp_st_scheme \<Rightarrow> u32 \<times> 'z smp_st_scheme" where
  "aps_started s = (aps_own s + aps_others s (now s), s\<lparr>now := Suc (now s)\<rparr>)"

text \<open>What another processor does. \<open>ret\<close> is the return address of the switch in the worker.\<close>

definition ap_main :: "u64 \<Rightarrow> 'z smp_st_scheme \<Rightarrow> (unit, 'z smp_st_scheme) outcome" where
  "ap_main ret s =
     andthen (lapic_init s) (\<lambda>_ s.
     let s = lapic_write LAPIC_TIMER LVT_MASK s;
         (ident, s) = lapic_id s
     in andthen (klog LOG_INFO ''AP %d online'' [VWord (ucast ident)] s) (\<lambda>_ s.
        let s = s\<lparr>aps_own := aps_own s + 1\<rparr>;
            (started, s) = aps_started s
        in andthen (loop (\<lambda>started s. started < aps_expected s) (\<lambda>_ s. let (started, s) = aps_started s in Ret started s) started s) (\<lambda>_ s.
           cpu_enter_worker ret s)))"

section \<open>The trampoline\<close>

text \<open>The address in the copy of a symbol of the trampoline.\<close>

definition tramp_at :: "trampoline \<Rightarrow> (trampoline \<Rightarrow> u64) \<Rightarrow> u64" where
  "tramp_at tr symb = trampoline_load_addr tr + (symb tr - trampoline_start tr)"

definition copy_trampoline :: "trampoline \<Rightarrow> memory \<Rightarrow> memory" where
  "copy_trampoline tr m =
     for_word 0 (trampoline_end tr - trampoline_start tr)
       (\<lambda>i m. store8 m (trampoline_load_addr tr + i) (load8 m (trampoline_start tr + i))) m"

definition patch_trampoline :: "trampoline \<Rightarrow> memory \<Rightarrow> memory" where
  "patch_trampoline tr m =
     (let gdt_phys = ucast (tramp_at tr trampoline_gdt) :: u32;
          gdt64_phys = ucast (tramp_at tr trampoline_gdt64) :: u32;
          m = store32 m (tramp_at tr trampoline_gdt_ptr + 2) gdt_phys;
          m = store32 m (tramp_at tr trampoline_gdt64_ptr + 2) gdt64_phys;
          pm_target = ucast (tramp_at tr trampoline_pm) :: u32;
          jmp_patch = tramp_at tr trampoline_pm_jmp;
          m = store8 m jmp_patch 0xEA;
          m = store8 m (jmp_patch + 1) (ucast (pm_target AND 0xFF));
          m = store8 m (jmp_patch + 2) (ucast (drop_bit 8 pm_target AND 0xFF));
          m = store8 m (jmp_patch + 3) 0x08
      in store8 m (jmp_patch + 4) 0x00)"

definition patch_ap :: "trampoline \<Rightarrow> u64 \<Rightarrow> u64 \<Rightarrow> u64 \<Rightarrow> memory \<Rightarrow> memory" where
  "patch_ap tr root stack entry m =
     (let m = store32 m (tramp_at tr trampoline_pml4) (ucast root);
          m = store64 m (tramp_at tr trampoline_stack) stack
      in store64 m (tramp_at tr trampoline_entry) entry)"

section \<open>Starting the processors\<close>

definition send_start :: "u8 \<Rightarrow> 'z smp_st_scheme \<Rightarrow> (unit, 'z smp_st_scheme) outcome" where
  "send_start apic_id s =
     andthen (lapic_send_ipi apic_id 0x00004500 s) (\<lambda>_ s.
     andthen (hpet_sleep_ms 10 s) (\<lambda>_ s.
     andthen (lapic_send_ipi apic_id 0x00004608 s) (\<lambda>_ s.
     andthen (hpet_sleep_ms 1 s) (\<lambda>_ s.
     andthen (lapic_send_ipi apic_id 0x00004608 s) (\<lambda>_ s.
     hpet_sleep_ms 1 s)))))"

text \<open>The loop that waits for one processor: the value last read, the rounds left, and whether it has left by \<open>break\<close>.\<close>

definition wait_step :: "u8 \<Rightarrow> u32 \<times> u64 \<times> bool \<Rightarrow> 'z smp_st_scheme \<Rightarrow> (u32 \<times> u64 \<times> bool, 'z smp_st_scheme) outcome" where
  "wait_step cpu = (\<lambda>(started, timeout, brk) s.
     andthen (hpet_sleep_ms 1 s) (\<lambda>_ s.
     let timeout = timeout - 1 in
     if timeout = 0 then andthen (klog LOG_WARN ''AP cpu=%d timed out'' [VWord (ucast cpu)] s) (\<lambda>_ s. Ret (started, timeout, True) s)
     else let (started, s) = aps_started s in Ret (started, timeout, False) s))"

definition wait_ap :: "u8 \<Rightarrow> u32 \<Rightarrow> 'z smp_st_scheme \<Rightarrow> (unit, 'z smp_st_scheme) outcome" where
  "wait_ap cpu expected s =
     (let (started, s) = aps_started s in
      andthen (loop (\<lambda>(started, timeout, brk) s. \<not> brk \<and> started < expected) (wait_step cpu) (started, 5000, False) s) (\<lambda>_ s. Ret () s))"

definition start_ap :: "u64 \<Rightarrow> u32 \<Rightarrow> u8 \<Rightarrow> 'z smp_st_scheme \<Rightarrow> (unit, 'z smp_st_scheme) outcome" where
  "start_ap root bsp_id cpu s =
     andthen (madt_get_lapic_id cpu s) (\<lambda>apic_id s.
     if ucast apic_id = bsp_id then Ret () s
     else let (started, s) = aps_started s; expected = started + 1 in
       andthen (klog LOG_INFO ''Starting AP cpu=%d apic_id=%d'' [VWord (ucast cpu), VWord (ucast apic_id)] s) (\<lambda>_ s.
       let s = s\<lparr>mem := patch_ap (tramp s) root (get_ap_stack cpu s) (ap_main_addr s) (mem s)\<rparr> in
       andthen (send_start apic_id s) (\<lambda>_ s. wait_ap cpu expected s)))"

definition smp_init :: "'z smp_st_scheme \<Rightarrow> (unit, 'z smp_st_scheme) outcome" where
  "smp_init s =
     (let s = s\<lparr>mem := patch_trampoline (tramp s) (copy_trampoline (tramp s) (mem s))\<rparr>;
          root = x86_read_cr3 s;
          (bsp_id, s) = lapic_id s;
          n = madt_get_cpu_count s;
          s = s\<lparr>aps_expected := n - 1\<rparr>
      in andthen (klog LOG_INFO ''BSP LAPIC id=%d starting %d APs'' [VWord (ucast bsp_id), VWord (ucast (n - 1))] s) (\<lambda>_ s.
         andthen (for_out 0 (ucast n) (start_ap root bsp_id) s) (\<lambda>_ s.
         let (started, s) = aps_started s in
         andthen (loop (\<lambda>started s. started < n - 1)
           (\<lambda>_ s. andthen (hpet_sleep_ms 1 s) (\<lambda>_ s. let (started, s) = aps_started s in Ret started s)) started s) (\<lambda>_ s.
         let (started, s) = aps_started s in
         klog LOG_INFO ''All %d APs online'' [VWord (ucast started)] s))))"

end
