(* ===== verification/Scheduler_Spec.thy ===== *)
theory Scheduler_Spec
  imports Scheduler
begin

text \<open>
  Properties of the scheduler: the run queue implements a first-in first-out queue (the locale \<open>fifo\<close>, interpreted by the code),
  a switch saves and restores the registers of a task, and what a yield does to the queue and the current task.
\<close>

section \<open>The run queue as a list\<close>

fun rq_chain :: "memory \<Rightarrow> u64 \<Rightarrow> u64 list \<Rightarrow> bool" where
  "rq_chain m p [] \<longleftrightarrow> p = 0"
| "rq_chain m p (t # ts) \<longleftrightarrow> p = t \<and> t \<noteq> 0 \<and> rq_chain m (task_next m t) ts"

text \<open>Different tasks of a list do not overlap in the fields before their stacks.\<close>

definition apart :: "u64 list \<Rightarrow> bool" where
  "apart ts \<longleftrightarrow> distinct ts \<and> (\<forall>t\<in>set ts. t \<noteq> 0 \<and> (\<forall>u\<in>set ts. t \<noteq> u \<longrightarrow> separate t 40 u 40))"

definition queue_ok :: "'z sched_st_scheme \<Rightarrow> u64 list \<Rightarrow> bool" where
  "queue_ok s ts \<longleftrightarrow> rq_lock s = 0 \<and> rq_chain (mem s) (rq_head s) ts \<and> rq_tail s = (if ts = [] then 0 else last ts) \<and>
     rq_count s = of_nat (length ts) \<and> apart ts"

lemma apart_simps [simp]: "apart []" "apart [t] \<longleftrightarrow> t \<noteq> 0"
  by (simp_all add: apart_def)

lemma apart_sub: "apart ts \<Longrightarrow> set us \<subseteq> set ts \<Longrightarrow> distinct us \<Longrightarrow> apart us"
  by (auto simp: apart_def subset_iff)

lemma apartD: "apart ts \<Longrightarrow> t \<in> set ts \<Longrightarrow> u \<in> set ts \<Longrightarrow> t \<noteq> u \<Longrightarrow> separate t 40 u 40"
  by (simp add: apart_def)

lemma rq_chain_cong: "(\<And>t. t \<in> set ts \<Longrightarrow> task_next m' t = task_next m t) \<Longrightarrow> rq_chain m' p ts = rq_chain m p ts"
  by (induction ts arbitrary: p) auto

lemma rq_chain_head: "rq_chain m p ts \<Longrightarrow> p = (case ts of [] \<Rightarrow> 0 | t # _ \<Rightarrow> t)"
  by (cases ts) auto

text \<open>Fields of a task, after a write to the fields of the same or another one.\<close>

lemma task_fields [simp]:
  "task_next (set_task_next t v m) t = v" "task_next (set_state t w m) t = task_next m t"
  "task_state (set_state t w m) t = w" "task_state (set_task_next t v m) t = task_state m t"
proof -
  have s: "separate (t + 32) 8 (t + 16) 4" "separate (t + 16) 4 (t + 32) 8"
    using entry_offsets [of 32 8 16 4 t] entry_offsets [of 16 4 32 8 t] by simp_all
  then show "task_next (set_state t w m) t = task_next m t" "task_state (set_task_next t v m) t = task_state m t"
    by (simp_all add: task_next_def set_state_def task_state_def set_task_next_def load64_def store32_def load32_def store64_def load_store_separate)
qed (simp_all add: task_next_def set_task_next_def task_state_def set_state_def)

lemma task_write_outside:
  assumes "x \<notin> region t 40"
  shows "set_task_next t v m x = m x" "set_state t w m x = m x" "set_cpu t c m x = m x" "set_id t w m x = m x" "set_cr3 t v m x = m x"
    "set_rsp t v m x = m x"
proof -
  note p = part_outside [OF assms]
  show "set_task_next t v m x = m x" "set_state t w m x = m x" "set_cpu t c m x = m x" "set_id t w m x = m x" "set_cr3 t v m x = m x"
    "set_rsp t v m x = m x"
    using p [of 32 8] p [of 16 4] p [of 24 1] p [of 20 4] p [of 8 8] p [of 0 8]
    by (simp_all add: set_task_next_def set_state_def set_cpu_def set_id_def set_cr3_def set_rsp_def store64_outside write_outside)
qed

lemma next_write_outside: "x \<notin> region (t + 32) 8 \<Longrightarrow> set_task_next t v m x = m x"
  by (simp add: set_task_next_def store64_outside)

lemma state_write_outside: "x \<notin> region (t + 16) 4 \<Longrightarrow> set_state t v m x = m x"
  by (simp add: set_state_def write_outside)

lemma task_fields_cong:
  assumes "\<And>x. x \<in> region t 40 \<Longrightarrow> m' x = m x"
  shows "task_next m' t = task_next m t" "task_state m' t = task_state m t" "task_id m' t = task_id m t" "load64 m' t = load64 m t"
  using load_part [of t 40 m' m, OF assms, of 32 8] load_part [of t 40 m' m, OF assms, of 16 4]
    load_part [of t 40 m' m, OF assms, of 20 4] load_part [of t 40 m' m, OF assms, of 0 8]
  by (simp_all add: task_next_def task_state_def task_id_def load64_def load32_def)

lemma separate_outside: "separate t n u k \<Longrightarrow> x \<in> region t n \<Longrightarrow> x \<notin> region u k"
  by (rule separate_disjoint)

lemma task_other [simp]:
  assumes "separate t 40 u 40"
  shows "task_next (set_task_next u v m) t = task_next m t" "task_next (set_state u w m) t = task_next m t"
    "task_state (set_task_next u v m) t = task_state m t" "task_state (set_state u w m) t = task_state m t"
  using task_fields_cong [of t "set_task_next u v m" m] task_fields_cong [of t "set_state u w m" m]
    task_write_outside [OF separate_outside [OF assms]] by blast+

lemma on_mem_sel [simp]: "mem (on_mem f s) = f (mem s)" "rq_lock (on_mem f s) = rq_lock s" "rq_head (on_mem f s) = rq_head s"
  "rq_tail (on_mem f s) = rq_tail s" "rq_count (on_mem f s) = rq_count s"
  by (simp_all add: on_mem_def)

lemma rq_chain_snoc:
  assumes "rq_chain m p ts" and "ts \<noteq> []" and "apart (ts @ [t])"
  shows "rq_chain (set_task_next (last ts) t (set_task_next t 0 m)) p (ts @ [t])"
  using assms
proof (induction ts arbitrary: p)
  case (Cons x ts)
  have x: "p = x" "x \<noteq> 0" "rq_chain m (task_next m x) ts" using Cons.prems(1) by auto
  have sep: "separate u 40 w 40" if "u \<noteq> w" "u \<in> set (x # ts @ [t])" "w \<in> set (x # ts @ [t])" for u w
    using apartD [OF Cons.prems(3)] that by simp
  show ?case
  proof (cases "ts = []")
    case True
    then show ?thesis using x Cons.prems(3) sep [of t x] by (auto simp: apart_def)
  next
    case False
    have "apart (ts @ [t])" using Cons.prems(3) by (rule apart_sub) (use Cons.prems(3) in \<open>auto simp: apart_def\<close>)
    then have "rq_chain (set_task_next (last ts) t (set_task_next t 0 m)) (task_next m x) (ts @ [t])"
      using Cons.IH x(3) False by blast
    moreover have "last ts \<noteq> x" "t \<noteq> x" using Cons.prems(3) False by (auto simp: apart_def)
    then have "separate x 40 (last ts) 40" "separate x 40 t 40" using sep False by auto
    ultimately show ?thesis using x(1,2) False by simp
  qed
qed simp

lemma enqueue_ok:
  fixes s :: "'z sched_st_scheme"
  assumes "queue_ok s ts" and "apart (ts @ [t])"
  obtains u where "scheduler_enqueue t s = Ret () u" and "queue_ok u (ts @ [t])" and "task_state (mem u) t = TASK_READY"
    and "u = s\<lparr>mem := mem u, rq_head := rq_head u, rq_tail := rq_tail u, rq_count := rq_count u\<rparr>"
    and "\<forall>x. x \<notin> region (t + 16) 4 \<and> x \<notin> region (t + 32) 8 \<and> (ts \<noteq> [] \<longrightarrow> x \<notin> region (last ts + 32) 8) \<longrightarrow> mem u x = mem s x"
proof -
  have q: "rq_lock s = 0" "rq_chain (mem s) (rq_head s) ts" "rq_tail s = (if ts = [] then 0 else last ts)"
    "rq_count s = of_nat (length ts)" using assms(1) by (simp_all add: queue_ok_def)
  let ?m = "set_task_next t 0 (set_state t TASK_READY (mem s))"
  have t0: "t \<noteq> 0" "t \<notin> set ts" using assms(2) by (auto simp: apart_def)
  have sp: "separate x 40 t 40" if "x \<in> set ts" for x using apartD [OF assms(2), of x t] that t0(2) by auto
  show thesis
  proof (cases "ts = []")
    case True
    let ?u = "s\<lparr>mem := ?m, rq_head := t, rq_tail := t, rq_count := rq_count s + 1\<rparr>"
    have "scheduler_enqueue t s = Ret () ?u"
      using q True by (simp add: scheduler_enqueue_def Let_def spinlock_acquire_free spinlock_release_def on_mem_def)
    moreover have "queue_ok ?u (ts @ [t])" using q True t0(1) by (simp add: queue_ok_def)
    ultimately show thesis by (rule that) (simp_all add: True next_write_outside state_write_outside)
  next
    case False
    let ?u = "s\<lparr>mem := set_task_next (last ts) t ?m, rq_tail := t, rq_count := rq_count s + 1\<rparr>"
    have l: "last ts \<in> set ts" using False by simp
    have "last ts \<noteq> 0" using assms(1) l by (auto simp: queue_ok_def apart_def)
    then have e: "scheduler_enqueue t s = Ret () ?u"
      using q False by (simp add: scheduler_enqueue_def Let_def spinlock_acquire_free spinlock_release_def on_mem_def)
    have "rq_chain (set_state t TASK_READY (mem s)) (rq_head s) ts"
      using q(2) sp by (subst rq_chain_cong [of ts _ "mem s"]) simp_all
    then have "queue_ok ?u (ts @ [t])"
      using q False assms(2) rq_chain_snoc by (simp add: queue_ok_def)
    then show thesis using e sp [OF l] separate_sym by (intro that [of ?u]) (simp_all add: False next_write_outside state_write_outside)
  qed
qed

lemma dequeue_empty: "queue_ok s [] \<Longrightarrow> scheduler_dequeue s = Ret 0 s"
  by (simp add: scheduler_dequeue_def queue_ok_def spinlock_acquire_free spinlock_release_def Let_def)

lemma dequeue_ok:
  fixes s :: "'z sched_st_scheme"
  assumes "queue_ok s ts"
  obtains u where "scheduler_dequeue s = Ret (case ts of [] \<Rightarrow> 0 | t # _ \<Rightarrow> t) u" and "queue_ok u (tl ts)"
    and "u = s\<lparr>mem := mem u, rq_head := rq_head u, rq_tail := rq_tail u, rq_count := rq_count u\<rparr>"
    and "\<forall>x. (ts \<noteq> [] \<longrightarrow> x \<notin> region (hd ts + 32) 8) \<longrightarrow> mem u x = mem s x"
    and "\<forall>t\<in>set ts. task_state (mem u) t = task_state (mem s) t"
proof -
  have q: "rq_lock s = 0" "rq_chain (mem s) (rq_head s) ts" "rq_tail s = (if ts = [] then 0 else last ts)"
    "rq_count s = of_nat (length ts)" "apart ts" using assms(1) by (simp_all add: queue_ok_def)
  show thesis
  proof (cases ts)
    case Nil
    then have "scheduler_dequeue s = Ret 0 s" using assms by (simp add: dequeue_empty)
    then show thesis using Nil assms by (intro that [of s]) simp_all
  next
    case (Cons t us)
    let ?u = "s\<lparr>mem := set_task_next t 0 (mem s), rq_head := task_next (mem s) t, rq_tail := (if us = [] then 0 else rq_tail s), rq_count := rq_count s - 1\<rparr>"
    have h: "rq_head s = t" "t \<noteq> 0" "rq_chain (mem s) (task_next (mem s) t) us" using q(2) Cons by auto
    have n0: "task_next (mem s) t = 0 \<longleftrightarrow> us = []" using h(3) q(5) Cons by (cases us) (auto simp: apart_def)
    have d: "scheduler_dequeue s = Ret t ?u"
      using q(1) h n0 by (simp add: scheduler_dequeue_def Let_def spinlock_acquire_free spinlock_release_def on_mem_def)
    have sp: "separate x 40 t 40" if "x \<in> set us" for x using apartD [OF q(5), of x t] that q(5) Cons by (auto simp: apart_def)
    have "apart us" using q(5) by (rule apart_sub) (use q(5) Cons in \<open>auto simp: apart_def\<close>)
    moreover have "rq_chain (set_task_next t 0 (mem s)) (task_next (mem s) t) us"
      using h(3) sp by (subst rq_chain_cong [of us _ "mem s"]) simp_all
    ultimately have "queue_ok ?u us" using q Cons by (simp add: queue_ok_def)
    then show thesis using d sp Cons by (intro that [of ?u]) (auto simp: next_write_outside)
  qed
qed

section \<open>A first-in first-out queue\<close>

fun run_all :: "('a \<Rightarrow> 's \<Rightarrow> (unit, 's) outcome) \<Rightarrow> 'a list \<Rightarrow> 's \<Rightarrow> (unit, 's) outcome" where
  "run_all f [] s = Ret () s"
| "run_all f (x # xs) s = andthen (f x s) (\<lambda>_ s. run_all f xs s)"

fun drain :: "('s \<Rightarrow> ('a, 's) outcome) \<Rightarrow> nat \<Rightarrow> 's \<Rightarrow> ('a list, 's) outcome" where
  "drain deq 0 s = Ret [] s"
| "drain deq (Suc n) s = andthen (deq s) (\<lambda>x s. andthen (drain deq n s) (\<lambda>xs s. Ret (x # xs) s))"

text \<open>
  The interface of a queue: \<open>holds s q\<close> relates a state to the elements in order, \<open>fit\<close> are the lists of elements the queue can hold,
  \<open>none\<close> is what an empty queue gives.
\<close>

locale fifo =
  fixes enq :: "'a \<Rightarrow> 's \<Rightarrow> (unit, 's) outcome" and deq :: "'s \<Rightarrow> ('a, 's) outcome"
    and holds :: "'s \<Rightarrow> 'a list \<Rightarrow> bool" and fit :: "'a list \<Rightarrow> bool" and none :: 'a
  assumes enq_law: "holds s q \<Longrightarrow> fit (q @ [x]) \<Longrightarrow> returns (enq x s) (\<lambda>_ t. holds t (q @ [x]))"
    and deq_law: "holds s q \<Longrightarrow> returns (deq s) (\<lambda>x t. x = (case q of [] \<Rightarrow> none | y # _ \<Rightarrow> y) \<and> holds t (tl q))"
    and fit_prefix: "fit (q @ r) \<Longrightarrow> fit q"
begin

lemma run_all_holds:
  assumes "holds s q" and "fit (q @ xs)"
  shows "returns (run_all enq xs s) (\<lambda>_ t. holds t (q @ xs))"
  using assms
proof (induction xs arbitrary: q s)
  case (Cons x xs)
  have f: "fit (q @ [x])" using fit_prefix [of "q @ [x]" xs] Cons.prems(2) by simp
  show ?case
    using enq_law [OF Cons.prems(1) f] Cons.IH [of _ "q @ [x]"] Cons.prems(2) by (auto elim!: returns_weaken)
qed simp

lemma drain_holds:
  assumes "holds s (xs @ q)"
  shows "returns (drain deq (length xs) s) (\<lambda>ys t. ys = xs \<and> holds t q)"
  using assms
proof (induction xs arbitrary: s)
  case (Cons x xs)
  then show ?case using deq_law [OF Cons.prems] by (auto elim!: returns_weaken)
qed simp

text \<open>Elements leave in the order in which they came.\<close>

lemma fifo_order:
  assumes "holds s q" and "fit (q @ xs)"
  shows "returns (andthen (run_all enq xs s) (\<lambda>_ s. drain deq (length q + length xs) s)) (\<lambda>ys t. ys = q @ xs \<and> holds t [])"
proof -
  have "returns (drain deq (length (q @ xs)) t) (\<lambda>ys u. ys = q @ xs \<and> holds u [])" if "holds t (q @ xs)" for t
    using that by (intro drain_holds) simp
  then show ?thesis using run_all_holds [OF assms] by (auto elim!: returns_weaken)
qed

end

interpretation rq: fifo scheduler_enqueue scheduler_dequeue queue_ok apart 0
proof
  fix s :: "'z sched_st_scheme" and q r x
  show "returns (scheduler_enqueue x s) (\<lambda>_ t. queue_ok t (q @ [x]))" if "queue_ok s q" "apart (q @ [x])"
    by (rule enqueue_ok [OF that]) simp
  show "returns (scheduler_dequeue s) (\<lambda>x t. x = (case q of [] \<Rightarrow> 0 | y # _ \<Rightarrow> y) \<and> queue_ok t (tl q))" if "queue_ok s q"
    by (rule dequeue_ok [OF that]) simp
  show "apart q" if "apart (q @ r)" for r
    using that by (rule apart_sub) (use that in \<open>auto simp: apart_def\<close>)
qed

section \<open>Switching stacks\<close>

text \<open>The seven words that a switch leaves on the stack of the task it leaves, from the lowest address up.\<close>

definition saved_frame :: "memory \<Rightarrow> u64 \<Rightarrow> u64 list" where
  "saved_frame m g = map (\<lambda>i. load64 m (g + of_nat (8 * i))) [0..<7]"

definition pushed :: "'z sched_st_scheme \<Rightarrow> memory" where
  "pushed s = (let f = rsp s in store64 (store64 (store64 (store64 (store64 (store64 (mem s) (f - 8) (rbp s)) (f - 16) (rbx s))
     (f - 24) (r12 s)) (f - 32) (r13 s)) (f - 40) (r14 s)) (f - 48) (r15 s))"

lemma seven: "[0..<7] = [0, 1, 2, 3, 4, 5, 6 :: nat]"
  by (simp add: upt_rec)

lemma push_regs:
  "rbx (push v s) = rbx s" "rbp (push v s) = rbp s" "r12 (push v s) = r12 s" "r13 (push v s) = r13 s" "r14 (push v s) = r14 s" "r15 (push v s) = r15 s"
  by (simp_all add: push_def)

lemma six_pushes:
  "push (r15 s) (push (r14 s) (push (r13 s) (push (r12 s) (push (rbx s) (push (rbp s) s))))) = s\<lparr>rsp := rsp s - 48, mem := pushed s\<rparr>"
  by (simp add: push_def pushed_def Let_def diff_diff_eq)

lemma pops:
  "(let (v, s) = pop t; s = s\<lparr>r15 := v\<rparr>; (v, s) = pop s; s = s\<lparr>r14 := v\<rparr>; (v, s) = pop s; s = s\<lparr>r13 := v\<rparr>; (v, s) = pop s; s = s\<lparr>r12 := v\<rparr>;
        (v, s) = pop s; s = s\<lparr>rbx := v\<rparr>; (v, s) = pop s; s = s\<lparr>rbp := v\<rparr>; (v, s) = pop s in s\<lparr>rip := v\<rparr>) =
   t\<lparr>rsp := rsp t + 56, r15 := load64 (mem t) (rsp t), r14 := load64 (mem t) (rsp t + 8), r13 := load64 (mem t) (rsp t + 16),
     r12 := load64 (mem t) (rsp t + 24), rbx := load64 (mem t) (rsp t + 32), rbp := load64 (mem t) (rsp t + 40), rip := load64 (mem t) (rsp t + 48)\<rparr>"
  by (simp add: pop_def Let_def add.assoc)

lemma switch_result:
  fixes s :: "'z sched_st_scheme" and old new :: u64
  defines "m \<equiv> store64 (pushed s) old (rsp s - 48)"
  defines "n \<equiv> load64 m new"
  defines "f \<equiv> saved_frame m n"
  shows "scheduler_context_switch old new s = s\<lparr>mem := m, rsp := n + 56, r15 := f ! 0, r14 := f ! 1, r13 := f ! 2, r12 := f ! 3,
     rbx := f ! 4, rbp := f ! 5, rip := f ! 6\<rparr>"
proof -
  let ?t = "s\<lparr>mem := m, rsp := n\<rparr>"
  have "scheduler_context_switch old new s = ?t\<lparr>rsp := rsp ?t + 56, r15 := load64 (mem ?t) (rsp ?t), r14 := load64 (mem ?t) (rsp ?t + 8),
     r13 := load64 (mem ?t) (rsp ?t + 16), r12 := load64 (mem ?t) (rsp ?t + 24), rbx := load64 (mem ?t) (rsp ?t + 32),
     rbp := load64 (mem ?t) (rsp ?t + 40), rip := load64 (mem ?t) (rsp ?t + 48)\<rparr>"
    unfolding pops [symmetric] scheduler_context_switch_def
    by (simp only: Let_def push_regs six_pushes) (simp add: on_mem_def set_rsp_def m_def n_def)
  then show ?thesis unfolding f_def saved_frame_def seven by simp
qed

lemma pushed_frame:
  assumes "rsp s = g + 48"
  shows "saved_frame (pushed s) g = [r15 s, r14 s, r13 s, r12 s, rbx s, rbp s, load64 (mem s) (g + 48)]"
    and "x \<notin> region g 48 \<Longrightarrow> pushed s x = mem s x"
proof -
  have f: "g + 48 - 8 = g + 40" "g + 48 - 16 = g + 32" "g + 48 - 24 = g + 24" "g + 48 - 32 = g + 16" "g + 48 - 40 = g + 8" "g + 48 - 48 = g"
    by simp_all
  have o: "separate (g + of_nat i) 8 (g + of_nat j) 8" if "i + 8 \<le> j \<or> j + 8 \<le> i" "i \<le> 48" "j \<le> 48" for i j
    using that by (intro entry_offsets) auto
  note c = o [of 0 8, simplified] o [of 0 16, simplified] o [of 0 24, simplified] o [of 0 32, simplified] o [of 0 40, simplified]
    o [of 8 0, simplified] o [of 8 16, simplified] o [of 8 24, simplified] o [of 8 32, simplified] o [of 8 40, simplified]
    o [of 16 0, simplified] o [of 16 8, simplified] o [of 16 24, simplified] o [of 16 32, simplified] o [of 16 40, simplified]
    o [of 24 0, simplified] o [of 24 8, simplified] o [of 24 16, simplified] o [of 24 32, simplified] o [of 24 40, simplified]
    o [of 32 0, simplified] o [of 32 8, simplified] o [of 32 16, simplified] o [of 32 24, simplified] o [of 32 40, simplified]
    o [of 40 0, simplified] o [of 40 8, simplified] o [of 40 16, simplified] o [of 40 24, simplified] o [of 40 32, simplified]
    o [of 48 0, simplified] o [of 48 8, simplified] o [of 48 16, simplified] o [of 48 24, simplified] o [of 48 32, simplified] o [of 48 40, simplified]
  show "saved_frame (pushed s) g = [r15 s, r14 s, r13 s, r12 s, rbx s, rbp s, load64 (mem s) (g + 48)]"
    unfolding saved_frame_def seven pushed_def Let_def assms f by (simp add: load64_store64_separate c)
  show "x \<notin> region g 48 \<Longrightarrow> pushed s x = mem s x"
  proof -
    assume "x \<notin> region g 48"
    note p = part_outside [OF this]
    show ?thesis unfolding pushed_def Let_def assms f
      using p [of 0 8] p [of 8 8] p [of 16 8] p [of 24 8] p [of 32 8] p [of 40 8] by (simp add: store64_outside)
  qed
qed

lemma saved_frame_cong:
  assumes "\<And>x. x \<in> region g 56 \<Longrightarrow> m' x = m x"
  shows "saved_frame m' g = saved_frame m g"
  unfolding saved_frame_def
proof (rule map_cong [OF refl])
  fix i assume "i \<in> set [0..<7 :: nat]"
  then have "load 8 m' (g + of_nat (8 * i)) = load 8 m (g + of_nat (8 * i))" by (intro load_part [of g 56, OF assms]) auto
  then show "load64 m' (g + of_nat (8 * i)) = load64 m (g + of_nat (8 * i))" by (simp only: load64_def)
qed

lemma load64_cong: "(\<And>x. x \<in> region a 8 \<Longrightarrow> m' x = m x) \<Longrightarrow> load64 m' a = load64 m a"
  using load_part [of a 8 m' m 0 8] by (simp add: load64_def)

section \<open>New tasks\<close>

lemma heap_holds_id [simp]: "heap_holds (s\<lparr>next_task_id := i\<rparr>) B = heap_holds s B" "log_dirty (s\<lparr>next_task_id := i\<rparr>) = log_dirty s"
  "heap_room (s\<lparr>next_task_id := i\<rparr>) r = heap_room s r"
  by (simp_all add: heap_holds_def heap_room_def heap_ok_def log_ok_defs)

lemma initial_stack_frame:
  assumes "initial_stack ex tr entry arg (g + 64, m) = (sp, m')"
  shows "sp = g" and "saved_frame m' g = [0, 0, entry, arg, 0, 0, tr]" and "load64 m' (g + 56) = ex"
    and "x \<notin> region g 64 \<Longrightarrow> m' x = m x"
proof -
  have f: "g + 64 - 8 = g + 56" "g + 56 - 8 = g + 48" "g + 48 - 8 = g + 40" "g + 40 - 8 = g + 32" "g + 32 - 8 = g + 24" "g + 24 - 8 = g + 16"
    "g + 16 - 8 = g + 8" "g + 8 - 8 = g" by simp_all
  have m': "m' = store64 (store64 (store64 (store64 (store64 (store64 (store64 (store64 m (g + 56) ex) (g + 48) tr) (g + 40) 0) (g + 32) 0) (g + 24) arg)
      (g + 16) entry) (g + 8) 0) g 0" and sp: "sp = g"
    using assms unfolding initial_stack_def push_at_def comp_def case_prod_conv f by auto
  show "sp = g" by (rule sp)
  have o: "separate (g + of_nat i) 8 (g + of_nat j) 8" if "i + 8 \<le> j \<or> j + 8 \<le> i" "i \<le> 56" "j \<le> 56" for i j
    using that by (intro entry_offsets) auto
  note c = o [of 8 0, simplified] o [of 16 0, simplified] o [of 16 8, simplified] o [of 24 0, simplified] o [of 24 8, simplified] o [of 24 16, simplified]
    o [of 32 0, simplified] o [of 32 8, simplified] o [of 32 16, simplified] o [of 32 24, simplified]
    o [of 40 0, simplified] o [of 40 8, simplified] o [of 40 16, simplified] o [of 40 24, simplified] o [of 40 32, simplified]
    o [of 48 0, simplified] o [of 48 8, simplified] o [of 48 16, simplified] o [of 48 24, simplified] o [of 48 32, simplified] o [of 48 40, simplified]
    o [of 56 0, simplified] o [of 56 8, simplified] o [of 56 16, simplified] o [of 56 24, simplified] o [of 56 32, simplified] o [of 56 40, simplified]
    o [of 56 48, simplified]
  show "saved_frame m' g = [0, 0, entry, arg, 0, 0, tr]" "load64 m' (g + 56) = ex"
    unfolding saved_frame_def seven m' by (simp_all add: load64_store64_separate c)
  show "m' x = m x" if "x \<notin> region g 64"
  proof -
    note p = part_outside [OF that]
    show ?thesis unfolding m'
      using p [of 0 8] p [of 8 8] p [of 16 8] p [of 24 8] p [of 32 8] p [of 40 8] p [of 48 8] p [of 56 8] by (simp add: store64_outside)
  qed
qed

lemma task_formats:
  "plain_format ''task at 0x%x rsp=0x%x'' [VWord a, VWord b]"
  "plain_format ''task %d rsp=0x%x trampoline=0x%x'' [VWord a, VWord b, VWord c]"
  by (simp_all add: plain_format_def format_simps)

lemma mixed_accesses:
  "separate a 4 b 8 \<Longrightarrow> load32 (store64 m b w) a = load32 m a" "separate a 4 b 1 \<Longrightarrow> load32 (store8 m b y) a = load32 m a"
  "separate a 4 b 4 \<Longrightarrow> load32 (store32 m b v) a = load32 m a" "separate a 8 b 4 \<Longrightarrow> load64 (store32 m b v) a = load64 m a"
  "separate a 8 b 1 \<Longrightarrow> load64 (store8 m b y) a = load64 m a" "separate a 1 b 8 \<Longrightarrow> load8 (store64 m b w) a = load8 m a"
  by (simp_all add: load32_def load64_def store32_def store64_def access_separate)

text \<open>What \<open>task_create\<close> leaves in a new task's memory.\<close>

definition fresh_task :: "'z sched_st_scheme \<Rightarrow> u64 \<Rightarrow> u64 \<Rightarrow> u64 \<Rightarrow> u32 \<Rightarrow> bool" where
  "fresh_task s task entry arg ident \<longleftrightarrow>
     (let g = task + 40 + TASK_STACK_SIZE - 64 in
      load64 (mem s) task = g \<and> saved_frame (mem s) g = [0, 0, entry, arg, 0, 0, task_trampoline_addr s] \<and>
      load64 (mem s) (g + 56) = task_exit_addr s \<and> task_id (mem s) task = ident \<and> task_state (mem s) task = TASK_READY \<and>
      task_cpu (mem s) task = 0xFF \<and> load64 (mem s) (task + 8) = cr3 s \<and> task_next (mem s) task = 0)"

definition task_image :: "u64 \<Rightarrow> u64 \<Rightarrow> u64 \<Rightarrow> u64 \<Rightarrow> u64 \<Rightarrow> u32 \<Rightarrow> u64 \<Rightarrow> memory \<Rightarrow> memory" where
  "task_image task ex tr entry arg ident root m =
     (let (sp, m) = initial_stack ex tr entry arg (task + 40 + TASK_STACK_SIZE,
        set_cr3 task root (set_cpu task 0xFF (set_state task TASK_READY (set_id task ident m))))
      in set_rsp task sp m)"

lemma task_image_fresh:
  assumes "\<forall>x\<in>region task 16424. m x = 0" and m'_def: "m' = task_image task ex tr entry arg ident root m"
    and g_def: "g = task + 40 + TASK_STACK_SIZE - 64"
  shows "load64 m' task = g" "saved_frame m' g = [0, 0, entry, arg, 0, 0, tr]" "load64 m' (g + 56) = ex" "task_id m' task = ident"
    "task_state m' task = TASK_READY" "task_cpu m' task = 0xFF" "load64 m' (task + 8) = root" "task_next m' task = 0"
    "x \<notin> region task 16424 \<Longrightarrow> m' x = m x"
proof -
  have g: "g = task + 16360" "task + 40 + TASK_STACK_SIZE = g + 64" by (simp_all add: g_def TASK_STACK_SIZE_def)
  let ?m1 = "set_cr3 task root (set_cpu task 0xFF (set_state task TASK_READY (set_id task ident m)))"
  obtain sp m2 where i: "initial_stack ex tr entry arg (g + 64, ?m1) = (sp, m2)" by (metis surj_pair)
  note st = initial_stack_frame [OF i]
  have m': "m' = set_rsp task g m2" unfolding m'_def task_image_def g(2) i using st(1) by simp
  have low: "separate (task + of_nat j) n g 64" if "j + n \<le> 40" "0 < n" for j n
    using entry_offsets [of j n 16360 64 task] that unfolding g(1) by simp
  have hi: "separate g 64 task 8" using low [of 0 8] separate_sym by simp
  have o: "separate (task + of_nat a) n (task + of_nat b) k" if "a + n \<le> b \<or> b + k \<le> a" "a + n \<le> 40" "b + k \<le> 40" "0 < n" "0 < k" for a n b k
    using that by (intro entry_offsets) auto
  have keep: "m2 x = ?m1 x" if "x \<in> region task 40" for x
    using that separate_disjoint [OF low [of 0 40]] by (intro st(4)) simp
  note c = o [of 8 8 0 8, simplified] o [of 16 4 0 8, simplified] o [of 20 4 0 8, simplified] o [of 24 1 0 8, simplified] o [of 32 8 0 8, simplified]
    o [of 16 4 8 8, simplified] o [of 20 4 8 8, simplified] o [of 24 1 8 8, simplified] o [of 32 8 8 8, simplified]
    o [of 16 4 24 1, simplified] o [of 20 4 24 1, simplified] o [of 32 8 24 1, simplified] o [of 20 4 16 4, simplified] o [of 32 8 16 4, simplified]
    o [of 32 8 20 4, simplified] o [of 24 1 16 4, simplified]
  show "load64 m' task = g" unfolding m' by (simp add: set_rsp_def)
  have top: "m' x = m2 x" if "x \<in> region g 64" for x
    using that separate_disjoint [OF hi] unfolding m' set_rsp_def by (intro store64_outside) blast
  show "saved_frame m' g = [0, 0, entry, arg, 0, 0, tr]"
    unfolding st(2) [symmetric] by (rule saved_frame_cong) (use top in \<open>simp add: region_iff\<close>)
  have "load64 m' (g + 56) = load64 m2 (g + 56)" using load_part [of g 64 m' m2 56 8] top by (simp add: load64_def)
  then show "load64 m' (g + 56) = ex" using st(3) by simp
  have t: "load n m' (task + of_nat j) = load n (set_rsp task g ?m1) (task + of_nat j)" if "j + n \<le> 40" for j n
  proof (rule load_part [of task 40 _ _ j n])
    fix x assume "x \<in> region task 40"
    then show "m' x = set_rsp task g ?m1 x" unfolding m' set_rsp_def store64_def store_def write_bytes_def using keep by auto
  qed (use that in simp_all)
  have f: "load32 (set_rsp task g ?m1) (task + 20) = ident" "load32 (set_rsp task g ?m1) (task + 16) = TASK_READY"
    "load64 (set_rsp task g ?m1) (task + 8) = root"
    unfolding set_rsp_def set_cr3_def set_cpu_def set_state_def set_id_def
    by (simp_all add: load64_store64_separate c mixed_accesses)
  show "task_id m' task = ident" "task_state m' task = TASK_READY" "load64 m' (task + 8) = root"
    using f t [of 20 4] t [of 16 4] t [of 8 8] by (simp_all add: task_id_def task_state_def load32_def load64_def)
  have "load8 (set_rsp task g ?m1) (task + 24) = 0xFF"
    unfolding set_rsp_def set_cr3_def set_cpu_def by (simp add: mixed_accesses c)
  moreover have "m' (task + 24) = set_rsp task g ?m1 (task + 24)"
    unfolding m' set_rsp_def store64_def store_def write_bytes_def using keep [of "task + 24"] by (simp add: region_iff)
  ultimately show "task_cpu m' task = 0xFF" by (simp add: task_cpu_def load8_def)
  have z: "load 8 m (task + 32) = load 8 (\<lambda>_. 0) (task + 32)" using load_part [of task 16424 m "\<lambda>_. 0" 32 8] assms(1) by simp
  have "load64 (set_rsp task g ?m1) (task + 32) = load64 m (task + 32)"
    unfolding set_rsp_def set_cr3_def set_cpu_def set_state_def set_id_def by (simp add: load64_store64_separate c mixed_accesses)
  also have "\<dots> = 0" using z load64_zero [of "task + 32"] by (simp add: load64_def)
  finally show "task_next m' task = 0" using t [of 32 8] by (simp add: task_next_def load64_def)
  show "m' x = m x" if "x \<notin> region task 16424"
  proof -
    have "x \<notin> region task 40" "x \<notin> region g 64"
      using part_outside [OF that, of 0 40] part_outside [OF that, of 16360 64] by (simp_all add: g(1))
    then show ?thesis using st(4) task_write_outside [of x task] by (simp add: m')
  qed
qed

lemma log_frame_sched:
  assumes "log_frame s t"
  shows "next_task_id t = next_task_id s" "task_exit_addr t = task_exit_addr s" "task_trampoline_addr t = task_trampoline_addr s" "cr3 t = cr3 s"
    "cpu_locals t = cpu_locals s" "idle_task_addr t = idle_task_addr s" "rq_head t = rq_head s" "rq_tail t = rq_tail s" "rq_lock t = rq_lock s"
    "rq_count t = rq_count s" "rsp t = rsp s" "lapic_base t = lapic_base s"
proof -
  have e: "t = s\<lparr>now := now t, events := events t, mem := mem t, cursor_x := cursor_x t, cursor_y := cursor_y t, fg_color := fg_color t,
    bg_color := bg_color t\<rparr>" using assms by (simp add: log_frame_def)
  show "next_task_id t = next_task_id s" "task_exit_addr t = task_exit_addr s" "task_trampoline_addr t = task_trampoline_addr s" "cr3 t = cr3 s"
    "cpu_locals t = cpu_locals s" "idle_task_addr t = idle_task_addr s" "rq_head t = rq_head s" "rq_tail t = rq_tail s" "rq_lock t = rq_lock s"
    "rq_count t = rq_count s" "rsp t = rsp s" "lapic_base t = lapic_base s"
    by (subst e, simp)+
qed

lemma mem_id_commute: "s\<lparr>next_task_id := i, mem := m\<rparr> = s\<lparr>mem := m, next_task_id := i\<rparr>"
  by simp

lemma task_create_steps:
  "task_create entry arg s =
     andthen (kmalloc sizeof_task s) (\<lambda>task s.
     andthen (klog LOG_INFO ''task at 0x%x rsp=0x%x'' [VWord task, VWord (load64 (memset task 0 sizeof_task (mem s)) task)]
       (s\<lparr>mem := memset task 0 sizeof_task (mem s)\<rparr>)) (\<lambda>_ s.
     let m = task_image task (task_exit_addr s) (task_trampoline_addr s) entry arg (next_task_id s) (cr3 s) (mem s);
         s = s\<lparr>mem := m, next_task_id := next_task_id s + 1\<rparr>
     in andthen (klog LOG_INFO ''task %d rsp=0x%x trampoline=0x%x''
          [VWord (ucast (task_id m task)), VWord (load64 m task), VWord (task_trampoline_addr s)] s) (\<lambda>_ s. Ret task s)))"
  by (simp add: task_create_def task_image_def on_mem_def x86_read_cr3_def Let_def case_prod_beta mem_id_commute)

lemma fresh_task_cong:
  assumes "fresh_task s task entry arg ident" and "\<And>x. x \<in> region task 16424 \<Longrightarrow> mem t x = mem s x"
    and "task_trampoline_addr t = task_trampoline_addr s" "task_exit_addr t = task_exit_addr s" "cr3 t = cr3 s"
  shows "fresh_task t task entry arg ident"
proof -
  let ?g = "task + 40 + TASK_STACK_SIZE - 64"
  have g: "?g = task + 16360" by (simp add: TASK_STACK_SIZE_def)
  have r: "x \<in> region task 16424" if "x \<in> region task 40 \<or> x \<in> region ?g 64" for x
    using that part_outside [of x task 16424 0 40] part_outside [of x task 16424 16360 64] unfolding g by auto
  have e: "mem t x = mem s x" if "x \<in> region task 40 \<or> x \<in> region ?g 64" for x using assms(2) r that by blast
  have "saved_frame (mem t) ?g = saved_frame (mem s) ?g" using e by (intro saved_frame_cong) (simp add: region_iff)
  moreover have "load64 (mem t) (?g + 56) = load64 (mem s) (?g + 56)" using load_part [of ?g 64 "mem t" "mem s" 56 8] e by (simp add: load64_def)
  moreover have "load64 (mem t) (task + 8) = load64 (mem s) (task + 8)" using load_part [of task 40 "mem t" "mem s" 8 8] e by (simp add: load64_def)
  moreover have "task_cpu (mem t) task = task_cpu (mem s) task" using e [of "task + 24"] by (simp add: task_cpu_def load8_def region_iff)
  ultimately show ?thesis
    using assms(1,3-5) task_fields_cong [of task "mem t" "mem s"] e by (simp add: fresh_task_def Let_def)
qed

text \<open>What a message and the creation of a task never change.\<close>

definition sched_const :: "'z sched_st_scheme \<Rightarrow> 'z sched_st_scheme \<Rightarrow> bool" where
  "sched_const s t \<longleftrightarrow> cpu_locals t = cpu_locals s \<and> idle_task_addr t = idle_task_addr s \<and> task_trampoline_addr t = task_trampoline_addr s \<and>
     task_exit_addr t = task_exit_addr s \<and> cr3 t = cr3 s \<and> heap_span t = heap_span s \<and> log_dirty t = log_dirty s"

lemma sched_const_trans: "sched_const s t \<Longrightarrow> sched_const t u \<Longrightarrow> sched_const s u"
  by (simp add: sched_const_def)

lemma sched_const_parts:
  "sched_const s (s\<lparr>mem := m\<rparr>)" "sched_const s (s\<lparr>next_task_id := i\<rparr>)" "log_frame s t \<Longrightarrow> log_dirty t = log_dirty s \<Longrightarrow> sched_const s t"
proof -
  show "sched_const s t" if "log_frame s t" "log_dirty t = log_dirty s"
  proof -
    have e: "t = s\<lparr>now := now t, events := events t, mem := mem t, cursor_x := cursor_x t, cursor_y := cursor_y t, fg_color := fg_color t,
      bg_color := bg_color t\<rparr>" using that(1) by (simp add: log_frame_def)
    have "heap_span t = heap_span s" by (subst e) (simp add: heap_span_def)
    then show ?thesis using log_frame_sched [OF that(1)] that(2) by (simp add: sched_const_def)
  qed
qed (simp_all add: sched_const_def heap_span_def)

lemma kmalloc_task:
  fixes s :: "'z sched_st_scheme"
  assumes "heap_holds s B"
  obtains p t where "kmalloc sizeof_task s = Ret p t" and "log_dirty t = log_dirty s" and "log_frame s t"
    and "\<forall>(q, k)\<in>B. \<forall>x\<in>span q k - log_dirty s. mem t x = mem s x"
    and "\<forall>x. x \<notin> heap_span s \<longrightarrow> x \<notin> log_dirty s \<longrightarrow> mem t x = mem s x"
    and "p = 0 \<and> heap_holds t B \<or> p \<noteq> 0 \<and> unat p \<notin> fst ` B \<and> (\<exists>k\<ge>16424. heap_holds t (insert (unat p, k) B) \<and> span (unat p) k \<inter> log_dirty s = {})"
    and "\<And>r. heap_room s r \<Longrightarrow> 16424 \<le> r \<Longrightarrow> p \<noteq> 0 \<and> (16464 \<le> r \<longrightarrow> heap_room t (r - 16456))"
    and "p = 0 \<longleftrightarrow> \<not> heap_room s 16424"
proof -
  have sz: "unat sizeof_task = 16424" "0 < sizeof_task" "sizeof_task \<noteq> 0" by (simp_all add: sizeof_task_def TASK_STACK_SIZE_def)
  obtain p t where t: "kmalloc sizeof_task s = Ret p t" "log_frame s t" using kmalloc_frame [OF assms sz(2)] unfolding returns_conv by blast
  have law: "log_dirty t = log_dirty s \<and> (\<forall>(q, k)\<in>B. \<forall>x\<in>span q k - log_dirty s. mem t x = mem s x) \<and>
     (p = 0 \<and> heap_holds t B \<or> p \<noteq> 0 \<and> 8 dvd unat p \<and> unat p \<notin> fst ` B \<and>
       (\<exists>k\<ge>16424. heap_holds t (insert (unat p, k) B) \<and> span (unat p) k \<inter> log_dirty s = {}))"
    using kmalloc_law [OF assms sz(2)] unfolding sz(1) t(1) returns_simps by simp
  have out: "\<forall>x. x \<notin> heap_span s \<longrightarrow> x \<notin> log_dirty s \<longrightarrow> mem t x = mem s x"
    using kmalloc_outside [OF assms sz(2)] unfolding t(1) returns_simps by simp
  have room: "p \<noteq> 0 \<and> (16464 \<le> r \<longrightarrow> heap_room t (r - 16456))" if "heap_room s r" "16424 \<le> r" for r
    using kmalloc_room [OF that(1) sz(3) _ refl] that(2) unfolding sz(1) t(1) returns_simps by simp
  have null: "p = 0 \<longleftrightarrow> \<not> heap_room s 16424"
    using kmalloc_fails [OF assms sz(3)] unfolding sz(1) t(1) returns_simps by simp
  show thesis by (rule that [OF t(1) _ t(2) _ out _ room null]) (use law in auto)
qed

lemma task_create_all:
  fixes s :: "'z sched_st_scheme"
  assumes "heap_holds s B"
  obtains p t where "task_create entry arg s = Ret p t" and "log_ok t" and "sched_const s t"
    and "p \<noteq> 0 \<Longrightarrow> \<exists>k\<ge>16424. heap_holds t (insert (unat p, k) B) \<and> unat p \<notin> fst ` B \<and> span (unat p) k \<inter> log_dirty s = {}"
    and "p \<noteq> 0 \<Longrightarrow> fresh_task t p entry arg (next_task_id s) \<and> next_task_id t = next_task_id s + 1"
    and "p \<noteq> 0 \<Longrightarrow> \<forall>(q, i)\<in>B. \<forall>x\<in>span q i - log_dirty s. mem t x = mem s x"
    and "p \<noteq> 0 \<Longrightarrow> \<forall>x. x \<notin> heap_span s \<longrightarrow> x \<notin> log_dirty s \<longrightarrow> mem t x = mem s x"
    and "\<And>r. heap_room s r \<Longrightarrow> 16424 \<le> r \<Longrightarrow> p \<noteq> 0 \<and> (16464 \<le> r \<longrightarrow> heap_room t (r - 16456))"
    and "p = 0 \<longleftrightarrow> \<not> heap_room s 16424"
proof -
  have sz: "unat sizeof_task = 16424" by (simp add: sizeof_task_def TASK_STACK_SIZE_def)
  obtain p s1 where s1: "kmalloc sizeof_task s = Ret p s1" "log_dirty s1 = log_dirty s"
    "\<forall>(q, k)\<in>B. \<forall>x\<in>span q k - log_dirty s. mem s1 x = mem s x"
    "\<forall>x. x \<notin> heap_span s \<longrightarrow> x \<notin> log_dirty s \<longrightarrow> mem s1 x = mem s x"
    "p = 0 \<and> heap_holds s1 B \<or> p \<noteq> 0 \<and> unat p \<notin> fst ` B \<and> (\<exists>k\<ge>16424. heap_holds s1 (insert (unat p, k) B) \<and> span (unat p) k \<inter> log_dirty s = {})"
    "\<And>r. heap_room s r \<Longrightarrow> 16424 \<le> r \<Longrightarrow> p \<noteq> 0 \<and> (16464 \<le> r \<longrightarrow> heap_room s1 (r - 16456))"
    "p = 0 \<longleftrightarrow> \<not> heap_room s 16424"
    and fr1: "log_frame s s1"
    by (rule kmalloc_task [OF assms]) (rule that)
  have ok1: "log_ok s1" using s1(5) by (auto simp: heap_holds_def)
  let ?s2 = "s1\<lparr>mem := memset p 0 sizeof_task (mem s1)\<rparr>"
  obtain s3 str where s3: "klog LOG_INFO ''task at 0x%x rsp=0x%x'' [VWord p, VWord (load64 (memset p 0 sizeof_task (mem s1)) p)] ?s2 = Ret () s3"
    "logged str ?s2 s3" "log_ok s3" by (rule klog_textE [of ?s2]) (use ok1 task_formats(1) in auto)
  let ?m4 = "task_image p (task_exit_addr s3) (task_trampoline_addr s3) entry arg (next_task_id s3) (cr3 s3) (mem s3)"
  let ?s4 = "s3\<lparr>mem := ?m4, next_task_id := next_task_id s3 + 1\<rparr>"
  have ok4: "log_ok ?s4" using s3(3) by (auto simp: log_ok_defs)
  obtain t str' where t: "klog LOG_INFO ''task %d rsp=0x%x trampoline=0x%x'' [VWord (ucast (task_id ?m4 p)), VWord (load64 ?m4 p),
      VWord (task_trampoline_addr ?s4)] ?s4 = Ret () t" "logged str' ?s4 t" "log_ok t"
    by (rule klog_textE [OF ok4 task_formats(2)])
  have tc: "task_create entry arg s = Ret p t"
    unfolding task_create_steps s1(1) andthen_simps s3(1) Let_def t(1) ..
  note d = s1(2) logged_sel(9) [OF s3(2)] logged_sel(9) [OF t(2)]
  have f3: "log_frame s s3" using log_frame_trans [OF fr1 log_frame_trans [OF mem_frame_upd logged_frame [OF s3(2)]]] .
  have const: "sched_const s t"
    using sched_const_trans [OF sched_const_parts(3) [OF f3] sched_const_trans [OF sched_const_parts(1) sched_const_trans
      [OF sched_const_parts(2) sched_const_parts(3) [OF logged_frame [OF t(2)]]]]] d by simp
  have all: "(\<exists>k\<ge>16424. heap_holds t (insert (unat p, k) B) \<and> unat p \<notin> fst ` B \<and> span (unat p) k \<inter> log_dirty s = {}) \<and>
    (fresh_task t p entry arg (next_task_id s) \<and> next_task_id t = next_task_id s + 1) \<and>
    (\<forall>(q, i)\<in>B. \<forall>x\<in>span q i - log_dirty s. mem t x = mem s x) \<and> (\<forall>x. x \<notin> heap_span s \<longrightarrow> x \<notin> log_dirty s \<longrightarrow> mem t x = mem s x) \<and>
    (\<forall>r. heap_room s1 r \<longrightarrow> heap_room t r)" if "p \<noteq> 0"
  proof -
    from s1(5) that have p: "unat p \<notin> fst ` B \<and> (\<exists>k\<ge>16424. heap_holds s1 (insert (unat p, k) B) \<and> span (unat p) k \<inter> log_dirty s = {})"
      by (elim disjE) simp_all
    then obtain k where k: "k \<ge> 16424" "heap_holds s1 (insert (unat p, k) B)" "span (unat p) k \<inter> log_dirty s = {}" "unat p \<notin> fst ` B"
      by (elim conjE exE)
    have b: "unat p + k \<le> 2 ^ 64" using heap.bound_law [OF k(2)] by simp
    have rg: "region p 16424 = span (unat p) 16424" using span_region [of p 16424] b k(1) by simp
    have sub: "region p 16424 \<subseteq> span (unat p) k" unfolding rg using k(1) by (auto simp: span_iff)
    have clear: "x \<notin> log_dirty s" if "x \<in> region p 16424" for x using that sub k(3) by blast
    have w2: "x \<notin> span (unat p) k \<Longrightarrow> memset p 0 sizeof_task (mem s1) x = mem s1 x" for x using sub sz by (auto simp: memset_spec)
    have h2: "heap_holds ?s2 (insert (unat p, k) B)" by (rule heap_holds_write [OF k(2) _ w2, of "unat p" k]) simp_all
    have h3: "heap_holds s3 (insert (unat p, k) B)" by (rule heap_holds_logged [OF h2 s3(2,3)])
    have z: "\<forall>x\<in>region p 16424. mem s3 x = 0"
      using logged_mem [OF s3(2)] clear d(1) sz by (auto simp: memset_spec)
    note im = task_image_fresh [where ex = "task_exit_addr s3" and tr = "task_trampoline_addr s3" and entry = entry and arg = arg
      and ident = "next_task_id s3" and root = "cr3 s3", OF z refl refl]
    have w4: "x \<notin> span (unat p) k \<Longrightarrow> ?m4 x = mem s3 x" for x using sub im(9) by auto
    have "heap_holds (s3\<lparr>mem := ?m4\<rparr>) (insert (unat p, k) B)" by (rule heap_holds_write [OF h3 _ w4, of "unat p" k]) simp_all
    then have h4: "heap_holds ?s4 (insert (unat p, k) B)" by simp
    have h5: "heap_holds t (insert (unat p, k) B)" by (rule heap_holds_logged [OF h4 t(2,3)])
    note n3 = log_frame_sched [OF f3] and n5 = log_frame_sched [OF logged_frame [OF t(2)]]
    have "fresh_task ?s4 p entry arg (next_task_id s)"
      using im n3(1) by (simp add: fresh_task_def Let_def)
    then have "fresh_task t p entry arg (next_task_id s)"
      by (rule fresh_task_cong) (use logged_mem [OF t(2)] clear d n5 in auto)
    moreover have mt: "mem t x = mem s1 x" if "x \<notin> log_dirty s" "x \<notin> region p 16424" for x
      using that logged_mem [OF t(2)] logged_mem [OF s3(2)] d im(9) sz by (auto simp: memset_spec)
    have "mem t x = mem s x" if "(q, i) \<in> B" "x \<in> span q i - log_dirty s" for q i x
    proof -
      have "span (unat p) k \<inter> span q i = {}" using heap.disjoint_law [OF k(2), of "unat p" k q i] that(1) k(4) by force
      then have "x \<notin> region p 16424" using that(2) sub by blast
      then show ?thesis using mt that s1(3) by auto
    qed
    moreover have "mem t x = mem s x" if "x \<notin> heap_span s" "x \<notin> log_dirty s" for x
    proof -
      have "heap_span s1 = heap_span s" using sched_const_parts(3) [OF fr1 s1(2)] by (simp add: sched_const_def)
      then have "x \<notin> region p 16424" using live_in_heap [OF k(2), of "unat p" k] sub that(1) by auto
      then show ?thesis using mt s1(4) that by auto
    qed
    moreover have "heap_room t r" if "heap_room s1 r" for r
    proof -
      have "heap_room ?s2 r" by (rule heap_room_write [OF that k(2) _ w2, of "unat p" k]) simp_all
      then have "heap_room s3 r" by (rule heap_room_logged [OF _ s3(2)])
      then have "heap_room (s3\<lparr>mem := ?m4\<rparr>) r" by (rule heap_room_write [OF _ h3 _ w4, of _ "unat p" k]) simp_all
      then have "heap_room ?s4 r" by simp
      then show ?thesis by (rule heap_room_logged [OF _ t(2)])
    qed
    ultimately show ?thesis using h5 k(1,3,4) n3(1) n5(1) by auto
  qed
  show thesis by (rule that [OF tc t(3) const _ _ _ _ _ s1(7)]) (use all s1(6) in blast)+
qed

lemma task_create_ok:
  fixes s :: "'z sched_st_scheme"
  assumes "heap_holds s B"
  shows "returns (task_create entry arg s) (\<lambda>task t. log_ok t \<and> (task = 0 \<longleftrightarrow> \<not> heap_room s 16424) \<and> (task \<noteq> 0 \<longrightarrow>
    (\<exists>k\<ge>16424. heap_holds t (insert (unat task, k) B) \<and> unat task \<notin> fst ` B) \<and>
    fresh_task t task entry arg (next_task_id s) \<and> next_task_id t = next_task_id s + 1 \<and>
    (\<forall>(q, i)\<in>B. \<forall>x\<in>span q i - log_dirty s. mem t x = mem s x)))"
  by (rule task_create_all [OF assms, of entry arg]) auto

section \<open>Properties\<close>

text \<open>
  A machine for the witnesses: an empty run queue, a heap of 64 KiB at \<open>0x900000\<close>, processor 1 with its entry of \<open>cpu_locals\<close>, its task at
  \<open>0x700000\<close> on a stack at \<open>0x600000\<close>.
\<close>

definition demo_sched :: sched_st where
  "demo_sched = dev_st.extend (demo_dev\<lparr>g_heap_total_size := 0x10000, mem := first_block 0x900000 0x10000 (\<lambda>_. 0), mmio_in := (\<lambda>a t. 0x1000000)\<rparr>)
     \<lparr>rq_head = 0, rq_tail = 0, rq_lock = 0, rq_count = 0, next_task_id = 7, cpu_locals = 0x500000, task_exit_addr = 0x101000,
      task_trampoline_addr = 0x102000, idle_task_addr = 0x103000, rsp = 0x601000, rbp = 1, rbx = 2, r12 = 3, r13 = 4, r14 = 5, r15 = 6, rip = 0\<rparr>"

lemma demo_sched_sel [simp]:
  "rq_lock demo_sched = 0" "rq_head demo_sched = 0" "rq_tail demo_sched = 0" "rq_count demo_sched = 0" "next_task_id demo_sched = 7"
  "cpu_locals demo_sched = 0x500000" "rsp demo_sched = 0x601000" "rbp demo_sched = 1" "rbx demo_sched = 2" "r12 demo_sched = 3"
  "r13 demo_sched = 4" "r14 demo_sched = 5" "r15 demo_sched = 6" "mem demo_sched = first_block 0x900000 0x10000 (\<lambda>_. 0)"
  "mmio_in demo_sched = (\<lambda>a t. 0x1000000)" "task_trampoline_addr demo_sched = 0x102000" "task_exit_addr demo_sched = 0x101000"
  by (simp_all add: demo_sched_def dev_st.defs)

lemma demo_sched_queue: "queue_ok demo_sched []"
  by (simp add: queue_ok_def)

lemma demo_sched_log: "log_ok demo_sched" "log_dirty demo_sched = span 0x800000 48 \<union> span 0xFD000000 128"
proof -
  have e: "log_ok demo_sched = log_ok demo_heap" "log_dirty demo_sched = log_dirty demo_heap"
    by (simp_all add: demo_sched_def demo_dev_def demo_acpi_def dev_st.defs acpi_st.defs heap_st.defs log_ok_defs)
  then show "log_ok demo_sched" using demo_heap_log(1) by simp
  have "log_dirty demo_log = region 0x800000 48 \<union> region 0xFD000000 128" by (simp add: log_ok_defs demo_log_def con_st.defs)
  then show "log_dirty demo_sched = span 0x800000 48 \<union> span 0xFD000000 128"
    using e(2) demo_heap_log span_region [of "0x800000" 48] span_region [of "0xFD000000" 128] by simp
qed

lemma demo_sched_heap: "heap_holds demo_sched {}"
  and demo_sched_room: "heap_room demo_sched 16424"
proof -
  have c: "log_dirty demo_sched \<inter> span 0x900000 0x10000 = {}" unfolding demo_sched_log(2) by (auto simp: span_iff)
  have g: "g_heap_start demo_sched = 0x900000" "g_heap_total_size demo_sched = 0x10000"
    by (simp_all add: demo_sched_def demo_dev_def demo_acpi_def dev_st.defs acpi_st.defs heap_st.defs)
  have h: "heap_ok demo_sched [Blk 65504 True]"
    using first_block_heap [of "0x10000" "0x900000" "\<lambda>_. 0"] c g by (simp add: heap_ok_def sizes_aligned_def demo_sched_log(1))
  then show "heap_holds demo_sched {}" unfolding heap_holds_def using demo_sched_log(1) by (auto intro!: exI [of _ "[Blk 65504 True]"])
  show "heap_room demo_sched 16424" using h by (auto simp: heap_room_def)
qed

text \<open>
  C10. The run queue is a first-in first-out queue: when tasks are appended to a queue and all of them are taken out again, every
  operation returns and the tasks come out in the order in which they went in, the ones that were there first of all; the queue is
  empty and well formed afterwards.
\<close>

theorem run_queue_fifo:
  assumes "queue_ok s q" and "apart (q @ ts)"
  shows "\<exists>u. andthen (run_all scheduler_enqueue ts s) (\<lambda>_ s. drain scheduler_dequeue (length q + length ts) s) = Ret (q @ ts) u \<and> queue_ok u []"
  using rq.fifo_order [OF assms] by (auto simp: returns_conv)

theorem run_queue_fifo_witness:
  "\<exists>u. andthen (run_all scheduler_enqueue [0x700000, 0x710000] demo_sched) (\<lambda>_ s. drain scheduler_dequeue (Suc (Suc 0)) s) = Ret [0x700000, 0x710000] u \<and>
    queue_ok u []"
  using run_queue_fifo [OF demo_sched_queue, of "[0x700000, 0x710000]"] by (simp add: apart_def separate_def)

text \<open>
  C12. Creating a task always returns, and it returns null exactly when no free block of the heap has room for a task. Otherwise the
  task lies in a fresh heap block, all other blocks stay as they were, and the task is ready, has the next number, belongs to no
  processor, and its saved stack pointer points at a frame that the switch can load, with the trampoline as return address and
  \<open>task_exit\<close> above it.
\<close>

theorem task_create_fresh:
  assumes "heap_holds s B"
  shows "\<exists>task t. task_create entry arg s = Ret task t \<and> log_ok t \<and> (task = 0 \<longleftrightarrow> \<not> heap_room s 16424) \<and> (task \<noteq> 0 \<longrightarrow>
    (\<exists>k\<ge>16424. heap_holds t (insert (unat task, k) B) \<and> unat task \<notin> fst ` B) \<and>
    fresh_task t task entry arg (next_task_id s) \<and> next_task_id t = next_task_id s + 1 \<and>
    (\<forall>(q, i)\<in>B. \<forall>x\<in>span q i - log_dirty s. mem t x = mem s x))"
  using task_create_ok [OF assms, of entry arg] unfolding returns_conv by blast

theorem task_create_fresh_witness:
  "\<exists>task (t :: sched_st). task_create 0x104000 0x55 demo_sched = Ret task t \<and> task \<noteq> 0 \<and> fresh_task t task 0x104000 0x55 7"
  using task_create_fresh [OF demo_sched_heap, of "0x104000" "0x55"] demo_sched_room by auto

text \<open>
  C11. A task that is switched away continues where it stopped when some processor switches back to it: registers, stack pointer and
  return address are those of the call, provided nobody has written to its saved words in between and the stacks and tasks involved
  do not overlap.
\<close>

theorem switch_resumes:
  assumes "u = scheduler_context_switch a b s" and "v = scheduler_context_switch c a w"
    and "\<forall>x\<in>region (rsp s - 48) 56 \<union> region a 8. mem w x = mem u x"
    and "separate (rsp s - 48) 56 a 8"
    and "separate (rsp s - 48) 56 (rsp w - 48) 48" and "separate (rsp s - 48) 56 c 8"
    and "separate a 8 (rsp w - 48) 48" and "separate a 8 c 8"
  shows "rip v = load64 (mem s) (rsp s) \<and> rsp v = rsp s + 8 \<and> rbp v = rbp s \<and> rbx v = rbx s \<and> r12 v = r12 s \<and> r13 v = r13 s \<and>
    r14 v = r14 s \<and> r15 v = r15 s"
proof -
  define g where "g = rsp s - 48"
  have g: "rsp s = g + 48" by (simp add: g_def)
  let ?mu = "store64 (pushed s) a g"
  have mu: "mem u = ?mu" unfolding assms(1) by (simp add: switch_result g)
  have fu: "saved_frame ?mu g = [r15 s, r14 s, r13 s, r12 s, rbx s, rbp s, load64 (mem s) (g + 48)]"
    unfolding pushed_frame(1) [OF g, symmetric]
    by (rule saved_frame_cong) (use separate_disjoint [OF assms(4)] in \<open>simp add: store64_outside g_def\<close>)
  let ?mv = "store64 (pushed w) c (rsp w - 48)"
  have w: "rsp w = (rsp w - 48) + 48" by simp
  have mv: "?mv x = mem u x" if "x \<in> region g 56 \<union> region a 8" for x
  proof -
    have "x \<notin> region c 8" "x \<notin> region (rsp w - 48) 48"
      using that separate_disjoint [OF assms(5)] separate_disjoint [OF assms(6)] separate_disjoint [OF assms(7)] separate_disjoint [OF assms(8)]
      by (auto simp: g_def)
    then have "?mv x = mem w x" using pushed_frame(2) [OF w] by (simp add: store64_outside)
    then show ?thesis using assms(3) that by (auto simp: g_def)
  qed
  have "load64 ?mv a = load64 ?mu a" using mv mu by (intro load64_cong) simp
  then have n: "load64 ?mv a = g" by simp
  have "saved_frame ?mv g = saved_frame ?mu g" using mv mu by (intro saved_frame_cong) simp
  then show ?thesis unfolding assms(2) switch_result n fu using g by simp
qed

theorem switch_resumes_witness:
  "let u = scheduler_context_switch 0x700000 0x710000 demo_sched; v = scheduler_context_switch 0x710000 0x700000 (u\<lparr>rsp := 0x605000\<rparr>)
   in rsp v = 0x601008 \<and> r12 v = 3 \<and> r13 v = 4 \<and> rbp v = 1"
  using switch_resumes [OF refl refl, where a = "0x700000" and b = "0x710000" and c = "0x710000" and s = demo_sched and
      w = "scheduler_context_switch 0x700000 0x710000 demo_sched\<lparr>rsp := 0x605000\<rparr>"]
  by (simp add: separate_def Let_def)

text \<open>
  C39. The first switch to a new task: it continues in \<open>task_trampoline\<close> on the task's own stack with \<open>task_exit\<close> as return address, but
  with the argument in R12 and the function in R13. The trampoline takes them the other way round and calls the argument as a
  function, with the function as its argument.
\<close>

theorem first_switch_swaps:
  assumes "fresh_task s task entry arg ident" and "v = scheduler_context_switch old task s"
    and "separate task 16424 (rsp s - 48) 48" and "separate task 16424 old 8"
  shows "rip v = task_trampoline_addr s \<and> r12 v = arg \<and> r13 v = entry \<and> task_trampoline v = (arg, entry) \<and>
    rsp v = task + 16416 \<and> load64 (mem v) (rsp v) = task_exit_addr s"
proof -
  let ?m = "store64 (pushed s) old (rsp s - 48)" and ?g = "task + 16360"
  have g: "task + 40 + TASK_STACK_SIZE - 64 = ?g" by (simp add: TASK_STACK_SIZE_def)
  note f = assms(1) [unfolded fresh_task_def Let_def g]
  have w: "rsp s = (rsp s - 48) + 48" by simp
  have m: "?m x = mem s x" if "x \<in> region task 16424" for x
    using that separate_disjoint [OF assms(3)] separate_disjoint [OF assms(4)] pushed_frame(2) [OF w] by (simp add: store64_outside)
  have part: "load 8 ?m (task + of_nat i) = load 8 (mem s) (task + of_nat i)" if "i + 8 \<le> 16424" for i
    using load_part [of task 16424 ?m "mem s" i 8] m that by simp
  have n: "load64 ?m task = ?g" using part [of 0] f by (simp add: load64_def)
  have e: "load64 ?m (?g + 56) = task_exit_addr s" using part [of 16416] f by (simp add: load64_def add.assoc)
  have "x \<in> region task 16424" if "x \<in> region ?g 56" for x
    using that part_outside [of x task 16424 16360 56] by auto
  then have "saved_frame ?m ?g = saved_frame (mem s) ?g" using m by (intro saved_frame_cong) blast
  then have fr: "saved_frame ?m ?g = [0, 0, entry, arg, 0, 0, task_trampoline_addr s]" using f by simp
  show ?thesis unfolding assms(2) switch_result n fr using e by (simp add: task_trampoline_def)
qed

theorem first_switch_swaps_witness:
  "let v = scheduler_context_switch 0x700000 0x720000 (demo_sched\<lparr>mem := task_image 0x720000 0x101000 0x102000 0x104000 0x55 7 (cr3 demo_sched) (\<lambda>_. 0)\<rparr>)
   in rip v = 0x102000 \<and> task_trampoline v = (0x55, 0x104000)"
proof -
  let ?s = "demo_sched\<lparr>mem := task_image 0x720000 0x101000 0x102000 0x104000 0x55 7 (cr3 demo_sched) (\<lambda>_. 0)\<rparr>"
  note im = task_image_fresh [where task = "0x720000" and ex = "0x101000" and tr = "0x102000" and entry = "0x104000" and arg = "0x55"
      and ident = 7 and root = "cr3 demo_sched" and m = "\<lambda>_. 0", OF _ refl refl]
  have "fresh_task ?s 0x720000 0x104000 0x55 7" using im by (simp add: fresh_task_def Let_def)
  then show ?thesis using first_switch_swaps [of ?s "0x720000" "0x104000" "0x55" 7 _ "0x700000", OF _ refl] by (simp add: separate_def Let_def)
qed

end
