(* ===== verification/Smp_Spec.thy ===== *)
theory Smp_Spec
  imports Smp Scheduler_Spec
begin

text \<open>
  Properties of the start of the other processors: the messages and the data each of them gets, how long the boot processor waits for
  it on devices that answer, and where their stacks lie.
\<close>

section \<open>Devices that answer\<close>

text \<open>
  The timer's counter keeps running: whatever it reads, some later reading is at least the waits of the start-up ahead of it, as words
  of 64 bits. The interrupt controller reports the delivery of every message sooner or later. Neither is an assumption the code can do
  without: when a counter never gets past the target, as one of 32 bits does near its end, \<open>hpet_sleep_us\<close> runs for ever.
\<close>

definition hpet_live :: "'z dev_st_scheme \<Rightarrow> bool" where
  "hpet_live s \<longleftrightarrow> (\<forall>us\<in>{1000, 10000}. \<forall>t. \<exists>n>t.
     mmio_in s (hpet_base s + 0xF0) t + us * hpet_freq s div 1000000 \<le> mmio_in s (hpet_base s + 0xF0) n)"

definition ipi_live :: "'z dev_st_scheme \<Rightarrow> bool" where
  "ipi_live s \<longleftrightarrow> (\<forall>t. \<exists>n\<ge>t. mmio_in s (lapic_base s + 0x300) n AND 0x1000 = 0)"

lemma live_upd [simp]:
  "hpet_live (s\<lparr>now := t\<rparr>) = hpet_live s" "hpet_live (s\<lparr>events := e\<rparr>) = hpet_live s" "hpet_live (s\<lparr>mem := m\<rparr>) = hpet_live s"
  "ipi_live (s\<lparr>now := t\<rparr>) = ipi_live s" "ipi_live (s\<lparr>events := e\<rparr>) = ipi_live s" "ipi_live (s\<lparr>mem := m\<rparr>) = ipi_live s"
  by (simp_all add: hpet_live_def ipi_live_def)

text \<open>A counter that advances by \<open>r\<close> from one reading to the next, through the wrap-around too, keeps running for waits of multiples of \<open>r\<close>.\<close>

lemma steady_counter_live:
  assumes "\<And>n. mmio_in s (hpet_base s + 0xF0) n = of_nat (a + r * n)" and "0 < k" "0 < l"
    and "1000 * hpet_freq s div 1000000 = of_nat (r * k)" and "10000 * hpet_freq s div 1000000 = of_nat (r * l)"
  shows "hpet_live s"
proof -
  have "mmio_in s (hpet_base s + 0xF0) t + of_nat (r * d) = mmio_in s (hpet_base s + 0xF0) (t + d)" for t d
    by (simp add: assms(1) algebra_simps)
  then have "\<exists>n>t. mmio_in s (hpet_base s + 0xF0) t + of_nat (r * d) \<le> mmio_in s (hpet_base s + 0xF0) n" if "0 < d" for t d
    using that by (intro exI [of _ "t + d"]) simp
  then show ?thesis using assms(2-5) by (simp add: hpet_live_def del: of_nat_mult)
qed

lemma log_time [simp]:
  "log_ok (s\<lparr>now := t\<rparr>) = log_ok s" "log_ok (s\<lparr>events := e\<rparr>) = log_ok s" "log_dirty (s\<lparr>now := t\<rparr>) = log_dirty s" "log_dirty (s\<lparr>events := e\<rparr>) = log_dirty s"
  by (simp_all add: log_ok_defs)

text \<open>
  \<open>slept s us a b\<close>: a wait of \<open>us\<close> microseconds from time \<open>a\<close> ends at \<open>b\<close>, after the first reading that is that much ahead of the one at \<open>a\<close>.
  \<open>delivered s a b\<close>: the first reading from \<open>a\<close> on that shows a message as delivered is the last one before \<open>b\<close>.
\<close>

definition slept :: "'z dev_st_scheme \<Rightarrow> u64 \<Rightarrow> nat \<Rightarrow> nat \<Rightarrow> bool" where
  "slept s us a b \<longleftrightarrow> (let c = mmio_in s (hpet_base s + 0xF0); target = c a + us * hpet_freq s div 1000000 in
     \<exists>n>a. b = Suc n \<and> target \<le> c n \<and> (\<forall>j. a < j \<and> j < n \<longrightarrow> c j < target))"

definition delivered :: "'z dev_st_scheme \<Rightarrow> nat \<Rightarrow> nat \<Rightarrow> bool" where
  "delivered s a b \<longleftrightarrow> (let busy = (\<lambda>n. mmio_in s (lapic_base s + 0x300) n AND 0x1000 \<noteq> 0) in
     \<exists>n\<ge>a. b = Suc n \<and> \<not> busy n \<and> (\<forall>j. a \<le> j \<and> j < n \<longrightarrow> busy j))"

lemma times_upd [simp]:
  "slept (s\<lparr>now := t\<rparr>) = slept s" "slept (s\<lparr>events := e\<rparr>) = slept s" "delivered (s\<lparr>now := t\<rparr>) = delivered s" "delivered (s\<lparr>events := e\<rparr>) = delivered s"
  by (simp_all add: slept_def delivered_def fun_eq_iff)

lemma hpet_sleep_returns:
  assumes "hpet_live s" and "us \<in> {1000, 10000}"
  obtains m where "hpet_sleep_us us s = Ret () (s\<lparr>now := m\<rparr>)" and "slept s us (now s) m"
proof -
  let ?c = "mmio_in s (hpet_base s + 0xF0)"
  define target where "target = ?c (now s) + (us * hpet_freq s) div 1000000"
  have rd: "hpet_ticks (s\<lparr>now := t\<rparr>) = (?c t, s\<lparr>now := Suc t\<rparr>)" for t
    by (simp add: hpet_ticks_def hpet_read_def mmio_read64_def hpet_reg_defs)
  obtain n where "Suc (now s) \<le> n" "target \<le> ?c n" using assms unfolding hpet_live_def target_def by (meson Suc_leI)
  then obtain k where k: "target \<le> ?c (Suc (now s) + k)" "\<And>j. j < k \<Longrightarrow> \<not> target \<le> ?c (Suc (now s) + j)"
    using first_time [of "\<lambda>n. target \<le> ?c n" n "Suc (now s)"] by blast
  let ?L = "loop (\<lambda>t s. t < target) (\<lambda>_ s. let (t, s) = hpet_ticks s in Ret t s)"
  have "?L (?c (Suc (now s))) (s\<lparr>now := Suc (Suc (now s))\<rparr>) = Ret (?c (Suc (now s) + k)) (s\<lparr>now := Suc (Suc (now s) + k)\<rparr>)"
    by (rule loop_poll [where test = "\<lambda>v. v < target"]) (use k rd in \<open>auto simp: not_le\<close>)
  moreover have "hpet_sleep_us us s = andthen (?L (?c (Suc (now s))) (s\<lparr>now := Suc (Suc (now s))\<rparr>)) (\<lambda>_ s. Ret () s)"
    using rd [of "now s"] rd [of "Suc (now s)"] by (simp add: hpet_sleep_us_def Let_def target_def)
  moreover have "?c j < target" if "now s < j" "j < Suc (now s) + k" for j
  proof -
    have "j - Suc (now s) < k" using that by linarith
    from k(2) [OF this] show ?thesis using that(1) by (simp add: not_le)
  qed
  then have "slept s us (now s) (Suc (Suc (now s) + k))"
    using k(1) unfolding slept_def Let_def target_def by (intro exI [of _ "Suc (now s) + k"]) simp
  ultimately show thesis using that [of "Suc (Suc (now s) + k)"] by simp
qed

definition ipi :: "'z dev_st_scheme \<Rightarrow> u8 \<Rightarrow> u32 \<Rightarrow> hw_event list" where
  "ipi s apic_id flags = [Mmio32 (lapic_base s + 0x310) (push_bit 24 (ucast apic_id)), Mmio32 (lapic_base s + 0x300) flags]"

lemma ipi_upd [simp]: "ipi (s\<lparr>now := t\<rparr>) = ipi s" "ipi (s\<lparr>events := e\<rparr>) = ipi s" "ipi (s\<lparr>mem := m\<rparr>) = ipi s"
  by (simp_all add: ipi_def fun_eq_iff)

lemma send_ipi_returns:
  assumes "ipi_live s"
  obtains m where "lapic_send_ipi apic_id flags s = Ret () (s\<lparr>now := m, events := events s @ ipi s apic_id flags\<rparr>)" and "delivered s (now s) m"
proof -
  obtain n where "now s \<le> n" "mmio_in s (lapic_base s + 0x300) n AND 0x1000 = 0" using assms unfolding ipi_live_def by blast
  then obtain n where "n \<ge> now s" "mmio_in s (lapic_base s + 0x300) n AND 0x1000 = 0"
    "\<forall>j. now s \<le> j \<and> j < n \<longrightarrow> mmio_in s (lapic_base s + 0x300) j AND 0x1000 \<noteq> 0"
    "lapic_send_ipi apic_id flags s = Ret () (s\<lparr>now := Suc n, events := events s @ ipi s apic_id flags\<rparr>)"
    using lapic_send_ipi_result [of s apic_id flags] by (auto simp: ipi_def)
  then show thesis using that [of "Suc n"] by (auto simp: delivered_def)
qed

text \<open>The whole sequence of messages, and the times it takes: 10 ms after the first message, 1 ms after each of the other two.\<close>

definition start_sequence :: "'z dev_st_scheme \<Rightarrow> u8 \<Rightarrow> hw_event list" where
  "start_sequence s apic_id = ipi s apic_id 0x4500 @ ipi s apic_id 0x4608 @ ipi s apic_id 0x4608"

definition start_times :: "'z dev_st_scheme \<Rightarrow> nat \<Rightarrow> nat \<Rightarrow> bool" where
  "start_times s a b \<longleftrightarrow> (\<exists>d1 w1 d2 w2 d3. delivered s a d1 \<and> slept s 10000 d1 w1 \<and> delivered s w1 d2 \<and> slept s 1000 d2 w2 \<and>
     delivered s w2 d3 \<and> slept s 1000 d3 b)"

lemma send_start_returns:
  assumes "hpet_live s" and "ipi_live s"
  obtains m where "send_start apic_id s = Ret () (s\<lparr>now := m, events := events s @ start_sequence s apic_id\<rparr>)" and "start_times s (now s) m"
proof -
  obtain m1 where 1: "lapic_send_ipi apic_id 0x4500 s = Ret () (s\<lparr>now := m1, events := events s @ ipi s apic_id 0x4500\<rparr>)" "delivered s (now s) m1"
    by (rule send_ipi_returns [OF assms(2)])
  let ?s1 = "s\<lparr>now := m1, events := events s @ ipi s apic_id 0x4500\<rparr>"
  obtain m2 where 2: "hpet_sleep_us 10000 ?s1 = Ret () (?s1\<lparr>now := m2\<rparr>)" "slept ?s1 10000 (now ?s1) m2"
    by (rule hpet_sleep_returns [of ?s1 10000]) (use assms in auto)
  let ?s2 = "?s1\<lparr>now := m2\<rparr>"
  obtain m3 where 3: "lapic_send_ipi apic_id 0x4608 ?s2 = Ret () (?s2\<lparr>now := m3, events := events ?s2 @ ipi ?s2 apic_id 0x4608\<rparr>)" "delivered ?s2 (now ?s2) m3"
    by (rule send_ipi_returns [of ?s2]) (use assms in auto)
  let ?s3 = "?s2\<lparr>now := m3, events := events ?s2 @ ipi ?s2 apic_id 0x4608\<rparr>"
  obtain m4 where 4: "hpet_sleep_us 1000 ?s3 = Ret () (?s3\<lparr>now := m4\<rparr>)" "slept ?s3 1000 (now ?s3) m4"
    by (rule hpet_sleep_returns [of ?s3 1000]) (use assms in auto)
  let ?s4 = "?s3\<lparr>now := m4\<rparr>"
  obtain m5 where 5: "lapic_send_ipi apic_id 0x4608 ?s4 = Ret () (?s4\<lparr>now := m5, events := events ?s4 @ ipi ?s4 apic_id 0x4608\<rparr>)" "delivered ?s4 (now ?s4) m5"
    by (rule send_ipi_returns [of ?s4]) (use assms in auto)
  let ?s5 = "?s4\<lparr>now := m5, events := events ?s4 @ ipi ?s4 apic_id 0x4608\<rparr>"
  obtain m6 where 6: "hpet_sleep_us 1000 ?s5 = Ret () (?s5\<lparr>now := m6\<rparr>)" "slept ?s5 1000 (now ?s5) m6"
    by (rule hpet_sleep_returns [of ?s5 1000]) (use assms in auto)
  have "send_start apic_id s = Ret () (?s5\<lparr>now := m6\<rparr>)"
    unfolding send_start_def hpet_sleep_ms_def using 1(1) 2(1) 3(1) 4(1) 5(1) 6(1) by simp
  moreover have "start_times s (now s) m6"
    unfolding start_times_def using 1(2) 2(2) 3(2) 4(2) 5(2) 6(2) by simp blast
  ultimately show thesis using that [of m6] by (simp add: start_sequence_def)
qed

section \<open>Waiting for a processor\<close>

lemma smp_formats:
  "plain_format ''AP cpu=%d timed out'' [VWord a]" "plain_format ''Starting AP cpu=%d apic_id=%d'' [VWord a, VWord b]"
  by (simp_all add: plain_format_def format_simps)

abbreviation waiting :: "u32 \<Rightarrow> u32 \<times> u64 \<times> bool \<Rightarrow> 'z smp_st_scheme \<Rightarrow> bool" where
  "waiting expected \<equiv> (\<lambda>(started, timeout, brk) s. \<not> brk \<and> started < expected)"

text \<open>
  \<open>rounds s expected f k\<close>: the count is read at the times \<open>f 0\<close>, \<open>f 1\<close>, \dots; the first \<open>k\<close> readings are below \<open>expected\<close>, and each is followed by a
  wait of 1 ms that ends at the time of the next one. \<open>waited\<close> is the outcome of waiting from \<open>s\<close> on: the count was seen to reach
  \<open>expected\<close> in one of the first 5000 readings and nothing but time has passed, or it was not and after exactly 5000 waits the warning
  was logged.
\<close>

definition rounds :: "'z smp_st_scheme \<Rightarrow> u32 \<Rightarrow> (nat \<Rightarrow> nat) \<Rightarrow> nat \<Rightarrow> bool" where
  "rounds s expected f k \<longleftrightarrow> (\<forall>i<k. aps_own s + aps_others s (f i) < expected \<and> slept s 1000 (Suc (f i)) (f (Suc i)))"

definition wait_end :: "nat \<Rightarrow> u8 \<Rightarrow> u32 \<Rightarrow> nat \<Rightarrow> 'z smp_st_scheme \<Rightarrow> 'z smp_st_scheme \<Rightarrow> bool" where
  "wait_end limit cpu expected n s t \<longleftrightarrow> log_ok t \<and> (\<exists>f k. f 0 = n \<and> rounds s expected f k \<and>
     (k < limit \<and> expected \<le> aps_own s + aps_others s (f k) \<and> t = s\<lparr>now := Suc (f k)\<rparr> \<or>
      k = limit \<and> logged (level_tag LOG_WARN @ text_of ''AP cpu=%d timed out'' [VWord (ucast cpu)] @ newline) (s\<lparr>now := f k\<rparr>) t))"

definition waited :: "u8 \<Rightarrow> u32 \<Rightarrow> 'z smp_st_scheme \<Rightarrow> 'z smp_st_scheme \<Rightarrow> bool" where
  "waited cpu expected s t \<longleftrightarrow> wait_end 5000 cpu expected (now s) s t"

lemma rounds_Cons:
  assumes "aps_own s + aps_others s n < expected" and "slept s 1000 (Suc n) (f 0)" and "rounds s expected f k"
  shows "rounds s expected (case_nat n f) (Suc k)"
  using assms unfolding rounds_def by (auto split: nat.split simp: less_Suc_eq_0_disj)

lemma wait_end_Suc:
  assumes "aps_own s + aps_others s n < expected" and "slept s 1000 (Suc n) m" and "wait_end limit cpu expected m s t"
  shows "wait_end (Suc limit) cpu expected n s t"
proof -
  obtain f k where f: "f 0 = m" "rounds s expected f k"
    and e: "k < limit \<and> expected \<le> aps_own s + aps_others s (f k) \<and> t = s\<lparr>now := Suc (f k)\<rparr> \<or>
      k = limit \<and> logged (level_tag LOG_WARN @ text_of ''AP cpu=%d timed out'' [VWord (ucast cpu)] @ newline) (s\<lparr>now := f k\<rparr>) t"
    using assms(3) unfolding wait_end_def by blast
  have "rounds s expected (case_nat n f) (Suc k)" using rounds_Cons [OF assms(1) _ f(2)] assms(2) f(1) by simp
  then show ?thesis using e assms(3) unfolding wait_end_def by (intro conjI exI [of _ "case_nat n f"] exI [of _ "Suc k"]) auto
qed

lemma wait_loop:
  fixes s :: "'z smp_st_scheme"
  assumes "hpet_live s" and "log_ok s" and "0 < timeout"
  shows "returns (loop (waiting expected) (wait_step cpu) (aps_own s + aps_others s n, timeout, False) (s\<lparr>now := Suc n\<rparr>))
    (\<lambda>_ t. wait_end (unat timeout) cpu expected n s t)"
  using assms(3)
proof (induction "unat timeout" arbitrary: timeout n rule: less_induct)
  case less
  let ?c = "aps_own s + aps_others s n"
  show ?case
  proof (cases "?c < expected")
    case False
    have "0 < unat timeout" using less.prems by (simp add: word_less_nat_alt)
    then have "wait_end (unat timeout) cpu expected n s (s\<lparr>now := Suc n\<rparr>)"
      using False assms(2) unfolding wait_end_def by (auto simp: rounds_def not_less intro!: exI [of _ "\<lambda>_. n"] exI [of _ 0])
    then show ?thesis using False by (subst loop_unfold) simp
  next
    case True
    have "hpet_live (s\<lparr>now := Suc n\<rparr>)" "(1000 :: u64) \<in> {1000, 10000}" using assms(1) by simp_all
    then obtain m where "hpet_sleep_us 1000 (s\<lparr>now := Suc n\<rparr>) = Ret () (s\<lparr>now := Suc n\<rparr>\<lparr>now := m\<rparr>)" "slept (s\<lparr>now := Suc n\<rparr>) 1000 (now (s\<lparr>now := Suc n\<rparr>)) m"
      by (rule hpet_sleep_returns)
    then have m: "hpet_sleep_us 1000 (s\<lparr>now := Suc n\<rparr>) = Ret () (s\<lparr>now := m\<rparr>)" "slept s 1000 (Suc n) m" by simp_all
    have un: "unat timeout = Suc (unat (timeout - 1))"
      using less.prems unat_sub [of 1 timeout] by (simp add: word_less_nat_alt word_le_nat_alt)
    show ?thesis
    proof (cases "timeout - 1 = 0")
      case t0: True
      have okm: "log_ok (s\<lparr>now := m\<rparr>)" using assms(2) by simp
      obtain t where t: "klog LOG_WARN ''AP cpu=%d timed out'' [VWord (ucast cpu)] (s\<lparr>now := m\<rparr>) = Ret () t"
        "logged (level_tag LOG_WARN @ text_of ''AP cpu=%d timed out'' [VWord (ucast cpu)] @ newline) (s\<lparr>now := m\<rparr>) t" "log_ok t"
        by (rule klog_textE [OF okm smp_formats(1)])
      have "wait_end 0 cpu expected m s t"
        using t(2,3) unfolding wait_end_def by (auto simp: rounds_def intro!: exI [of _ "\<lambda>_. m"])
      from wait_end_Suc [OF True m(2) this] have "wait_end (unat timeout) cpu expected n s t" using un t0 by simp
      moreover have "wait_step cpu (?c, timeout, False) (s\<lparr>now := Suc n\<rparr>) = Ret (?c, 0, True) t"
        unfolding wait_step_def hpet_sleep_ms_def using m(1) t(1) t0 by (simp add: Let_def)
      ultimately show ?thesis using True by (subst loop_unfold, simp) (subst loop_unfold, simp)
    next
      case t1: False
      have w: "wait_step cpu (?c, timeout, False) (s\<lparr>now := Suc n\<rparr>) = Ret (aps_own s + aps_others s m, timeout - 1, False) (s\<lparr>now := Suc m\<rparr>)"
        unfolding wait_step_def hpet_sleep_ms_def using m(1) t1 by (simp add: Let_def aps_started_def)
      have "0 < timeout - 1" using t1 by (simp only: word_gt_0)
      from less.hyps [OF _ this, of m] un
      have "returns (loop (waiting expected) (wait_step cpu) (aps_own s + aps_others s m, timeout - 1, False) (s\<lparr>now := Suc m\<rparr>))
        (\<lambda>_ t. wait_end (unat timeout) cpu expected n s t)" using wait_end_Suc [OF True m(2)] by (auto elim!: returns_weaken)
      then show ?thesis using True w by (subst loop_unfold) simp
    qed
  qed
qed

lemma wait_ap_returns:
  assumes "hpet_live s" and "log_ok s"
  shows "returns (wait_ap cpu expected s) (\<lambda>_ t. waited cpu expected s t)"
  using wait_loop [OF assms, of 5000 expected cpu "now s"] unfolding wait_ap_def waited_def by (simp add: aps_started_def)

section \<open>The data for a processor\<close>

lemma patch_ap_reads:
  fixes tr :: trampoline
  defines "p \<equiv> tramp_at tr trampoline_pml4" and "k \<equiv> tramp_at tr trampoline_stack" and "e \<equiv> tramp_at tr trampoline_entry"
  assumes "separate p 4 k 8" and "separate p 4 e 8" and "separate k 8 e 8"
  shows "load32 (patch_ap tr root stack entry m) p = ucast root" "load64 (patch_ap tr root stack entry m) k = stack"
    "load64 (patch_ap tr root stack entry m) e = entry"
    "x \<notin> region p 4 \<union> region k 8 \<union> region e 8 \<Longrightarrow> patch_ap tr root stack entry m x = m x"
  using assms(4-6) unfolding patch_ap_def Let_def p_def [symmetric] k_def [symmetric] e_def [symmetric]
  by (simp_all add: mixed_accesses load64_store64_separate store64_outside write_outside)

text \<open>The three words that the boot processor fills in do not overlap, and the console does not write to them.\<close>

definition ap_data_apart :: "'z smp_st_scheme \<Rightarrow> bool" where
  "ap_data_apart s \<longleftrightarrow> (let p = tramp_at (tramp s) trampoline_pml4; k = tramp_at (tramp s) trampoline_stack; e = tramp_at (tramp s) trampoline_entry in
     separate p 4 k 8 \<and> separate p 4 e 8 \<and> separate k 8 e 8 \<and> (region p 4 \<union> region k 8 \<union> region e 8) \<inter> log_dirty s = {})"

definition ap_data :: "'z smp_st_scheme \<Rightarrow> u64 \<Rightarrow> u8 \<Rightarrow> memory \<Rightarrow> bool" where
  "ap_data s root cpu m \<longleftrightarrow> load32 m (tramp_at (tramp s) trampoline_pml4) = ucast root \<and>
     load64 m (tramp_at (tramp s) trampoline_stack) = get_ap_stack cpu s \<and> load64 m (tramp_at (tramp s) trampoline_entry) = ap_main_addr s"

lemma ap_data_cong:
  assumes "ap_data s root cpu m" and "ap_data_apart s" and "\<And>x. x \<notin> log_dirty s \<Longrightarrow> m' x = m x"
  shows "ap_data s root cpu m'"
proof -
  let ?p = "tramp_at (tramp s) trampoline_pml4" and ?k = "tramp_at (tramp s) trampoline_stack" and ?e = "tramp_at (tramp s) trampoline_entry"
  have "m' x = m x" if "x \<in> region ?p 4 \<union> region ?k 8 \<union> region ?e 8" for x
    using assms(2,3) that unfolding ap_data_apart_def Let_def by blast
  then have "load 4 m' ?p = load 4 m ?p" "load 8 m' ?k = load 8 m ?k" "load 8 m' ?e = load 8 m ?e"
    using load_part [of ?p 4 m' m 0 4] load_part [of ?k 8 m' m 0 8] load_part [of ?e 8 m' m 0 8] by simp_all
  then show ?thesis using assms(1) by (simp add: ap_data_def load32_def load64_def)
qed

lemma log_frame_smp:
  assumes "log_frame s t"
  shows "tramp t = tramp s" "ap_stacks t = ap_stacks s" "ap_main_addr t = ap_main_addr s" "aps_own t = aps_own s" "aps_others t = aps_others s"
    "mmio_in t = mmio_in s" "lapic_base t = lapic_base s" "hpet_base t = hpet_base s" "hpet_freq t = hpet_freq s"
proof -
  have e: "t = s\<lparr>now := now t, events := events t, mem := mem t, cursor_x := cursor_x t, cursor_y := cursor_y t, fg_color := fg_color t,
    bg_color := bg_color t\<rparr>" using assms by (simp add: log_frame_def)
  show "tramp t = tramp s" "ap_stacks t = ap_stacks s" "ap_main_addr t = ap_main_addr s" "aps_own t = aps_own s" "aps_others t = aps_others s"
    "mmio_in t = mmio_in s" "lapic_base t = lapic_base s" "hpet_base t = hpet_base s" "hpet_freq t = hpet_freq s"
    by (subst e, simp)+
qed

section \<open>Properties\<close>

text \<open>
  C16. Starting a processor that is not the one that runs, on devices that answer (\<open>hpet_live\<close>, \<open>ipi_live\<close>; without them the code waits
  for ever). After its message on the log the boot processor writes the new processor's page table, its own stack and \<open>ap_main\<close> into
  the trampoline, sends INIT, waits 10 ms, and sends two start-up messages with 1 ms after each. Then it reads the count of processors
  with 1 ms between the readings. It returns as soon as a reading shows one processor more than before, or, when the first 5000 readings
  do not, after 5000 waits and a warning.
\<close>

theorem start_ap_sequence:
  fixes s :: "'z smp_st_scheme"
  assumes "log_ok s" and "hpet_live s" and "ipi_live s" and "ap_data_apart s"
    and "madt_get_lapic_id cpu s = Ret apic_id s" and "ucast apic_id \<noteq> bsp_id"
  shows "\<exists>r u t. start_ap root bsp_id cpu s = Ret () t \<and>
    logged (level_tag LOG_INFO @ text_of ''Starting AP cpu=%d apic_id=%d'' [VWord (ucast cpu), VWord (ucast apic_id)] @ newline)
      (s\<lparr>now := Suc (now s)\<rparr>) r \<and>
    u = r\<lparr>now := now u, mem := mem u, events := events r @ start_sequence s apic_id\<rparr> \<and> start_times s (now r) (now u) \<and>
    ap_data s root cpu (mem u) \<and> ap_data s root cpu (mem t) \<and>
    waited cpu (aps_own s + aps_others s (now s) + 1) u t"
proof -
  let ?s1 = "s\<lparr>now := Suc (now s)\<rparr>" and ?ex = "aps_own s + aps_others s (now s) + 1"
  have ok1: "log_ok ?s1" using assms(1) by simp
  obtain s2 where s2: "klog LOG_INFO ''Starting AP cpu=%d apic_id=%d'' [VWord (ucast cpu), VWord (ucast apic_id)] ?s1 = Ret () s2"
    "logged (level_tag LOG_INFO @ text_of ''Starting AP cpu=%d apic_id=%d'' [VWord (ucast cpu), VWord (ucast apic_id)] @ newline) ?s1 s2" "log_ok s2"
    by (rule klog_textE [OF ok1 smp_formats(2)])
  have fr: "log_frame s s2" using logged_frame [OF s2(2)] by (simp add: log_frame_def)
  note f = log_frame_smp [OF fr]
  let ?m = "patch_ap (tramp s2) root (get_ap_stack cpu s2) (ap_main_addr s2) (mem s2)"
  let ?s3 = "s2\<lparr>mem := ?m\<rparr>"
  have live: "hpet_live ?s3" "ipi_live ?s3" using assms(2,3) f by (simp_all add: hpet_live_def ipi_live_def)
  obtain m where m: "send_start apic_id ?s3 = Ret () (?s3\<lparr>now := m, events := events ?s3 @ start_sequence ?s3 apic_id\<rparr>)"
    "start_times ?s3 (now ?s3) m" by (rule send_start_returns [OF live])
  let ?u = "?s3\<lparr>now := m, events := events ?s3 @ start_sequence ?s3 apic_id\<rparr>"
  have "hpet_live ?u" "log_ok ?u" using live(1) s2(3) by simp_all
  then obtain t where t: "wait_ap cpu ?ex ?u = Ret () t" "waited cpu ?ex ?u t"
    using wait_ap_returns [of ?u cpu ?ex] by (auto simp: returns_conv)
  have run: "start_ap root bsp_id cpu s = Ret () t"
    using assms(5,6) s2(1) m(1) t(1) by (simp add: start_ap_def aps_started_def Let_def)
  have g: "get_ap_stack cpu s2 = get_ap_stack cpu s" by (simp add: get_ap_stack_def f)
  have du: "ap_data s root cpu (mem ?u)"
    using patch_ap_reads(1-3) [of "tramp s" root "get_ap_stack cpu s" "ap_main_addr s" "mem s2"] assms(4)
    unfolding ap_data_def ap_data_apart_def Let_def by (simp add: f g)
  have dirty: "log_dirty (?u\<lparr>now := k\<rparr>) = log_dirty s" for k using logged_sel(9) [OF s2(2)] by simp
  have "mem t x = mem ?u x" if "x \<notin> log_dirty s" for x
    using t(2) that dirty unfolding waited_def wait_end_def by (auto dest!: logged_mem)
  then have dt: "ap_data s root cpu (mem t)" by (rule ap_data_cong [OF du assms(4)])
  have q: "start_sequence ?s3 apic_id = start_sequence s apic_id" "start_times ?s3 = start_times s"
    by (simp_all add: start_sequence_def ipi_def start_times_def delivered_def slept_def f fun_eq_iff)
  have u: "?u = s2\<lparr>now := now ?u, mem := mem ?u, events := events s2 @ start_sequence s apic_id\<rparr>" using q(1) by simp
  have "start_times s (now s2) (now ?u)" using m(2) q(2) by simp
  with run s2(2) u du dt t(2) show ?thesis by blast
qed

definition demo_tramp :: trampoline where
  "demo_tramp = \<lparr>trampoline_start = 0x110000, trampoline_end = 0x110100, trampoline_pm = 0x110040, trampoline_pm_jmp = 0x110020,
     trampoline_gdt = 0x110080, trampoline_gdt_ptr = 0x1100A0, trampoline_gdt64 = 0x1100B0, trampoline_gdt64_ptr = 0x1100D0,
     trampoline_pml4 = 0x1100E0, trampoline_stack = 0x1100E8, trampoline_entry = 0x1100F0, trampoline_load_addr = 0x8000\<rparr>"

text \<open>Processor 1 has the controller 5; the timer's counter advances by 10 from one reading to the next.\<close>

definition demo_smp :: smp_st where
  "demo_smp = sched_st.extend (demo_sched\<lparr>con_initialized := False, mem := demo_madt, mmio_in := (\<lambda>a t. if a = 0xFED000F0 then of_nat (10 * t) else 0)\<rparr>)
     \<lparr>aps_own = 0, aps_others = (\<lambda>t. if t < 100 then 0 else 1), aps_expected = 1, ap_stacks = 0x400000, ap_main_addr = 0x105000, tramp = demo_tramp\<rparr>"

lemma demo_smp_sel [simp]:
  "mem demo_smp = demo_madt" "madt_table demo_smp = 0x20000" "\<not> con_initialized demo_smp" "hpet_base demo_smp = 0xFED00000" "lapic_base demo_smp = 0xFEE00000"
  "mmio_in demo_smp = (\<lambda>a t. if a = 0xFED000F0 then of_nat (10 * t) else 0)" "tramp demo_smp = demo_tramp" "ap_stacks demo_smp = 0x400000"
  "ap_main_addr demo_smp = 0x105000" "hpet_freq demo_smp = 100000000"
  by (simp_all add: demo_smp_def demo_sched_def demo_dev_def demo_acpi_def sched_st.defs dev_st.defs acpi_st.defs heap_st.defs)

lemma demo_smp_log: "log_ok demo_smp" "log_dirty demo_smp = {}"
proof -
  have "uart_live demo_smp = uart_live demo_heap" "klog_lock demo_smp = klog_lock demo_heap"
    by (simp_all add: demo_smp_def demo_sched_def demo_dev_def demo_acpi_def sched_st.defs dev_st.defs acpi_st.defs heap_st.defs uart_live_def uart_ready_def)
  then show "log_ok demo_smp" "log_dirty demo_smp = {}" using demo_heap_log(1) by (simp_all add: log_ok_def log_dirty_def console_ready_def)
qed

lemma demo_smp_live: "hpet_live demo_smp" "ipi_live demo_smp" "ap_data_apart demo_smp" "madt_get_lapic_id 1 demo_smp = Ret 5 demo_smp"
proof -
  show "hpet_live demo_smp" by (rule steady_counter_live [of _ 0 10 10000 100000]) simp_all
  show "ipi_live demo_smp" by (auto simp: ipi_live_def)
  show "ap_data_apart demo_smp" by (simp add: ap_data_apart_def demo_smp_log tramp_at_def demo_tramp_def separate_def)
  have "madt_list demo_smp [0x2002C, 0x20038, 0x20040]" by (simp add: madt_list_def madt_bytes)
  then show "madt_get_lapic_id 1 demo_smp = Ret 5 demo_smp"
    by (simp add: madt_get_lapic_id_def madt_lookup_find) (simp add: lapic_is_def madt_bytes madt_type_defs)
qed

theorem start_ap_sequence_witness:
  "\<exists>(r :: smp_st) (u :: smp_st) t. start_ap 0x200000 0 1 demo_smp = Ret () t \<and> load64 (mem u) 0x80E8 = 0x408000 \<and> load64 (mem u) 0x80F0 = 0x105000 \<and>
    events u = events r @ [Mmio32 0xFEE00310 0x5000000, Mmio32 0xFEE00300 0x4500, Mmio32 0xFEE00310 0x5000000, Mmio32 0xFEE00300 0x4608,
       Mmio32 0xFEE00310 0x5000000, Mmio32 0xFEE00300 0x4608] \<and>
    start_times demo_smp (now r) (now u) \<and> waited 1 1 u t"
proof -
  have n: "aps_own demo_smp + aps_others demo_smp (now demo_smp) + 1 = 1"
    by (simp add: demo_smp_def demo_sched_def demo_dev_def sched_st.defs dev_st.defs acpi_st.defs demo_acpi_def heap_st.defs demo_heap_def
      demo_log_def demo_con_def demo_font_def demo_fb_def log_st.defs con_st.defs font_st.defs fb_st.defs paging_st.defs hw.defs demo_hw_def)
  obtain r u t where w: "start_ap 0x200000 0 1 demo_smp = Ret () t"
    "u = r\<lparr>now := now u, mem := mem u, events := events r @ start_sequence demo_smp 5\<rparr>" "start_times demo_smp (now r) (now u)"
    "ap_data demo_smp 0x200000 1 (mem u)" "waited 1 1 u t"
    using start_ap_sequence [OF demo_smp_log(1) demo_smp_live, of 0 "0x200000", unfolded n] by auto
  have "events u = events r @ start_sequence demo_smp 5" by (subst w(2)) simp
  then show ?thesis
    using w(1,3-5) by (intro exI [of _ r] exI [of _ u] exI [of _ t])
      (simp add: ap_data_def start_sequence_def ipi_def tramp_at_def demo_tramp_def get_ap_stack_def AP_STACK_SIZE_def)
qed

text \<open>
  C38. The stacks of processors with numbers below 16 lie one after the other in their array and do not overlap; the code does not
  check the number, and the stack of any other processor lies outside the array.
\<close>

theorem ap_stacks_bounds:
  assumes "unat (ap_stacks s) + 256 * 0x4000 \<le> 2 ^ 64"
    and "stack = (\<lambda>cpu. region (get_ap_stack cpu s - 0x4000) 0x4000)" and "array = region (ap_stacks s) (MAX_APS * 0x4000)"
  shows "(i \<noteq> j \<longrightarrow> stack i \<inter> stack j = {}) \<and> (unat i < MAX_APS \<longrightarrow> stack i \<subseteq> array) \<and> (MAX_APS \<le> unat i \<longrightarrow> stack i \<inter> array = {})"
proof -
  have st: "stack c = span (unat (ap_stacks s) + unat c * 0x4000) 0x4000" for c
  proof -
    have c: "unat c < 256" using unsigned_less [of c, where ?'a = nat] by simp
    have b: "unat (ap_stacks s + ucast c * 0x4000) = unat (ap_stacks s) + unat c * 0x4000"
      using c assms(1) by (simp add: unat_word_ariths unsigned_ucast_eq take_bit_nat_eq_self)
    have "stack c = region (ap_stacks s + ucast c * 0x4000) 0x4000" unfolding assms(2) get_ap_stack_def AP_STACK_SIZE_def by simp
    then show ?thesis using span_region [of "ap_stacks s + ucast c * 0x4000" "0x4000"] c assms(1) unfolding b by simp
  qed
  have ar: "array = span (unat (ap_stacks s)) (16 * 0x4000)"
    using span_region [of "ap_stacks s" "16 * 0x4000"] assms(1) unfolding assms(3) MAX_APS_def by simp
  show ?thesis
  proof (intro conjI impI)
    assume "i \<noteq> j"
    then have "unat i < unat j \<or> unat j < unat i" by (metis linorder_neqE_nat word_unat_eq_iff)
    then show "stack i \<inter> stack j = {}" unfolding st by (auto simp: span_iff)
  qed (auto simp: st ar span_iff MAX_APS_def)
qed

theorem ap_stacks_bounds_witness:
  "region (get_ap_stack 1 demo_smp - 0x4000) 0x4000 \<subseteq> region 0x400000 0x40000 \<and> region (get_ap_stack 16 demo_smp - 0x4000) 0x4000 \<inter> region 0x400000 0x40000 = {}"
  using ap_stacks_bounds [of demo_smp, OF _ refl refl, of 1 2] ap_stacks_bounds [of demo_smp, OF _ refl refl, of 16 1] by (simp add: MAX_APS_def)

end
