(* ===== verification/Console_Init.thy ===== *)
theory Console_Init
  imports Alloc
begin

text \<open>
  Start of the text console: \<open>font_init\<close> of \<^verbatim>\<open>drivers/font.c\<close> reads the embedded font's header, \<open>console_init\<close> of
  \<^verbatim>\<open>lib/console.c\<close> derives the grid from font and screen and takes the cells from the heap.
\<close>

definition PSF1_MAGIC :: u16 where "PSF1_MAGIC = 0x0436"
definition PSF2_MAGIC :: u32 where "PSF2_MAGIC = 0x864AB572"

text \<open>
  \<open>psf1_header_t\<close>: the size of a character at 3, 4 bytes in all. \<open>psf2_header_t\<close>: header size at 8, bytes per glyph at 20, height at 24,
  width at 28.
\<close>

definition psf1_charsize :: "memory \<Rightarrow> u64 \<Rightarrow> u8" where "psf1_charsize m h = load8 m (h + 3)"
definition psf2_header_size :: "memory \<Rightarrow> u64 \<Rightarrow> u32" where "psf2_header_size m h = load32 m (h + 8)"
definition psf2_bytes_per_glyph :: "memory \<Rightarrow> u64 \<Rightarrow> u32" where "psf2_bytes_per_glyph m h = load32 m (h + 20)"
definition psf2_height :: "memory \<Rightarrow> u64 \<Rightarrow> u32" where "psf2_height m h = load32 m (h + 24)"
definition psf2_width :: "memory \<Rightarrow> u64 \<Rightarrow> u32" where "psf2_width m h = load32 m (h + 28)"

definition font_init :: "'z log_st_scheme \<Rightarrow> (unit, 'z log_st_scheme) outcome" where
  "font_init s =
     (let data = psf_start s; m = mem s in
      if load16 m data = PSF1_MAGIC then
        let s = s\<lparr>font_header_v1 := data, font_glyphs := data + 4, font_width := 8,
                  font_height := ucast (psf1_charsize m data), font_glyph_size := ucast (psf1_charsize m data)\<rparr>
        in klog LOG_INFO ''PSF1 font detected'' [] s
      else if load32 m data = PSF2_MAGIC then
        let s = s\<lparr>font_header_v2 := data, font_glyphs := data + ucast (psf2_header_size m data), font_width := psf2_width m data,
                  font_height := psf2_height m data, font_glyph_size := psf2_bytes_per_glyph m data\<rparr>
        in klog LOG_INFO ''PSF2 font detected'' [] s
      else kpanic ''Invalid PSF font (not embedded correctly) 0x%x'' [VWord (ucast (load32 m data))] s)"

text \<open>A font of width or height 0 divides by zero. The size of the buffer is computed in \<open>size_t\<close> from the 32-bit product of columns and rows.\<close>

definition console_init :: "'z heap_st_scheme \<Rightarrow> (unit, 'z heap_st_scheme) outcome" where
  "console_init s =
     andthen (font_init s) (\<lambda>_ s.
     let s = s\<lparr>char_w := font_get_width s, char_h := font_get_height s\<rparr> in
     if char_w s = 0 \<or> char_h s = 0 then Undef
     else let s = s\<lparr>cols := fb_get_width s div char_w s, rows := fb_get_height s div char_h s,
                    fg_color := fb_color 255 255 255, bg_color := fb_color 0 0 0\<rparr>
       in andthen (kmalloc (ucast (cols s * rows s) * sizeof_cell) s) (\<lambda>p s.
          let s = console_clear (s\<lparr>con_buffer := p\<rparr>) in Ret () (s\<lparr>con_initialized := True\<rparr>)))"

section \<open>What the font header says\<close>

text \<open>Address of the glyphs, width, height and bytes per glyph.\<close>

definition psf_font :: "memory \<Rightarrow> u64 \<Rightarrow> (u64 \<times> u32 \<times> u32 \<times> u32) option" where
  "psf_font m data =
     (if load16 m data = PSF1_MAGIC then Some (data + 4, 8, ucast (psf1_charsize m data), ucast (psf1_charsize m data))
      else if load32 m data = PSF2_MAGIC
      then Some (data + ucast (psf2_header_size m data), psf2_width m data, psf2_height m data, psf2_bytes_per_glyph m data)
      else None)"

abbreviation with_font :: "u64 \<Rightarrow> u32 \<Rightarrow> u32 \<Rightarrow> u32 \<Rightarrow> 'z font_st_scheme \<Rightarrow> 'z font_st_scheme" where
  "with_font g w h n s \<equiv> s\<lparr>font_glyphs := g, font_width := w, font_height := h, font_glyph_size := n\<rparr>"

lemma quiet:
  assumes "heap_holds s B" and "\<not> con_initialized s" "\<not> con_initialized t" and "mem t = mem s" "port_in t = port_in s" "klog_lock t = klog_lock s"
    and "g_heap_start t = g_heap_start s" "g_heap_total_size t = g_heap_total_size s"
  shows "heap_holds t B"
  using assms unfolding heap_holds_def heap_ok_def log_ok_def log_dirty_def console_ready_def uart_live_def uart_ready_def by simp

lemma quiet_room:
  assumes "\<not> con_initialized s" "\<not> con_initialized t" and "mem t = mem s" and "g_heap_start t = g_heap_start s" "g_heap_total_size t = g_heap_total_size s"
  shows "heap_room t r = heap_room s r"
  using assms unfolding heap_room_def heap_ok_def log_dirty_def console_ready_def by simp

lemma font_formats: "plain_format ''PSF1 font detected'' []" "plain_format ''PSF2 font detected'' []"
  by (simp_all add: plain_format_def format_simps)

lemma font_init_sets:
  fixes s :: "'z heap_st_scheme"
  assumes "heap_holds s B" and "\<not> con_initialized s" and "psf_font (mem s) (psf_start s) = Some (g, w, h, n)"
  obtains t v1 v2 where "font_init s = Ret () t" and "heap_holds t B"
    and "t = with_font g w h n (s\<lparr>font_header_v1 := v1, font_header_v2 := v2\<rparr>)\<lparr>now := now t, events := events t,
      cursor_x := cursor_x t, cursor_y := cursor_y t, fg_color := fg_color t, bg_color := bg_color t\<rparr>"
proof -
  obtain v1 v2 fmt where f: "font_init s = klog LOG_INFO fmt [] (with_font g w h n (s\<lparr>font_header_v1 := v1, font_header_v2 := v2\<rparr>))"
    and p: "plain_format fmt []"
  proof (cases "load16 (mem s) (psf_start s) = PSF1_MAGIC")
    case True
    then show thesis using assms(3) font_formats(1)
      by (intro that [where fmt = "''PSF1 font detected''" and ?v1.0 = "psf_start s" and ?v2.0 = "font_header_v2 s"]) (auto simp: font_init_def psf_font_def Let_def)
  next
    case False
    then show thesis using assms(3) font_formats(2)
      by (intro that [where fmt = "''PSF2 font detected''" and ?v1.0 = "font_header_v1 s" and ?v2.0 = "psf_start s"]) (auto simp: font_init_def psf_font_def Let_def split: if_splits)
  qed
  let ?s = "with_font g w h n (s\<lparr>font_header_v1 := v1, font_header_v2 := v2\<rparr>)"
  have hs: "heap_holds ?s B" by (rule quiet [OF assms(1,2)]) (use assms(2) in simp_all)
  then have "log_ok ?s" by (simp add: heap_holds_def)
  then obtain t where t: "klog LOG_INFO fmt [] ?s = Ret () t" "logged (level_tag LOG_INFO @ text_of fmt [] @ newline) ?s t" "log_ok t"
    by (rule klog_textE [OF _ p])
  have m: "mem t = mem s" using logged_mem [OF t(2)] assms(2) by (intro ext) (simp add: log_dirty_def console_ready_def)
  have e: "t = ?s\<lparr>now := now t, events := events t, mem := mem t, cursor_x := cursor_x t, cursor_y := cursor_y t, fg_color := fg_color t, bg_color := bg_color t\<rparr>"
    using logged_frame [OF t(2)] by (simp add: log_frame_def)
  show thesis
  proof (rule that)
    show "font_init s = Ret () t" using f t(1) by simp
    show "heap_holds t B" by (rule heap_holds_logged [OF hs t(2,3)])
    show "t = with_font g w h n (s\<lparr>font_header_v1 := v1, font_header_v2 := v2\<rparr>)\<lparr>now := now t, events := events t,
      cursor_x := cursor_x t, cursor_y := cursor_y t, fg_color := fg_color t, bg_color := bg_color t\<rparr>"
      by (rule trans [OF e]) (simp add: m)
  qed
qed

section \<open>The grid\<close>

lemma grid_fits:
  assumes "fb_ok s" and "0 < w" "0 < h" and "w \<le> fb_width s" "h \<le> fb_height s"
  shows "unat (fb_width s div w) * unat (fb_height s div h) < 2 ^ 32" and "0 < fb_width s div w" and "0 < fb_height s div h"
    and "unat (fb_width s div w) * unat w \<le> unat (fb_width s)" and "unat (fb_height s div h) * unat h \<le> unat (fb_height s)"
proof -
  have w: "unat (fb_width s div w) * unat w \<le> unat (fb_width s)" "0 < unat w" "unat w \<le> unat (fb_width s)"
    using assms(2,4) by (simp_all add: unat_div word_less_nat_alt word_le_nat_alt)
  have h: "unat (fb_height s div h) * unat h \<le> unat (fb_height s)" "0 < unat h" "unat h \<le> unat (fb_height s)"
    using assms(3,5) by (simp_all add: unat_div word_less_nat_alt word_le_nat_alt)
  have fb: "unat (fb_width s) * fb_bytes s \<le> unat (fb_pitch s)" "3 \<le> fb_bytes s" "unat (fb_height s) * unat (fb_pitch s) < 2 ^ 32"
    using assms(1) by (simp_all add: fb_ok_def fb_size_def)
  have "unat (fb_width s) \<le> unat (fb_width s) * fb_bytes s" using fb(2) by simp
  then have "unat (fb_width s) \<le> unat (fb_pitch s)" using fb(1) by linarith
  then have "unat (fb_height s) * unat (fb_width s) \<le> unat (fb_height s) * unat (fb_pitch s)" by simp
  from le_less_trans [OF this fb(3)] have wh: "unat (fb_width s) * unat (fb_height s) < 2 ^ 32" by (simp only: mult.commute)
  have "unat (fb_width s div w) \<le> unat (fb_width s)" "unat (fb_height s div h) \<le> unat (fb_height s)"
    by (simp_all add: unat_div div_le_dividend)
  then have "unat (fb_width s div w) * unat (fb_height s div h) \<le> unat (fb_width s) * unat (fb_height s)" by (rule mult_le_mono)
  then show "unat (fb_width s div w) * unat (fb_height s div h) < 2 ^ 32" using wh by linarith
  show "unat (fb_width s div w) * unat w \<le> unat (fb_width s)" "unat (fb_height s div h) * unat h \<le> unat (fb_height s)" by (rule w(1), rule h(1))
  show "0 < fb_width s div w" "0 < fb_height s div h"
    using w(2,3) h(2,3) by (simp_all add: word_less_nat_alt unat_div div_greater_zero_iff)
qed

lemma less_imp_twelve: "k < 2 ^ 32 \<Longrightarrow> k * 12 < 2 ^ 64" "k < 2 ^ 32 \<Longrightarrow> 12 * k \<le> 2 ^ 64 - 8" for k :: nat
  by simp_all

text \<open>What the start of the console relies on: a font, a screen large enough for one cell, and glyphs and screen outside the heap.\<close>

definition console_boot :: "'z heap_st_scheme \<Rightarrow> u64 \<Rightarrow> u32 \<Rightarrow> u32 \<Rightarrow> u32 \<Rightarrow> bool" where
  "console_boot s g w h n \<longleftrightarrow> psf_font (mem s) (psf_start s) = Some (g, w, h, n) \<and> g \<noteq> 0 \<and> 0 < w \<and> w \<le> fb_width s \<and> 0 < h \<and> h \<le> fb_height s \<and>
     font_ok (with_font g w h n s) \<and>
     (let H = span (unat (g_heap_start s)) (unat (g_heap_total_size s)) in H \<inter> region (fb_addr s) (fb_size s) = {} \<and>
       (\<forall>c row col. row < h \<longrightarrow> col < w \<longrightarrow> glyph_byte_addr c row col (with_font g w h n s) \<notin> H))"

lemma glyph_bit_cong:
  assumes "glyph_byte_addr c row col t = glyph_byte_addr c row col s" and "mem t (glyph_byte_addr c row col s) = mem s (glyph_byte_addr c row col s)"
  shows "glyph_bit c row col t = glyph_bit c row col s"
  using assms by (simp add: glyph_bit_def)

lemma con_flag [simp]:
  "con_ok (s\<lparr>con_initialized := b\<rparr>) = con_ok s" "con_shown (s\<lparr>con_initialized := b\<rparr>) = con_shown s" "con_abs (s\<lparr>con_initialized := b\<rparr>) = con_abs s"
  "con_cells (s\<lparr>con_initialized := b\<rparr>) = con_cells s" "con_bytes (s\<lparr>con_initialized := b\<rparr>) = con_bytes s" "fb_size (s\<lparr>con_initialized := b\<rparr>) = fb_size s"
  by (simp_all add: con_ok_def font_ok_def con_cells_def con_bytes_def fb_ok_def fb_size_def fb_bytes_def glyph_byte_addr_def con_shown_def cell_shown_def
      pixel_at_def pixel_addr_def glyph_bit_def con_abs_def)

text \<open>The heap is intact when the console takes over a block of it.\<close>

lemma heap_holds_console:
  fixes s t :: "'z heap_st_scheme"
  assumes "heap_holds s C" and "\<not> con_initialized s" and "con_step s t" and "con_ok t" and "con_bytes s \<subseteq> span p k" and "(p, k) \<in> C"
    and "span (unat (g_heap_start s)) (unat (g_heap_total_size s)) \<inter> region (fb_addr s) (fb_size s) = {}"
  shows "heap_holds (t\<lparr>con_initialized := True\<rparr>) C"
proof -
  let ?a = "unat (g_heap_start s)" and ?t = "t\<lparr>con_initialized := True\<rparr>"
  obtain bs where bs: "heap_ok s bs" "heap_live s bs = C" and ok: "log_ok s" using assms(1) by (auto simp: heap_holds_def)
  have e: "t = s\<lparr>mem := mem t, cursor_x := cursor_x t, cursor_y := cursor_y t\<rparr>"
    and m: "\<And>x. x \<notin> con_bytes s \<union> region (fb_addr s) (fb_size s) \<Longrightarrow> mem t x = mem s x" using assms(3) by (simp_all add: con_step_def)
  have g: "g_heap_start t = g_heap_start s" "g_heap_total_size t = g_heap_total_size s" "port_in t = port_in s" "klog_lock t = klog_lock s"
    by (subst e, simp)+
  have d: "log_dirty ?t = con_bytes s \<union> region (fb_addr s) (fb_size s)"
    using con_step_sel(12) [OF assms(3)] con_step_derived(1,2) [OF assms(3)] by (simp add: log_dirty_def console_ready_def con_dirty_def)
  have live: "con_bytes s \<subseteq> live_bytes ?a bs" using assms(5,6) bs(2) by (auto simp: live_bytes_def)
  have "mem t x = mem s x" if "x \<in> metas ?a bs" for x
    using that metas_live [of ?a bs] metas_span [of ?a bs] live assms(7) heap_okD(8) [OF bs(1)] by (intro m) auto
  then have "heap_at (mem t) ?a bs" using heap_at_cong [of ?a bs "mem t" "mem s"] heap_okD(1,3) [OF bs(1)] by simp
  then have "heap_ok ?t bs" using bs(1) d live assms(7) unfolding heap_ok_def by (auto simp: g)
  moreover have "log_ok ?t" using ok assms(4) by (simp add: log_ok_def uart_live_def uart_ready_def g)
  ultimately show ?thesis using bs(2) by (auto simp: heap_holds_def g)
qed

text \<open>Without a buffer only the screen is cleared.\<close>

lemma console_clear_no_buffer:
  assumes "fb_ok s" and "con_buffer s = 0"
  obtains m where "console_clear s = s\<lparr>mem := m, cursor_x := 0, cursor_y := 0\<rparr>"
    and "\<And>x. x \<notin> region (fb_addr s) (fb_size s) \<Longrightarrow> m x = mem s x"
    and "\<And>x y. x < fb_width s \<Longrightarrow> y < fb_height s \<Longrightarrow> pixel_at (s\<lparr>mem := m\<rparr>) x y = bg_color s AND 0xFFFFFF"
proof -
  let ?t = "fb_clear (bg_color s) s"
  have p: "off_screen ?t = off_screen s" "\<And>x y. x < fb_width s \<Longrightarrow> y < fb_height s \<Longrightarrow> pixel_at ?t x y = bg_color s AND 0xFFFFFF"
    using fb_clear_painted [OF assms(1), of "bg_color s"] by (simp_all add: screen.painted_def)
  have e: "?t = s\<lparr>mem := mem ?t\<rparr>" by (rule off_screen_eqD [OF p(1)])
  have "con_buffer ?t = con_buffer s" by (subst e) simp
  then have "console_clear s = ?t\<lparr>cursor_x := 0, cursor_y := 0\<rparr>" using assms(2) by (simp add: console_clear_def)
  also have "\<dots> = s\<lparr>mem := mem ?t, cursor_x := 0, cursor_y := 0\<rparr>" by (subst e) simp
  finally show thesis by (rule that) (use off_screen_mem [OF p(1)] p(2) e in auto)
qed

section \<open>Up to the clearing of the screen\<close>

text \<open>
  The console before it is cleared: font and grid are set, screen and heap are where they were, and only the heap has been written.
\<close>

definition con_prepared :: "u64 \<Rightarrow> u32 \<Rightarrow> u32 \<Rightarrow> u32 \<Rightarrow> 'z heap_st_scheme \<Rightarrow> 'z heap_st_scheme \<Rightarrow> bool" where
  "con_prepared g w h n s u \<longleftrightarrow>
     \<not> con_initialized u \<and> font_glyphs u = g \<and> font_width u = w \<and> font_height u = h \<and> font_glyph_size u = n \<and> char_w u = w \<and> char_h u = h \<and>
     cols u = fb_width s div w \<and> rows u = fb_height s div h \<and>
     fb_addr u = fb_addr s \<and> fb_width u = fb_width s \<and> fb_height u = fb_height s \<and> fb_pitch u = fb_pitch s \<and> fb_bpp u = fb_bpp s \<and>
     g_heap_start u = g_heap_start s \<and> g_heap_total_size u = g_heap_total_size s \<and>
     (\<forall>x. x \<notin> span (unat (g_heap_start s)) (unat (g_heap_total_size s)) \<longrightarrow> mem u x = mem s x)"

lemma console_bootD:
  assumes "console_boot s g w h n"
  shows "fb_ok s" and "0 < w" "0 < h" and "w \<le> fb_width s" "h \<le> fb_height s"
  using assms by (auto simp: console_boot_def Let_def font_ok_def fb_ok_def fb_bytes_def fb_size_def)

lemma cell_bytes:
  fixes cl rw :: u32
  assumes "unat cl * unat rw < 2 ^ 32" and "0 < cl" and "0 < rw"
  defines "b \<equiv> ucast (cl * rw :: u32) * sizeof_cell :: u64"
  shows "unat b = 12 * (unat cl * unat rw)" and "0 < b" and "unat b \<le> 2 ^ 64 - 8"
proof -
  have c: "unat (cl * rw) = unat cl * unat rw" using assms(1) by (simp add: unat_word_ariths)
  have "unat b = (unat cl * unat rw * 12) mod 2 ^ 64"
    using c unfolding b_def by (simp add: unat_word_ariths sizeof_cell_def unsigned_ucast_eq take_bit_eq_mod)
  moreover have "unat cl * unat rw * 12 < 2 ^ 64" by (rule less_imp_twelve(1) [OF assms(1)])
  ultimately show un: "unat b = 12 * (unat cl * unat rw)" by (simp only: mod_less mult.commute)
  then show "0 < b" "unat b \<le> 2 ^ 64 - 8"
    using assms(2,3) less_imp_twelve(2) [OF assms(1)] by (simp add: word_less_nat_alt, simp only:)
qed

lemma console_init_alloc:
  fixes s :: "'z heap_st_scheme"
  assumes "heap_holds s B" and "\<not> con_initialized s" and "console_boot s g w h n"
  shows "\<exists>u. console_init s = Ret () (console_clear u\<lparr>con_initialized := True\<rparr>) \<and> con_prepared g w h n s u \<and>
    (con_buffer u = 0 \<longleftrightarrow> \<not> heap_room s ((12 * con_cells u + 7) div 8 * 8)) \<and>
    (con_buffer u = 0 \<and> heap_holds u B \<or> con_buffer u \<noteq> 0 \<and> fg_color u = 0xFFFFFF \<and> bg_color u = 0 \<and>
      (\<exists>k\<ge>12 * con_cells u. heap_holds u (insert (unat (con_buffer u), k) B)))"
proof -
  note cb = console_bootD [OF assms(3)]
  note C = cell_bytes [OF grid_fits(1-3) [OF cb]]
  obtain s1 v1 v2 where s1: "font_init s = Ret () s1" "heap_holds s1 B"
    "s1 = with_font g w h n (s\<lparr>font_header_v1 := v1, font_header_v2 := v2\<rparr>)\<lparr>now := now s1, events := events s1,
      cursor_x := cursor_x s1, cursor_y := cursor_y s1, fg_color := fg_color s1, bg_color := bg_color s1\<rparr>"
    using font_init_sets [OF assms(1,2)] assms(3) [unfolded console_boot_def Let_def] by metis
  let ?s2 = "s1\<lparr>char_w := w, char_h := h, cols := fb_width s div w, rows := fb_height s div h, fg_color := 0xFFFFFF, bg_color := 0\<rparr>"
  note sel1 = arg_cong [OF s1(3), of con_initialized] arg_cong [OF s1(3), of mem] arg_cong [OF s1(3), of font_width] arg_cong [OF s1(3), of font_height]
    arg_cong [OF s1(3), of fb_width] arg_cong [OF s1(3), of fb_height] arg_cong [OF s1(3), of font_glyphs] arg_cong [OF s1(3), of font_glyph_size]
    arg_cong [OF s1(3), of fb_addr] arg_cong [OF s1(3), of fb_pitch] arg_cong [OF s1(3), of fb_bpp] arg_cong [OF s1(3), of g_heap_start]
    arg_cong [OF s1(3), of g_heap_total_size]
  have q1: "\<not> con_initialized s1" using sel1(1) assms(2) by simp
  have h2: "heap_holds ?s2 B" by (rule quiet [OF s1(2) q1]) (use q1 in simp_all)
  let ?n = "ucast (fb_width s div w * (fb_height s div h) :: u32) * sizeof_cell :: u64"
  have n0: "?n \<noteq> 0" using C(2) by (simp only: word_gt_0)
  obtain p s3 where s3: "kmalloc ?n ?s2 = Ret p s3"
    "p = 0 \<or> s3 = ?s2\<lparr>mem := mem s3\<rparr>" "p = 0 \<and> heap_holds s3 B \<or> p \<noteq> 0 \<and> (\<exists>k\<ge>unat ?n. heap_holds s3 (insert (unat p, k) B))" "log_frame ?s2 s3"
    "\<forall>x. x \<notin> span (unat (g_heap_start ?s2)) (unat (g_heap_total_size ?s2)) \<union> log_dirty ?s2 \<longrightarrow> mem s3 x = mem ?s2 x"
    "p = 0 \<longleftrightarrow> \<not> heap_room ?s2 ((unat ?n + 7) div 8 * 8)"
    using kmalloc_fails [OF h2 n0 C(3)] kmalloc_law [OF h2 C(2,3)] kmalloc_frame [OF h2 C(2)] kmalloc_outside [OF h2 C(2), unfolded heap_span_def] unfolding returns_conv by fastforce
  let ?u = "s3\<lparr>con_buffer := p\<rparr>"
  have wh0: "w \<noteq> 0" "h \<noteq> 0" using cb by auto
  then have "console_init s = Ret () (console_clear ?u\<lparr>con_initialized := True\<rparr>)"
    using s1(1) sel1 s3(1)
    by (simp add: console_init_def font_get_width_def font_get_height_def fb_get_width_def fb_get_height_def fb_color_def Let_def)
  moreover have f3: "s3 = ?s2\<lparr>now := now s3, events := events s3, mem := mem s3, cursor_x := cursor_x s3, cursor_y := cursor_y s3,
      fg_color := fg_color s3, bg_color := bg_color s3\<rparr>" using s3(4) by (simp only: log_frame_def)
  note sel3 = arg_cong [OF f3, of con_initialized] arg_cong [OF f3, of font_width] arg_cong [OF f3, of font_height]
    arg_cong [OF f3, of fb_width] arg_cong [OF f3, of fb_height] arg_cong [OF f3, of font_glyphs] arg_cong [OF f3, of font_glyph_size]
    arg_cong [OF f3, of fb_addr] arg_cong [OF f3, of fb_pitch] arg_cong [OF f3, of fb_bpp] arg_cong [OF f3, of g_heap_start]
    arg_cong [OF f3, of g_heap_total_size] arg_cong [OF f3, of cols] arg_cong [OF f3, of rows] arg_cong [OF f3, of char_w] arg_cong [OF f3, of char_h]
  note sel = sel3 [simplified] sel1 [simplified]
  have prep: "con_prepared g w h n s ?u"
    using s3(5) assms(2) by (simp add: con_prepared_def sel log_dirty_def console_ready_def)
  moreover have "heap_holds ?u C" if "heap_holds s3 C" for C
    by (rule quiet [OF that]) (use sel assms(2) in simp_all)
  moreover have "heap_room ?s2 r = heap_room s r" for r
    by (rule quiet_room) (use sel1 assms(2) in simp_all)
  moreover have "con_cells ?u = unat (fb_width s div w) * unat (fb_height s div h)" by (simp add: con_cells_def sel)
  moreover have "fg_color s3 = 0xFFFFFF \<and> bg_color s3 = 0" if "p \<noteq> 0" 
  proof -
    have e3: "s3 = ?s2\<lparr>mem := mem s3\<rparr>" using s3(2) that by simp
    show ?thesis by (rule conjI; subst e3, simp)
  qed
  ultimately show ?thesis using s3(3,6) C(1) by (intro exI [of _ ?u]) auto
qed

text \<open>A console that is prepared, and whose cells are a block of the heap.\<close>

lemma con_prepared_geo:
  fixes s u :: "'z heap_st_scheme"
  assumes "con_prepared g w h n s u" and "console_boot s g w h n" and "con_buffer u \<noteq> 0"
    and "heap_holds u (insert (unat (con_buffer u), k) B)" and "12 * con_cells u \<le> k"
  shows "con_geo u" and "con_bytes u \<subseteq> span (unat (con_buffer u)) k"
    and "row < h \<Longrightarrow> col < w \<Longrightarrow> glyph_bit ch row col u = glyph_bit ch row col (with_font g w h n s)"
proof -
  let ?H = "span (unat (g_heap_start s)) (unat (g_heap_total_size s))" and ?p = "unat (con_buffer u)"
  note sel = assms(1) [unfolded con_prepared_def]
  note cb = assms(2) [unfolded console_boot_def Let_def]
  note grid = grid_fits [OF console_bootD [OF assms(2)]]
  have fbu: "fb_size u = fb_size s" by (simp add: fb_size_def sel)
  have cu: "con_cells u = unat (fb_width s div w) * unat (fb_height s div h)" by (simp add: con_cells_def sel)
  obtain bs where bs: "heap_ok u bs" "heap_live u bs = insert (?p, k) B" using assms(4) by (auto simp: heap_holds_def)
  have "(?p, k) \<in> heap_live u bs" using bs(2) by simp
  note lv = live_span [OF this]
  have b: "?p + 12 * con_cells u \<le> 2 ^ 64" and inH: "span ?p k \<subseteq> ?H"
    using lv heap_okD(3,8) [OF bs(1)] assms(5) by (auto simp: sel span_iff)
  have "con_bytes u = span ?p (12 * con_cells u)" using span_region [of "con_buffer u" "12 * con_cells u"] b by (simp add: con_bytes_def)
  then show cbu: "con_bytes u \<subseteq> span ?p k" using assms(5) by (auto simp: span_iff)
  have ga: "glyph_byte_addr c row col u = glyph_byte_addr c row col (with_font g w h n s)" for c row col
    by (simp add: glyph_byte_addr_def sel)
  have gH: "glyph_byte_addr c row col u \<notin> ?H" if "row < h" "col < w" for c row col using that cb ga by simp
  have "font_ok u" using cb unfolding font_ok_def ga by (simp add: fb_ok_def fb_bytes_def fb_size_def sel)
  then show "con_geo u"
    using cb cbu inH gH assms(3) grid b unfolding con_geo_def cu by (auto simp: sel fbu)
  show "glyph_bit ch row col u = glyph_bit ch row col (with_font g w h n s)" if "row < h" "col < w"
    using gH [OF that, of ch] sel ga by (simp add: glyph_bit_def)
qed

text \<open>A prepared console without a buffer, after the screen was cleared.\<close>

lemma con_prepared_bare:
  fixes s u :: "'z heap_st_scheme"
  assumes "con_prepared g w h n s u" and "console_boot s g w h n" and "con_buffer u = 0" and "heap_holds u B"
    and "t = console_clear u\<lparr>con_initialized := True\<rparr>"
  shows "con_buffer t = 0" "cols t = cols u" "rows t = rows u" "con_initialized t" and "heap_holds (t\<lparr>con_initialized := False\<rparr>) B"
    and "x < fb_width s \<Longrightarrow> y < fb_height s \<Longrightarrow> pixel_at t x y = bg_color t AND 0xFFFFFF"
proof -
  note sel = assms(1) [unfolded con_prepared_def]
  have fbu: "fb_ok u" "fb_size u = fb_size s" using console_bootD(1) [OF assms(2)] by (simp_all add: fb_ok_def fb_bytes_def fb_size_def sel)
  obtain m where m: "console_clear u = u\<lparr>mem := m, cursor_x := 0, cursor_y := 0\<rparr>" "\<And>x. x \<notin> region (fb_addr u) (fb_size u) \<Longrightarrow> m x = mem u x"
    "\<And>x y. x < fb_width u \<Longrightarrow> y < fb_height u \<Longrightarrow> pixel_at (u\<lparr>mem := m\<rparr>) x y = bg_color u AND 0xFFFFFF"
    using console_clear_no_buffer [OF fbu(1) assms(3)] by metis
  have "heap_span u \<inter> region (fb_addr u) (fb_size u) = {}"
    using assms(2) [unfolded console_boot_def Let_def] by (simp add: sel fbu(2) heap_span_def)
  then have "heap_holds (u\<lparr>mem := m\<rparr>) B" using assms(4) m(2) by (intro heap_outside_writes(1)) auto
  then show "heap_holds (t\<lparr>con_initialized := False\<rparr>) B" by (rule quiet) (use sel m(1) assms(5) in simp_all)
  show "pixel_at t x y = bg_color t AND 0xFFFFFF" if "x < fb_width s" "y < fb_height s"
    using m(3) [of x y] that by (simp add: assms(5) m(1) sel pixel_at_def pixel_addr_def fb_bytes_def)
  show "con_buffer t = 0" "cols t = cols u" "rows t = rows u" "con_initialized t" using assms(3) by (simp_all add: assms(5) m(1))
qed

section \<open>Properties\<close>

text \<open>
  C14. Starting the console: with a valid font, a screen that holds a cell, and glyphs and screen outside the heap, \<open>console_init\<close>
  returns with the console marked as ready. It gets no buffer exactly when no free block of the heap has room for the cells, 12 bytes
  each; then the screen shows the background and the heap is as it was, but for the flag that says the console is ready. Otherwise the
  console is well formed: as many whole cells as fit on the screen, all blank and shown, stored in a heap block of their own; the heap
  is intact and the log works on.
\<close>

theorem console_init_establishes:
  fixes s :: "'z heap_st_scheme"
  assumes "heap_holds s B" and "\<not> con_initialized s" and "console_boot s g w h n"
    and "\<forall>row col. row < h \<longrightarrow> col < w \<longrightarrow> \<not> glyph_bit (CHR '' '') row col (with_font g w h n s)"
  shows "\<exists>t. console_init s = Ret () t \<and> con_initialized t \<and> cols t = fb_width s div w \<and> rows t = fb_height s div h \<and>
    (con_buffer t = 0 \<longleftrightarrow> \<not> heap_room s ((12 * con_cells t + 7) div 8 * 8)) \<and>
    (if con_buffer t = 0 then heap_holds (t\<lparr>con_initialized := False\<rparr>) B \<and>
       (\<forall>x y. x < fb_width s \<longrightarrow> y < fb_height s \<longrightarrow> pixel_at t x y = bg_color t AND 0xFFFFFF)
     else con_ok t \<and> con_shown t \<and> t_cells (con_abs t) = replicate (con_cells t) (CHR '' '', 0xFFFFFF, 0) \<and>
       (\<exists>k\<ge>12 * con_cells t. heap_holds t (insert (unat (con_buffer t), k) B)))"
proof -
  obtain u where u: "console_init s = Ret () (console_clear u\<lparr>con_initialized := True\<rparr>)" "con_prepared g w h n s u"
    "con_buffer u = 0 \<longleftrightarrow> \<not> heap_room s ((12 * con_cells u + 7) div 8 * 8)"
    "con_buffer u = 0 \<and> heap_holds u B \<or>
     con_buffer u \<noteq> 0 \<and> fg_color u = 0xFFFFFF \<and> bg_color u = 0 \<and> (\<exists>k\<ge>12 * con_cells u. heap_holds u (insert (unat (con_buffer u), k) B))"
    using console_init_alloc [OF assms(1-3)] by blast
  let ?t = "console_clear u\<lparr>con_initialized := True\<rparr>"
  note sel = u(2) [unfolded con_prepared_def]
  have fbu: "fb_ok u" "fb_size u = fb_size s" using console_bootD(1) [OF assms(3)] by (simp_all add: fb_ok_def fb_bytes_def fb_size_def sel)
  show ?thesis
  proof (cases "con_buffer u = 0")
    case True
    have h: "heap_holds u B" using u(4) True by blast
    note b = con_prepared_bare [OF u(2) assms(3) True h refl]
    have "con_cells ?t = con_cells u" using b(2,3) by (simp add: con_cells_def)
    then show ?thesis using u(1,3) True b by (intro exI [of _ ?t]) (simp add: sel)
  next
    case False
    then obtain k where k: "12 * con_cells u \<le> k" "heap_holds u (insert (unat (con_buffer u), k) B)" and col: "fg_color u = 0xFFFFFF" "bg_color u = 0"
      using u(4) by blast
    note G = con_prepared_geo [OF u(2) assms(3) False k(2,1)]
    have "\<not> glyph_bit (CHR '' '') row col u" if "row < font_height u" "col < font_width u" for row col
      using assms(4) that G(3) by (simp add: sel)
    note cl = console_clear_ok [OF G(1) this]
    have "heap_holds ?t (insert (unat (con_buffer u), k) B)"
      by (rule heap_holds_console [OF k(2) _ cl(2,1) G(2)]) (use assms(3) [unfolded console_boot_def Let_def] in \<open>simp_all add: sel fbu(2)\<close>)
    moreover have "con_buffer ?t = con_buffer u" "cols ?t = fb_width s div w" "rows ?t = fb_height s div h" "con_cells ?t = con_cells u"
      using con_step_sel(1,2,5) [OF cl(2)] con_step_derived(3) [OF cl(2)] by (simp_all add: sel)
    ultimately show ?thesis using u(1,3) cl(1,3,4) k(1) False by (intro exI [of _ ?t]) (auto simp: col intro!: exI [of _ k])
  qed
qed

text \<open>A machine before the start of the console: an 8 by 4 screen, a font of 8 by 2 pixels without ink at \<open>0x600000\<close>, a heap of 4 KiB.\<close>

definition demo_font_bytes :: memory where
  "demo_font_bytes = (\<lambda>_. 0)(0x600000 := 0x36, 0x600001 := 0x04, 0x600003 := 2)"

definition demo_start :: heap_st where
  "demo_start = demo_heap\<lparr>con_initialized := False, mem := first_block 0x900000 0x1000 demo_font_bytes\<rparr>"

lemma demo_start_sel [simp]: "psf_start demo_start = 0x600000" "fb_addr demo_start = 0xFD000000" "fb_width demo_start = 8" "fb_height demo_start = 4"
  "fb_pitch demo_start = 32" "fb_bpp demo_start = 32" "g_heap_start demo_start = 0x900000" "g_heap_total_size demo_start = 0x1000" "\<not> con_initialized demo_start"
  "mem demo_start = first_block 0x900000 0x1000 demo_font_bytes"
  by (simp_all add: demo_start_def demo_heap_def demo_log_def demo_con_def demo_font_def demo_fb_def log_st.defs con_st.defs font_st.defs fb_st.defs
      paging_st.defs hw.defs demo_hw_def)

lemma first_block_low: "unat x < 0x700000 \<Longrightarrow> first_block 0x900000 sz m x = m x"
proof -
  assume x: "unat x < 0x700000"
  have out: "x \<notin> region (0x900000 + of_nat k) j" if "k + j \<le> 32" "0 < j" for k j
  proof -
    have "separate x 1 (0x900000 + of_nat k) j"
      using x that by (intro separate_by_order) (simp_all add: fits_def unat_word_ariths unat_of_nat)
    moreover have "x \<in> region x 1" by (simp add: region_iff)
    ultimately show ?thesis using separate_disjoint by blast
  qed
  show ?thesis
    using out [of 0 4] out [of 8 8] out [of 16 8] out [of 24 1]
    by (auto simp: first_block_def set_free_def set_next_def set_size_def set_magic_def store64_outside store32_def store_def write_bytes_def store8_def region_iff)
qed

lemma demo_start_glyph:
  assumes "row < 2" and "col < 8"
  shows "unat (glyph_byte_addr c row col (with_font 0x600004 8 2 2 demo_start)) < 0x700000"
    and "0x600004 \<le> unat (glyph_byte_addr c row col (with_font 0x600004 8 2 2 demo_start))"
proof -
  have r: "unat row < 2" "unat (col div 8) = 0" using assms by (simp_all add: word_less_nat_alt unat_div)
  let ?c = "ucast (ucast (of_char c :: u8) * 2 :: u32) :: u64"
  have c: "unat (of_char c :: u8) < 256" using unsigned_less [of "of_char c :: u8", where ?'a = nat] by simp
  have "unat ?c = 2 * unat (of_char c :: u8)" using c by (simp add: unat_word_ariths unsigned_ucast_eq take_bit_nat_eq_self)
  moreover have "unat (ucast (row * (15 div 8) + col div 8) :: u64) = unat row"
    using r by (simp add: unat_word_ariths unsigned_ucast_eq take_bit_nat_eq_self)
  ultimately have "unat (glyph_byte_addr c row col (with_font 0x600004 8 2 2 demo_start)) = 0x600004 + 2 * unat (of_char c :: u8) + unat row"
    using r c by (simp add: glyph_byte_addr_def Let_def unat_word_ariths)
  then show "unat (glyph_byte_addr c row col (with_font 0x600004 8 2 2 demo_start)) < 0x700000"
    "0x600004 \<le> unat (glyph_byte_addr c row col (with_font 0x600004 8 2 2 demo_start))" using r c by simp_all
qed

lemma demo_start_boot: "console_boot demo_start 0x600004 8 2 2"
proof -
  have l: "first_block 0x900000 0x1000 demo_font_bytes x = demo_font_bytes x" if "unat x < 0x700000" for x using that by (rule first_block_low)
  have "[0..<2] = [0, 1 :: nat]" by (simp add: upt_rec)
  then have "load16 (mem demo_start) 0x600000 = PSF1_MAGIC" by (simp add: load16_def load_def read_bytes_def l) (simp add: demo_font_bytes_def PSF1_MAGIC_def)
  moreover have "psf1_charsize (mem demo_start) 0x600000 = 2" by (simp add: psf1_charsize_def load8_def l) (simp add: demo_font_bytes_def)
  ultimately have p: "psf_font (mem demo_start) (psf_start demo_start) = Some (0x600004, 8, 2, 2)" by (simp add: psf_font_def)
  have r: "region 0xFD000000 128 = span 0xFD000000 128" using span_region [of "0xFD000000" 128] by simp
  have low: "a \<notin> span 0xFD000000 128" "a \<notin> span 0x900000 0x1000" if "unat a < 0x700000" for a using that by (simp_all add: span_iff)
  have "font_ok (with_font 0x600004 8 2 2 demo_start)"
    using low(1) [OF demo_start_glyph(1)] by (simp add: font_ok_def fb_ok_def fb_size_def fb_bytes_def r)
  moreover have "span 0x900000 0x1000 \<inter> span 0xFD000000 128 = {}" by (auto simp: span_iff)
  ultimately show ?thesis using p low(2) [OF demo_start_glyph(1)] by (simp add: console_boot_def fb_size_def r)
qed

lemma demo_start_holds: "heap_holds demo_start {}"
  and demo_start_room: "heap_room demo_start 24"
proof -
  have l: "log_ok demo_start" "log_dirty demo_start = {}" using demo_heap_log(1)
    by (simp_all add: demo_start_def log_ok_def log_dirty_def console_ready_def uart_live_def uart_ready_def)
  have ok: "heap_ok demo_start [Blk 4064 True]"
    using first_block_heap [of "0x1000" "0x900000" demo_font_bytes] by (simp add: heap_ok_def sizes_aligned_def l(2))
  then show "heap_holds demo_start {}" unfolding heap_holds_def using l(1) by (auto intro!: exI [of _ "[Blk 4064 True]"])
  show "heap_room demo_start 24" using ok by (auto simp: heap_room_def)
qed

theorem console_init_establishes_witness:
  "\<exists>t :: heap_st. console_init demo_start = Ret () t \<and> cols t = 1 \<and> rows t = 2 \<and> con_buffer t \<noteq> 0 \<and> con_ok t \<and> con_shown t"
proof -
  have g: "\<not> glyph_bit (CHR '' '') row col (with_font 0x600004 8 2 2 demo_start)" if "row < 2" "col < 8" for row col
  proof -
    let ?a = "glyph_byte_addr (CHR '' '') row col (with_font 0x600004 8 2 2 demo_start)"
    have "?a \<noteq> 0x600000" "?a \<noteq> 0x600001" "?a \<noteq> 0x600003" using demo_start_glyph(2) [OF that, of "CHR '' ''"] by auto
    then have "mem demo_start ?a = 0" using first_block_low [OF demo_start_glyph(1) [OF that]] by (simp add: demo_font_bytes_def)
    then show ?thesis by (simp add: glyph_bit_def)
  qed
  then obtain t :: heap_st where t: "console_init demo_start = Ret () t" "cols t = 1" "rows t = 2"
    "con_buffer t = 0 \<longleftrightarrow> \<not> heap_room demo_start ((12 * con_cells t + 7) div 8 * 8)"
    "con_buffer t \<noteq> 0 \<longrightarrow> con_ok t \<and> con_shown t"
    using console_init_establishes [OF demo_start_holds _ demo_start_boot] by (auto split: if_splits)
  have "con_cells t = 2" using t(2,3) by (simp add: con_cells_def)
  then have "con_buffer t \<noteq> 0" using t(4) demo_start_room by simp
  then show ?thesis using t by blast
qed

end
