(* ===== verification/Paging_Init.thy ===== *)
theory Paging_Init
  imports Multiboot
begin

text \<open>
  \<open>paging_init\<close> of \<^verbatim>\<open>drivers/paging.c\<close>: it builds the kernel's own page tables, low memory and the kernel first, then all
  usable memory of the boot loader's map, and switches to them. The bounds of the kernel image are the linker's.
\<close>

section \<open>Operations\<close>

text \<open>One entry of the memory map, if it is usable memory.\<close>

definition map_usable :: "u64 \<Rightarrow> 'z log_st_scheme \<Rightarrow> (unit, 'z log_st_scheme) outcome" where
  "map_usable entry s =
     (if entry_type (mem s) entry = 1 then
        let base = entry_base (mem s) entry AND NOT 0x1FFFFF;
            hi = (entry_base (mem s) entry + entry_length (mem s) entry + 0x1FFFFF) AND NOT 0x1FFFFF
        in andthen (klog LOG_INFO ''Mapping region: 0x%lx - 0x%lx'' [VWord base, VWord hi] s) (\<lambda>_ s.
           map_region_2mb (g_pml4 s) base base (hi - base) PAGE_WRITABLE s)
      else Ret () s)"

text \<open>The entries of one tag, from 16 to the end of the tag, in steps of the entry size.\<close>

definition map_mmap :: "u64 \<Rightarrow> 'z log_st_scheme \<Rightarrow> (unit, 'z log_st_scheme) outcome" where
  "map_mmap mmap s =
     andthen (loop (\<lambda>entry s. entry < mmap + ucast (tag_size (mem s) mmap))
       (\<lambda>entry s. andthen (map_usable entry s) (\<lambda>_ s. Ret (entry + ucast (mmap_entry_size (mem s) mmap)) s)) (mmap + 16) s)
     (\<lambda>_ s. Ret () s)"

definition paging_init :: "u64 \<Rightarrow> u64 \<Rightarrow> u64 \<Rightarrow> 'z log_st_scheme \<Rightarrow> (u64, 'z log_st_scheme) outcome" where
  "paging_init kernel_start kernel_end info s =
     (if g_pml4 s \<noteq> 0 then kpanic ''Pml4 already initialized! Double INIT error'' [] s
      else andthen (alloc_page_table s) (\<lambda>t s.
        let s = s\<lparr>g_pml4 := t\<rparr>;
            kernel_size = kernel_end - kernel_start;
            kernel_size = (kernel_size + 0x1FFFFF) AND NOT 0x1FFFFF;
            map_size = kernel_size + sizeof_pool;
            map_size = (map_size + 0x1FFFFF) AND NOT 0x1FFFFF
        in andthen (map_region_2mb (g_pml4 s) 0 0 0x200000 PAGE_WRITABLE s) (\<lambda>_ s.
           andthen (map_region_2mb (g_pml4 s) kernel_start kernel_start map_size PAGE_WRITABLE s) (\<lambda>_ s.
           andthen (loop (\<lambda>tag s. tag_type (mem s) tag \<noteq> MB2_TAG_END)
             (\<lambda>tag s. andthen (if tag_type (mem s) tag = MB2_TAG_MMAP then map_mmap tag s else Ret () s) (\<lambda>_ s.
               Ret (next_tag (mem s) tag) s)) (info + 8) s) (\<lambda>_ s.
           Ret (g_pml4 s) (paging_switch (g_pml4 s) s))))))"

end
