(* ===== verification/Kernel.thy ===== *)
theory Kernel
  imports Smp_Spec Console_Init Paging_Init
begin

text \<open>
  \<^verbatim>\<open>kernel/main.c\<close>: the order in which the kernel starts its parts, and the task that it runs.
\<close>

definition MB2_MAGIC :: u32 where "MB2_MAGIC = 0x36D76289"

text \<open>Addresses that the linker and \<^verbatim>\<open>drivers/idt.nasm\<close> provide to the kernel's entry point.\<close>

record symbols =
  ld_kernel_start :: u64
  ld_kernel_end :: u64
  ld_heap_start :: u64
  ld_heap_end :: u64
  isr :: "u32 \<Rightarrow> u64"
  isr_timer :: u64
  isr_spurious :: u64
  test_task_addr :: u64

text \<open>The loop that burns cycles changes nothing.\<close>

definition test_task :: "u64 \<Rightarrow> 'z smp_st_scheme \<Rightarrow> (unit, 'z smp_st_scheme) outcome" where
  "test_task arg s =
     (let ident = ucast arg :: u32; (cpu, s) = lapic_id s in
      andthen (klog LOG_INFO ''Task %d running on cpu %d'' [VWord (ucast ident), VWord (ucast cpu)] s) (\<lambda>_ s.
      klog LOG_INFO ''Task %d done'' [VWord (ucast ident)] s))"

text \<open>
  One round of \<open>log_task\<close> up to the switch, and the rest of the round after it. \<open>ret\<close> is the return address of the switch.
\<close>

definition log_task_yield :: "u64 \<Rightarrow> 'z smp_st_scheme \<Rightarrow> (unit, 'z smp_st_scheme) outcome" where
  "log_task_yield ret s =
     (let (cpu, s) = cpu_local s; ident = task_cpu (mem s) (cpu_current (mem s) cpu) in
      andthen (klog LOG_INFO ''Hello from task! Cpu ID = %d'' [VWord (ucast ident)] s) (\<lambda>_ s. scheduler_yield ret s))"

definition log_task_sleep :: "'z smp_st_scheme \<Rightarrow> (unit, 'z smp_st_scheme) outcome" where
  "log_task_sleep s = hpet_sleep_ms 1000 s"

definition start_tasks :: "u64 \<Rightarrow> 'z smp_st_scheme \<Rightarrow> (unit, 'z smp_st_scheme) outcome" where
  "start_tasks entry s =
     for_out 0 (8 :: u32) (\<lambda>i s. andthen (task_create entry (ucast i) s) (\<lambda>t s. scheduler_enqueue t s)) s"

text \<open>
  The processor leaves \<open>kernel_main\<close> at the switch in \<open>cpu_enter_worker\<close>, so the message after it is never reached.
\<close>

definition kernel_main :: "symbols \<Rightarrow> u64 \<Rightarrow> u64 \<Rightarrow> u32 \<Rightarrow> 'z smp_st_scheme \<Rightarrow> (unit, 'z smp_st_scheme) outcome" where
  "kernel_main ld ret mb2_info mb2_magic s =
     (let s = serial_init s in
      andthen (idt_init (isr ld) (isr_timer ld) (isr_spurious ld) s) (\<lambda>_ s.
      andthen (paging_init (ld_kernel_start ld) (ld_kernel_end ld) mb2_info s) (\<lambda>_ s.
      andthen (kalloc_init (ld_heap_start ld) (ld_heap_end ld - ld_heap_start ld) s) (\<lambda>_ s.
      if mb2_magic \<noteq> MB2_MAGIC then kpanic ''Invalid Multiboot2 magic'' [] s else
      andthen (mb2_parse mb2_info s) (\<lambda>_ s.
      andthen (console_init s) (\<lambda>_ s.
      andthen (klog LOG_INFO ''Neko OS Booting...'' [] s) (\<lambda>_ s.
      andthen (klog LOG_INFO ''Kernel: 0x%x - 0x%x (%u bytes)''
        [VWord (ld_kernel_start ld), VWord (ld_kernel_end ld), VWord (ld_kernel_end ld - ld_kernel_start ld)] s) (\<lambda>_ s.
      andthen (pic_disable s) (\<lambda>_ s.
      andthen (acpi_init mb2_info s) (\<lambda>_ s.
      andthen (lapic_init s) (\<lambda>_ s.
      andthen (hpet_init s) (\<lambda>_ s.
      andthen (scheduler_init s) (\<lambda>_ s.
      let s = x86_disable_interrupts s in
      andthen (smp_init s) (\<lambda>_ s.
      let s = x86_enable_interrupts s in
      andthen (start_tasks (test_task_addr ld) s) (\<lambda>_ s.
      cpu_enter_worker ret s)))))))))))))))"

end
