(* ===== verification/Boot_Paging.thy ===== *)
theory Boot_Paging
  imports Paging_Init Paging_Spec
begin

text \<open>
  What \<open>paging_init\<close> leaves behind. The tables it builds hold large pages only, so a table of the pool is the root, the one
  page-directory-pointer table or the page directory of one GiB block; the 32 tables of the pool are enough for the blocks
  below 30 GiB. The processor translates the low 2 MiB, the kernel and the usable memory to themselves, and nothing else.
\<close>

section \<open>The tables of the boot\<close>

definition boot_paths :: "u64 list set" where
  "boot_paths = insert [] (insert [0] ((\<lambda>i. [0, of_nat i]) ` {..<30}))"

lemma boot_paths: "finite boot_paths" "card boot_paths \<le> 32" "p \<in> boot_paths \<Longrightarrow> path p" "p \<in> boot_paths \<Longrightarrow> length p \<le> 2"
proof -
  have "card ((\<lambda>i. [0, of_nat i :: u64]) ` {..<30 :: nat}) \<le> 30" using card_image_le [of "{..<30 :: nat}"] by fastforce
  then show "card boot_paths \<le> 32" unfolding boot_paths_def
    by (intro card_insert_le_m1) simp_all
  show "finite boot_paths" by (simp add: boot_paths_def)
  have "(of_nat i :: u64) < 512" if "i < 30" for i using that by (simp add: word_less_nat_alt unat_of_nat)
  then show "p \<in> boot_paths \<Longrightarrow> path p" "p \<in> boot_paths \<Longrightarrow> length p \<le> 2" by (auto simp: boot_paths_def path_def)
qed

text \<open>The tables that exist, and the invariant: no page above the last level but one, and no table lost.\<close>

definition walked :: "u64 \<Rightarrow> 'z paging_st_scheme \<Rightarrow> u64 list set" where
  "walked r s = {p \<in> boot_paths. walk (entries_of s) r p \<noteq> None}"

definition boot_tables :: "u64 \<Rightarrow> 'z paging_st_scheme \<Rightarrow> bool" where
  "boot_tables r s \<longleftrightarrow> pt_inv r s \<and> (\<forall>q j. path q \<longrightarrow> length q \<le> 1 \<longrightarrow> \<not> huge_in s r q j)
    \<and> unat (pool_offset s) \<le> 4096 * card (walked r s)"

lemma boot_next_table:
  assumes "boot_tables r s" and "p @ [i] \<in> boot_paths" and "walk (entries_of s) r p = Some a"
  shows "returns (next_table a i s) (\<lambda>t s'. boot_tables r s' \<and> descent r s s' \<and> walk (entries_of s') r (p @ [i]) = Some t)"
proof -
  have inv: "pt_inv r s" and huge: "\<And>q j. path q \<Longrightarrow> length q \<le> 1 \<Longrightarrow> \<not> huge_in s r q j"
    and off: "unat (pool_offset s) \<le> 4096 * card (walked r s)" using assms(1) by (auto simp: boot_tables_def)
  have pi: "path (p @ [i])" "length p \<le> 1" using boot_paths(3,4) [OF assms(2)] by simp_all
  then have p: "path p" "i < 512" "length p \<le> 2" using path_prefix by (auto simp: path_def)
  have sub: "walked r u \<subseteq> boot_paths" for u :: "'a paging_st_scheme" by (auto simp: walked_def)
  have fin: "finite (walked r u)" for u :: "'a paging_st_scheme" using boot_paths(1) sub finite_subset by blast
  have new: "p @ [i] \<notin> walked r s" if "\<not> present (entries_of s a i)"
    using that assms(3) by (simp add: walked_def walk_append is_table_iff)
  have rm: "present (entries_of s a i) \<or> room s 1"
  proof (rule disjCI)
    assume "\<not> room s 1"
    then have "32 \<le> card (walked r s)" using off by (simp add: room_def)
    then have "walked r s = boot_paths" using boot_paths(1,2) sub by (metis card_mono card_subset_eq le_antisym le_trans)
    then show "present (entries_of s a i)" using new assms(2) by blast
  qed
  show ?thesis
  proof (rule returns_weaken [OF next_table_descends [OF inv p(1,3) assms(3) p(2) huge [OF p(1) pi(2)] rm]], elim conjE)
    fix t s' assume n: "pt_inv r s'" "walk (entries_of s') r (p @ [i]) = Some t"
      "\<forall>v. trans (entries_of s') r v = trans (entries_of s) r v" "pool_only s s'"
      "\<forall>q j. path q \<longrightarrow> huge_in s' r q j \<longrightarrow> huge_in s r q j"
      "\<forall>q b. path q \<longrightarrow> walk (entries_of s) r q = Some b \<longrightarrow> walk (entries_of s') r q = Some b"
      "present (entries_of s a i) \<longrightarrow> s' = s" "unat (pool_offset s') \<le> unat (pool_offset s) + 4096"
    have ins: "insert (p @ [i]) (walked r s) \<subseteq> walked r s'"
      using n(2,6) assms(2) boot_paths(3) by (auto simp: walked_def)
    have "unat (pool_offset s') \<le> 4096 * card (walked r s')"
    proof (cases "present (entries_of s a i)")
      case False
      have "Suc (card (walked r s)) \<le> card (walked r s')"
        using card_mono [OF fin ins] new [OF False] by (simp add: fin)
      then show ?thesis using n(8) off by simp
    qed (use n(7) off in simp)
    then show "boot_tables r s' \<and> descent r s s' \<and> walk (entries_of s') r (p @ [i]) = Some t"
      using n(1-6) huge by (auto simp: boot_tables_def descent_def)
  qed
qed

section \<open>One large page\<close>

text \<open>\<open>ident r m w\<close>: the address \<open>w\<close> translates to itself, writable, by a large page.\<close>

definition ident :: "u64 \<Rightarrow> memory \<Rightarrow> u64 \<Rightarrow> bool" where
  "ident r m w \<longleftrightarrow> (\<exists>e. translate m r w = Some (of_nat (va w), e) \<and> e AND 0xFFF = PAGE_WRITABLE OR PAGE_PRESENT OR PAGE_HUGE)"

text \<open>\<open>exactly I r m\<close>: the 2 MiB pages with a number in \<open>I\<close> are mapped to themselves, and no other address is mapped.\<close>

definition exactly :: "nat set \<Rightarrow> u64 \<Rightarrow> memory \<Rightarrow> bool" where
  "exactly I r m \<longleftrightarrow> (\<forall>w. if va w div 2 ^ 21 \<in> I then ident r m w else translate m r w = None)"

lemma page_idx_nat: "unat (page_idx k v) = unat v div 2 ^ k mod 512"
proof -
  have "unat (page_idx k v) = take_bit 9 (drop_bit k (unat v))"
    by (simp only: page_idx_bits unsigned_take_bit_eq unsigned_drop_bit_eq take_bit_nat_eq_self [OF unsigned_less])
  then show ?thesis by (simp add: take_bit_eq_mod drop_bit_eq_div)
qed

lemma boot_page_path:
  assumes "unat v < 30 * 2 ^ 30"
  shows "page_idx 39 v = 0" and "[page_idx 39 v] \<in> boot_paths" and "[page_idx 39 v, page_idx 30 v] \<in> boot_paths"
proof -
  have "unat (page_idx 39 v) = 0" using assms by (simp add: page_idx_nat)
  then show z: "page_idx 39 v = 0" by (simp add: unat_eq_zero)
  then show "[page_idx 39 v] \<in> boot_paths" by (simp add: boot_paths_def)
  have "unat v div 2 ^ 30 < 30" using assms by (simp add: less_mult_imp_div_less)
  then have "unat (page_idx 30 v) < 30" by (simp add: page_idx_nat)
  moreover have "page_idx 30 v = of_nat (unat (page_idx 30 v))" by simp
  ultimately show "[page_idx 39 v, page_idx 30 v] \<in> boot_paths" unfolding z boot_paths_def by blast
qed

lemma boot_pde:
  assumes "va w div 2 ^ 21 = unat v div 2 ^ 21" and "unat v < 2 ^ 48"
  shows "fst (page_2m (pde_2m v PAGE_WRITABLE) w) = of_nat (va w)"
    and "snd (page_2m (pde_2m v PAGE_WRITABLE) w) AND 0xFFF = PAGE_WRITABLE OR PAGE_PRESENT OR PAGE_HUGE"
proof -
  have f: "PAGE_WRITABLE AND NOT 0xFFF = 0" by (simp add: PAGE_WRITABLE_def)
  have v52: "unat v < 2 ^ 52" using assms(2) by simp
  have "unat w mod 2 ^ 21 = va w mod 2 ^ 21" unfolding va_def by (simp add: mod_mod_cancel)
  then have "unat ((v AND NOT (mask 21)) OR (w AND mask 21)) = va w"
    unfolding unat_splice assms(1) [symmetric] by (simp only: div_mult_mod_eq)
  then have "(v AND NOT (mask 21)) OR (w AND mask 21) = of_nat (va w)" by (metis of_nat_unat ucast_id)
  then show "fst (page_2m (pde_2m v PAGE_WRITABLE) w) = of_nat (va w)"
    by (simp only: page_2m_pde [OF v52 f] mask_21 fst_conv)
  show "snd (page_2m (pde_2m v PAGE_WRITABLE) w) AND 0xFFF = PAGE_WRITABLE OR PAGE_PRESENT OR PAGE_HUGE"
    by (simp only: page_2m_pde [OF v52 f] snd_conv pde_low [OF f])
qed

lemma boot_map_page:
  fixes s :: "'z paging_st_scheme"
  assumes "boot_tables r s" and "unat v < 30 * 2 ^ 30" and "exactly I r (mem s)"
  shows "returns (map_page_2mb r v v PAGE_WRITABLE s) (\<lambda>_ s'. boot_tables r s' \<and> pool_only s s' \<and> exactly (insert (unat v div 2 ^ 21) I) r (mem s'))"
proof -
  let ?i4 = "page_idx 39 v" and ?i3 = "page_idx 30 v" and ?i2 = "page_idx 21 v" and ?e = "pde_2m v PAGE_WRITABLE"
  note P = boot_page_path [OF assms(2)]
  from boot_next_table [OF assms(1), of "[]" ?i4 r] P(2) obtain t1 s1
    where 1: "next_table r ?i4 s = Ret t1 s1" "boot_tables r s1" "descent r s s1" "walk (entries_of s1) r [?i4] = Some t1"
    by (auto simp: returns_conv)
  from boot_next_table [OF 1(2) _ 1(4), of ?i3] P(3) obtain t2 s2
    where 2: "next_table t1 ?i3 s1 = Ret t2 s2" "boot_tables r s2" "descent r s1 s2" "walk (entries_of s2) r [?i4, ?i3] = Some t2"
    by (auto simp: returns_conv)
  have d: "descent r s s2" using descent_trans [OF 1(3) 2(3)] .
  have inv: "pt_inv r s" "pt_inv r s2" using assms(1) 2(2) by (simp_all add: boot_tables_def)
  let ?s = "set_entry t2 ?i2 ?e s2"
  note S = store_pde [OF inv(2) 2(4), where phys = v and flags = PAGE_WRITABLE]
  have "walked r ?s = walked r s2" using S(6) boot_paths(3,4) by (auto simp: walked_def)
  then have bt: "boot_tables r ?s" using 2(2) S(1,3,7) by (simp add: boot_tables_def)
  have po: "pool_only s ?s" using d S(2) by (auto simp: descent_def intro: pool_only_trans)
  have v48: "unat v < 2 ^ 48" using assms(2) by simp
  have tr: "translate (mem ?s) r w = (if va w div 2 ^ 21 = unat v div 2 ^ 21 then Some (page_2m ?e w) else translate (mem s) r w)" for w
    using d S(4) [of w] by (simp add: same_page_va va_small [OF v48] translate_trans inv descent_def)
  have "exactly (insert (unat v div 2 ^ 21) I) r (mem ?s)"
    unfolding exactly_def
  proof (rule allI)
    fix w
    show "if va w div 2 ^ 21 \<in> insert (unat v div 2 ^ 21) I then ident r (mem ?s) w else translate (mem ?s) r w = None"
      using boot_pde [of w v] v48 assms(3) [unfolded exactly_def, rule_format, of w]
      by (cases "page_2m ?e w") (auto simp: ident_def tr split: if_splits)
  qed
  moreover have "map_page_2mb r v v PAGE_WRITABLE s = Ret () ?s"
    using 1(1) 2(1) by (simp add: map_page_2mb_def Let_def pde_2m_def)
  ultimately show ?thesis using bt po by simp
qed

section \<open>A region\<close>

lemma boot_map_region:
  fixes s :: "'z paging_st_scheme"
  assumes "boot_tables r s" and "unat v + unat sz \<le> 30 * 2 ^ 30" and "2 ^ 21 dvd unat sz" and "exactly I r (mem s)"
  shows "returns (map_region_2mb r v v sz PAGE_WRITABLE s) (\<lambda>_ s'. boot_tables r s' \<and> pool_only s s' \<and>
    exactly (I \<union> {unat v div 2 ^ 21..<unat v div 2 ^ 21 + unat sz div 2 ^ 21}) r (mem s'))"
proof -
  let ?p = "unat v div 2 ^ 21"
  obtain n where n: "unat sz = n * 2 ^ 21" using assms(3) by (metis dvd_def mult.commute)
  define P where "P k t \<longleftrightarrow> k \<le> n \<and> boot_tables r t \<and> pool_only s t \<and> exactly (I \<union> {?p..<?p + k}) r (mem t)" for k t
  have "returns (for_step 0 sz 0x200000 (\<lambda>offset s. map_page_2mb r (v + offset) (v + offset) PAGE_WRITABLE s) s)
    (\<lambda>_ t. \<exists>k. P k t \<and> unat sz \<le> k * unat (0x200000 :: u64))"
  proof (rule for_step_rule)
    show "P 0 s" using assms(1,4) by (simp add: P_def pool_only_refl)
    show "unat sz + unat (0x200000 :: u64) \<le> 2 ^ LENGTH(64)" using assms(2) by simp
    fix k t assume P: "P k t" and "k * unat (0x200000 :: u64) < unat sz"
    then have k: "k < n" by (simp add: n)
    define x where "x = v + of_nat (k * unat (0x200000 :: u64))"
    have kn: "k * 2 ^ 21 + 2 ^ 21 \<le> unat sz" using k unfolding n by simp
    have x: "unat x = unat v + k * 2 ^ 21" unfolding x_def using kn assms(2) by (simp add: unat_word_ariths unat_of_nat)
    have px: "unat x div 2 ^ 21 = ?p + k" unfolding x by simp
    have "returns (map_page_2mb r x x PAGE_WRITABLE t) (\<lambda>_ s'. boot_tables r s' \<and> pool_only t s' \<and> exactly (insert (unat x div 2 ^ 21) (I \<union> {?p..<?p + k})) r (mem s'))"
      using P x kn assms(2) by (intro boot_map_page) (auto simp: P_def)
    moreover have "insert (?p + k) (I \<union> {?p..<?p + k}) = I \<union> {?p..<?p + Suc k}" by auto
    ultimately show "returns (map_page_2mb r (v + of_nat (k * unat (0x200000 :: u64))) (v + of_nat (k * unat (0x200000 :: u64))) PAGE_WRITABLE t) (\<lambda>_. P (Suc k))"
      unfolding x_def [symmetric] px
      by (elim returns_weaken) (use P k in \<open>auto simp: P_def simp del: Un_insert_right intro: pool_only_trans\<close>)
  qed simp
  then show ?thesis
    unfolding map_region_2mb_def by (rule returns_weaken) (auto simp: P_def n dest!: antisym)
qed

section \<open>The state between two steps of the boot\<close>

text \<open>
  The root of the tables is set, \<open>I\<close> is mapped, the log works and has no screen yet; apart from the pool and the log,
  nothing has changed since \<open>s\<close>.
\<close>

definition boot_inv :: "u64 \<Rightarrow> 'z log_st_scheme \<Rightarrow> nat set \<Rightarrow> 'z log_st_scheme \<Rightarrow> bool" where
  "boot_inv r s I t \<longleftrightarrow> boot_tables r t \<and> exactly I r (mem t) \<and> log_ok t \<and> log_dirty t = {} \<and> g_pml4 t = r
    \<and> log_frame (s\<lparr>pool_offset := pool_offset t\<rparr>) t \<and> (\<forall>x. x \<notin> region (pool_base s) 131072 \<longrightarrow> mem t x = mem s x)"

lemma pool_only_sel:
  assumes "pool_only s t"
  shows "g_pml4 t = g_pml4 s" and "pool_base t = pool_base s"
proof -
  have e: "t = s\<lparr>mem := mem t, pool_offset := pool_offset t\<rparr>" using assms by (simp add: pool_only_def)
  show "g_pml4 t = g_pml4 s" "pool_base t = pool_base s" by (subst e, simp)+
qed

lemma log_frame_base: "log_frame s t \<Longrightarrow> pool_base t = pool_base s" "log_frame s t \<Longrightarrow> pool_offset t = pool_offset s"
  "log_frame s t \<Longrightarrow> g_pml4 t = g_pml4 s"
proof -
  assume "log_frame s t"
  then have e: "t = s\<lparr>now := now t, events := events t, mem := mem t,
     cursor_x := cursor_x t, cursor_y := cursor_y t, fg_color := fg_color t, bg_color := bg_color t\<rparr>" by (simp add: log_frame_def)
  show "pool_base t = pool_base s" "pool_offset t = pool_offset s" "g_pml4 t = g_pml4 s" by (subst e, simp)+
qed

lemma boot_tables_cong:
  assumes "mem t = mem s" and "pool_base t = pool_base s" and "pool_offset t = pool_offset s"
  shows "boot_tables r t = boot_tables r s"
proof -
  have T: "tables t = tables s" using assms by (simp add: tables_def)
  have E: "entries_of t = entries_of s" using assms(1) T by (intro ext) (simp add: entries_of_def)
  show ?thesis
    unfolding boot_tables_def pt_inv_def T E walked_def huge_in_def assms(3) using assms by (simp add: pool_ok_def)
qed

lemma boot_inv_log:
  assumes "boot_inv r s I t" and "plain_format fmt args"
  shows "returns (klog level fmt args t) (\<lambda>_. boot_inv r s I)"
proof -
  from assms(1) have ok: "log_ok t" and d: "log_dirty t = {}" by (simp_all add: boot_inv_def)
  obtain u where u: "klog level fmt args t = Ret () u" "logged (level_tag level @ text_of fmt args @ newline) t u" "log_ok u"
    by (rule klog_textE [OF ok assms(2)])
  note fr = logged_frame [OF u(2)]
  have m: "mem u = mem t" using logged_mem [OF u(2)] d by (auto simp: fun_eq_iff)
  have "log_frame (s\<lparr>pool_offset := pool_offset u\<rparr>) u"
    using log_frame_trans [OF _ fr] assms(1) log_frame_base(2) [OF fr] by (simp add: boot_inv_def)
  then have "boot_inv r s I u"
    using assms(1) u(3) m logged_sel(9) [OF u(2)] log_frame_base [OF fr] boot_tables_cong [of u t r] by (simp add: boot_inv_def)
  then show ?thesis using u(1) by simp
qed

lemma pool_log:
  assumes "pool_only s t"
  shows "log_ok t = log_ok s" and "log_dirty t = log_dirty s" and "log_frame (s\<lparr>pool_offset := pool_offset t\<rparr>) t"
proof -
  have e: "t = s\<lparr>mem := mem t, pool_offset := pool_offset t\<rparr>" using assms by (simp add: pool_only_def)
  show "log_ok t = log_ok s" "log_dirty t = log_dirty s" by (subst e, simp add: log_ok_defs)+
  have "t = s\<lparr>pool_offset := pool_offset t, mem := mem t\<rparr>" by (subst e) simp
  then show "log_frame (s\<lparr>pool_offset := pool_offset t\<rparr>) t" using mem_frame_upd [of "s\<lparr>pool_offset := pool_offset t\<rparr>" "mem t"] by simp
qed

lemma log_frame_offset: "log_frame s t \<Longrightarrow> log_frame (s\<lparr>pool_offset := n\<rparr>) (t\<lparr>pool_offset := n\<rparr>)"
proof -
  assume "log_frame s t"
  then have e: "t = s\<lparr>now := now t, events := events t, mem := mem t,
     cursor_x := cursor_x t, cursor_y := cursor_y t, fg_color := fg_color t, bg_color := bg_color t\<rparr>" by (simp add: log_frame_def)
  show ?thesis unfolding log_frame_def by (subst e) simp
qed

lemma boot_inv_region:
  assumes "boot_inv r s I t" and "unat v + unat sz \<le> 30 * 2 ^ 30" and "2 ^ 21 dvd unat sz"
  shows "returns (map_region_2mb r v v sz PAGE_WRITABLE t) (\<lambda>_. boot_inv r s (I \<union> {unat v div 2 ^ 21..<unat v div 2 ^ 21 + unat sz div 2 ^ 21}))"
proof -
  let ?J = "I \<union> {unat v div 2 ^ 21..<unat v div 2 ^ 21 + unat sz div 2 ^ 21}"
  have "boot_tables r t" "exactly I r (mem t)" using assms(1) by (simp_all add: boot_inv_def)
  from boot_map_region [OF this(1) assms(2,3) this(2)] obtain u where u: "map_region_2mb r v v sz PAGE_WRITABLE t = Ret () u"
    "boot_tables r u" "pool_only t u" "exactly ?J r (mem u)" by (auto simp: returns_conv)
  have fr: "log_frame (s\<lparr>pool_offset := pool_offset u\<rparr>) u"
  proof (rule log_frame_trans [OF _ pool_log(3) [OF u(3)]])
    show "log_frame (s\<lparr>pool_offset := pool_offset u\<rparr>) (t\<lparr>pool_offset := pool_offset u\<rparr>)"
      using log_frame_offset [of "s\<lparr>pool_offset := pool_offset t\<rparr>" t "pool_offset u"] assms(1) by (simp add: boot_inv_def)
  qed
  have b: "pool_base t = pool_base s"
    using log_frame_base(1) [of "s\<lparr>pool_offset := pool_offset t\<rparr>" t] assms(1) by (simp add: boot_inv_def)
  have "mem u x = mem s x" if "x \<notin> region (pool_base s) 131072" for x
    using that u(3) assms(1) b by (simp add: boot_inv_def pool_only_def)
  then have "boot_inv r s ?J u"
    using assms(1) u(2,4) fr pool_only_sel [OF u(3)] pool_log(1,2) [OF u(3)] by (simp add: boot_inv_def)
  then show ?thesis using u(1) by simp
qed

section \<open>The memory map\<close>

text \<open>The large pages that an entry of the map asks for: those that its range touches, if it is usable memory.\<close>

definition entry_pages :: "memory \<Rightarrow> u64 \<Rightarrow> nat set" where
  "entry_pages m e =
     (if entry_type m e = 1
      then {unat (entry_base m e) div 2 ^ 21..<(unat (entry_base m e) + unat (entry_length m e) + (2 ^ 21 - 1)) div 2 ^ 21} else {})"

text \<open>An entry outside \<open>D\<close>; if it is usable memory, it ends below 30 GiB.\<close>

definition entry_ok :: "u64 set \<Rightarrow> memory \<Rightarrow> u64 \<Rightarrow> bool" where
  "entry_ok D m e \<longleftrightarrow> region e 20 \<inter> D = {} \<and>
     (entry_type m e = 1 \<longrightarrow> unat (entry_base m e) + unat (entry_length m e) \<le> 30 * 2 ^ 30)"

lemma entry_fields:
  assumes "entry_ok D m e" and "\<And>x. x \<notin> D \<Longrightarrow> m' x = m x"
  shows "entry_base m' e = entry_base m e" and "entry_length m' e = entry_length m e" and "entry_type m' e = entry_type m e"
proof -
  have c: "m' x = m x" if "x \<in> region e 20" for x using that assms by (auto simp: entry_ok_def)
  show "entry_base m' e = entry_base m e" "entry_length m' e = entry_length m e" "entry_type m' e = entry_type m e"
    using load_part [of e 20 m' m 0 8] load_part [of e 20 m' m 8 8] load_part [of e 20 m' m 16 4] c
    by (simp_all add: mmap_layout load64_def load32_def)
qed

text \<open>The range between the two rounded addresses.\<close>

lemma usable_range:
  fixes b n :: u64
  defines "base \<equiv> b AND NOT 0x1FFFFF" and "hi \<equiv> (b + n + 0x1FFFFF) AND NOT 0x1FFFFF"
  assumes "unat b + unat n \<le> 30 * 2 ^ 30"
  shows "unat base div 2 ^ 21 = unat b div 2 ^ 21" and "2 ^ 21 dvd unat (hi - base)" and "unat base + unat (hi - base) \<le> 30 * 2 ^ 30"
    and "unat b div 2 ^ 21 + unat (hi - base) div 2 ^ 21 = (unat b + unat n + (2 ^ 21 - 1)) div 2 ^ 21"
proof -
  let ?lo = "unat b div 2 ^ 21" and ?up = "(unat b + unat n + (2 ^ 21 - 1)) div 2 ^ 21"
  have base: "unat base = ?lo * 2 ^ 21" unfolding base_def mask_21 by (rule unat_align_down)
  have "unat (b + n + 0x1FFFFF) = unat b + unat n + (2 ^ 21 - 1)" using assms(3) by (simp add: unat_word_ariths)
  then have hi: "unat hi = ?up * 2 ^ 21" unfolding hi_def mask_21 by (simp only: unat_align_down)
  have le: "?lo \<le> ?up" by (intro div_le_mono) simp
  then have "base \<le> hi" using base hi by (simp add: word_le_nat_alt)
  then have d: "unat (hi - base) = (?up - ?lo) * 2 ^ 21" by (simp only: unat_sub base hi diff_mult_distrib)
  show "unat base div 2 ^ 21 = ?lo" unfolding base by simp
  show "2 ^ 21 dvd unat (hi - base)" unfolding d by simp
  show "?lo + unat (hi - base) div 2 ^ 21 = ?up" unfolding d using le by simp
  have "?up \<le> 30 * 2 ^ 9"
    using assms(3) by (intro less_Suc_eq_le [THEN iffD1] less_mult_imp_div_less) simp
  then have "(?lo + (?up - ?lo)) * 2 ^ 21 \<le> 30 * 2 ^ 9 * 2 ^ 21" using le by (intro mult_le_mono1) simp
  then show "unat base + unat (hi - base) \<le> 30 * 2 ^ 30" unfolding base d by (simp add: add_mult_distrib)
qed

lemma boot_inv_usable:
  assumes "boot_inv r s I t" and "entry_ok (region (pool_base s) 131072) (mem s) e"
  shows "returns (map_usable e t) (\<lambda>_. boot_inv r s (I \<union> entry_pages (mem s) e))"
proof -
  have m: "\<And>x. x \<notin> region (pool_base s) 131072 \<Longrightarrow> mem t x = mem s x" and g: "g_pml4 t = r"
    using assms(1) by (auto simp: boot_inv_def)
  note F = entry_fields [OF assms(2) m]
  let ?b = "entry_base (mem s) e" and ?n = "entry_length (mem s) e"
  let ?base = "?b AND NOT 0x1FFFFF" and ?hi = "(?b + ?n + 0x1FFFFF) AND NOT 0x1FFFFF"
  show ?thesis
  proof (cases "entry_type (mem s) e = 1")
    case True
    then have "unat ?b + unat ?n \<le> 30 * 2 ^ 30" using assms(2) by (simp add: entry_ok_def)
    note R = usable_range [OF this]
    have fmt: "plain_format ''Mapping region: 0x%lx - 0x%lx'' [VWord ?base, VWord ?hi]" by (simp add: plain_format_def format_simps)
    obtain u where u: "klog LOG_INFO ''Mapping region: 0x%lx - 0x%lx'' [VWord ?base, VWord ?hi] t = Ret () u" "boot_inv r s I u"
      using boot_inv_log [OF assms(1) fmt, of LOG_INFO] by (auto simp: returns_conv)
    have gu: "g_pml4 u = r" using u(2) by (simp add: boot_inv_def)
    have pg: "entry_pages (mem s) e = {unat ?base div 2 ^ 21..<unat ?base div 2 ^ 21 + unat (?hi - ?base) div 2 ^ 21}"
      unfolding entry_pages_def R(1) R(4) using True by simp
    have "map_usable e t = map_region_2mb r ?base ?base (?hi - ?base) PAGE_WRITABLE u"
      using True u(1) gu by (simp add: map_usable_def F Let_def)
    then show ?thesis using boot_inv_region [OF u(2) R(3,2)] pg by (simp only:)
  next
    case False
    then show ?thesis using assms(1) by (simp add: map_usable_def F entry_pages_def)
  qed
qed

text \<open>The entries of a tag of the memory map, and the pages of all of them.\<close>

definition entry_at :: "memory \<Rightarrow> u64 \<Rightarrow> nat \<Rightarrow> u64" where
  "entry_at m mmap k = mmap + 16 + of_nat (k * unat (mmap_entry_size m mmap))"

definition entry_num :: "memory \<Rightarrow> u64 \<Rightarrow> nat" where
  "entry_num m mmap = (let es = unat (mmap_entry_size m mmap) in (unat (tag_size m mmap) - 16 + (es - 1)) div es)"

definition mmap_pages :: "memory \<Rightarrow> u64 \<Rightarrow> nat set" where
  "mmap_pages m mmap = (\<Union>k<entry_num m mmap. entry_pages m (entry_at m mmap k))"

definition mmap_ok :: "u64 set \<Rightarrow> memory \<Rightarrow> u64 \<Rightarrow> bool" where
  "mmap_ok D m mmap \<longleftrightarrow> 0 < mmap_entry_size m mmap \<and> unat mmap + 16 + unat (tag_size m mmap) + unat (mmap_entry_size m mmap) < 2 ^ 64 \<and>
     region mmap 16 \<inter> D = {} \<and> (\<forall>k<entry_num m mmap. entry_ok D m (entry_at m mmap k))"

lemma ceiling_less: "0 < d \<Longrightarrow> k < (n + (d - 1)) div d \<longleftrightarrow> k * d < n" for d k n :: nat
proof -
  assume d: "0 < d"
  have "k < (n + (d - 1)) div d \<longleftrightarrow> Suc k * d \<le> n + (d - 1)"
    using d by (simp add: Suc_le_eq [symmetric] less_eq_div_iff_mult_less_eq del: mult_Suc)
  also have "\<dots> \<longleftrightarrow> k * d < n" using d by auto
  finally show ?thesis .
qed

lemma mmap_fields:
  assumes "region mmap 16 \<inter> D = {}" and "\<And>x. x \<notin> D \<Longrightarrow> m' x = m x"
  shows "tag_size m' mmap = tag_size m mmap" and "mmap_entry_size m' mmap = mmap_entry_size m mmap"
proof -
  have "m' x = m x" if "x \<in> region mmap 16" for x using that assms by auto
  then show "tag_size m' mmap = tag_size m mmap" "mmap_entry_size m' mmap = mmap_entry_size m mmap"
    using load_part [of mmap 16 m' m 4 4] load_part [of mmap 16 m' m 8 4] by (simp_all add: tag_size_def mmap_entry_size_def load32_def)
qed

lemma entry_at_Suc: "entry_at m mmap (Suc k) = entry_at m mmap k + ucast (mmap_entry_size m mmap)"
  by (simp add: entry_at_def unsigned_ucast_eq algebra_simps)

text \<open>The loop's test tells whether the entry is one of the tag's, and no address wraps around.\<close>

lemma entry_at_bounds:
  assumes "mmap_ok D m mmap" and "k \<le> entry_num m mmap"
  shows "unat (entry_at m mmap k) = unat mmap + 16 + k * unat (mmap_entry_size m mmap)"
    and "entry_at m mmap k < mmap + ucast (tag_size m mmap) \<longleftrightarrow> k < entry_num m mmap"
proof -
  define es where "es = unat (mmap_entry_size m mmap)"
  define sz where "sz = unat (tag_size m mmap)"
  have es: "0 < es" and top: "unat mmap + 16 + sz + es < 2 ^ 64"
    using assms(1) by (simp_all add: mmap_ok_def es_def sz_def word_less_nat_alt)
  have kn: "j < entry_num m mmap \<longleftrightarrow> j * es < sz - 16" for j
    using ceiling_less [OF es, of j "sz - 16"] by (simp add: entry_num_def Let_def es_def sz_def)
  have "k * es < sz + es"
  proof (cases k)
    case (Suc j)
    then have "j * es < sz - 16" using assms(2) kn [of j] by simp
    then show ?thesis using Suc by simp
  qed (use es in simp)
  then show u: "unat (entry_at m mmap k) = unat mmap + 16 + k * unat (mmap_entry_size m mmap)"
    unfolding entry_at_def es_def [symmetric] using top by (simp add: unat_word_ariths unat_of_nat del: of_nat_mult)
  have "take_bit 64 sz = sz" unfolding sz_def using unat32_bound [of "tag_size m mmap"] by (intro take_bit_nat_eq_self) simp
  then have "unat (mmap + ucast (tag_size m mmap)) = unat mmap + sz"
    using top by (simp add: unat_word_ariths unsigned_ucast_eq sz_def)
  then show "entry_at m mmap k < mmap + ucast (tag_size m mmap) \<longleftrightarrow> k < entry_num m mmap"
    using u unfolding kn by (simp add: word_less_nat_alt es_def) linarith
qed

lemma boot_inv_mmap:
  assumes "boot_inv r s I t" and "mmap_ok (region (pool_base s) 131072) (mem s) mmap"
  shows "returns (map_mmap mmap t) (\<lambda>_. boot_inv r s (I \<union> mmap_pages (mem s) mmap))"
proof -
  let ?D = "region (pool_base s) 131072" and ?m = "mem s" and ?e = "entry_at (mem s) mmap" and ?n = "entry_num (mem s) mmap"
  let ?J = "\<lambda>k. I \<union> (\<Union>j<k. entry_pages ?m (?e j))" and ?top = "unat mmap + 16 + ?n * unat (mmap_entry_size ?m mmap)"
  have cl: "region mmap 16 \<inter> ?D = {}" and ok: "\<And>k. k < ?n \<Longrightarrow> entry_ok ?D ?m (?e k)" and es: "0 < unat (mmap_entry_size ?m mmap)"
    using assms(2) by (simp_all add: mmap_ok_def word_less_nat_alt)
  note B = entry_at_bounds [OF assms(2)]
  have F: "tag_size (mem u) mmap = tag_size ?m mmap" "mmap_entry_size (mem u) mmap = mmap_entry_size ?m mmap" if "boot_inv r s J u" for u J
    using mmap_fields [OF cl, of "mem u" ?m] that by (simp_all add: boot_inv_def)
  define P where "P a u \<longleftrightarrow> (\<exists>k\<le>?n. a = ?e k \<and> boot_inv r s (?J k) u)" for a u
  have "returns (loop (\<lambda>entry s. entry < mmap + ucast (tag_size (mem s) mmap))
       (\<lambda>entry s. andthen (map_usable entry s) (\<lambda>_ s. Ret (entry + ucast (mmap_entry_size (mem s) mmap)) s)) (?e 0) t)
     (\<lambda>a u. P a u \<and> \<not> a < mmap + ucast (tag_size (mem u) mmap))"
  proof (rule loop_rule [where M = "\<lambda>a _. ?top - unat a"])
    show "P (?e 0) t" using assms(1) by (auto simp: P_def)
    fix a u assume "P a u" and lt: "a < mmap + ucast (tag_size (mem u) mmap)"
    then obtain k where k: "k \<le> ?n" "a = ?e k" and inv: "boot_inv r s (?J k) u" by (auto simp: P_def)
    then have kl: "k < ?n" using lt B(2) F(1) by simp
    have un: "?J k \<union> entry_pages ?m a = ?J (Suc k)" by (auto simp: k(2) less_Suc_eq)
    obtain w where w: "map_usable a u = Ret () w" "boot_inv r s (?J (Suc k)) w"
      using boot_inv_usable [OF inv, of a] ok [OF kl] k(2) unfolding un by (auto simp: returns_conv)
    have "Suc k * unat (mmap_entry_size ?m mmap) \<le> ?n * unat (mmap_entry_size ?m mmap)" using kl by (intro mult_le_mono1) simp
    then have "?top - unat (?e (Suc k)) < ?top - unat (?e k)" using es kl by (simp add: B(1))
    moreover have "P (?e (Suc k)) w" unfolding P_def by (intro exI [of _ "Suc k"] conjI refl w(2)) (use kl in simp)
    ultimately show "returns (andthen (map_usable a u) (\<lambda>_ s. Ret (a + ucast (mmap_entry_size (mem s) mmap)) s))
        (\<lambda>a' u'. P a' u' \<and> ?top - unat a' < ?top - unat a)"
      using w(1) F(2) [OF w(2)] k(2) by (simp add: entry_at_Suc)
  qed
  moreover have "boot_inv r s (I \<union> mmap_pages ?m mmap) u" if "P a u" "\<not> a < mmap + ucast (tag_size (mem u) mmap)" for a u
    using that B(2) F(1) by (auto simp: P_def mmap_pages_def)
  ultimately show ?thesis unfolding map_mmap_def by (auto simp: entry_at_def elim: returns_weaken)
qed

section \<open>The list of tags\<close>

definition tag_pages :: "memory \<Rightarrow> u64 \<Rightarrow> nat set" where
  "tag_pages m t = (if tag_type m t = MB2_TAG_MMAP then mmap_pages m t else {})"

definition tag_ok :: "u64 set \<Rightarrow> memory \<Rightarrow> u64 \<Rightarrow> bool" where
  "tag_ok D m t \<longleftrightarrow> region t 8 \<inter> D = {} \<and> (tag_type m t = MB2_TAG_MMAP \<longrightarrow> mmap_ok D m t)"

lemma boot_inv_tags:
  assumes "boot_inv r s I u" and "tag_chain (mem s) t ts"
    and "\<forall>t \<in> set (ts @ [chain_end (mem s) t ts]). tag_ok (region (pool_base s) 131072) (mem s) t"
  shows "returns (loop (\<lambda>tag s. tag_type (mem s) tag \<noteq> MB2_TAG_END)
       (\<lambda>tag s. andthen (if tag_type (mem s) tag = MB2_TAG_MMAP then map_mmap tag s else Ret () s) (\<lambda>_ s.
         Ret (next_tag (mem s) tag) s)) t u) (\<lambda>_. boot_inv r s (I \<union> (\<Union>t\<in>set ts. tag_pages (mem s) t)))"
  using assms
proof (induction ts arbitrary: t I u)
  case Nil
  have "tag_type (mem u) t = tag_type (mem s) t"
    using tag_fields_cong(1) [of t "region (pool_base s) 131072" "mem u" "mem s"] Nil by (simp add: boot_inv_def tag_ok_def)
  then show ?case using Nil by (subst loop_unfold) simp
next
  case (Cons x ts)
  let ?D = "region (pool_base s) 131072"
  have x: "x = t" "tag_type (mem s) t \<noteq> MB2_TAG_END" "tag_chain (mem s) (next_tag (mem s) t) ts" using Cons.prems(2) by simp_all
  have ok: "tag_ok ?D (mem s) t" using Cons.prems(3) x(1) by simp
  then have cl: "region t 8 \<inter> ?D = {}" by (simp add: tag_ok_def)
  have F: "tag_type (mem w) t = tag_type (mem s) t" "next_tag (mem w) t = next_tag (mem s) t" if "boot_inv r s J w" for w J
    using tag_fields_cong [OF cl, of "mem w" "mem s"] that by (simp_all add: boot_inv_def)
  have "returns (if tag_type (mem u) t = MB2_TAG_MMAP then map_mmap t u else Ret () u) (\<lambda>_. boot_inv r s (I \<union> tag_pages (mem s) t))"
    using boot_inv_mmap [OF Cons.prems(1)] ok Cons.prems(1) F(1) [OF Cons.prems(1)] by (simp add: tag_pages_def tag_ok_def)
  then obtain w where w: "(if tag_type (mem u) t = MB2_TAG_MMAP then map_mmap t u else Ret () u) = Ret () w"
    "boot_inv r s (I \<union> tag_pages (mem s) t) w" by (auto simp: returns_conv)
  have "I \<union> tag_pages (mem s) t \<union> (\<Union>t\<in>set ts. tag_pages (mem s) t) = I \<union> (\<Union>t\<in>set (x # ts). tag_pages (mem s) t)"
    using x(1) by auto
  note Un = this
  let ?L = "loop (\<lambda>tag s. tag_type (mem s) tag \<noteq> MB2_TAG_END)
       (\<lambda>tag s. andthen (if tag_type (mem s) tag = MB2_TAG_MMAP then map_mmap tag s else Ret () s) (\<lambda>_ s.
         Ret (next_tag (mem s) tag) s))"
  have "?L t u = ?L (next_tag (mem s) t) w"
    using F(1) [OF Cons.prems(1)] F(2) [OF w(2)] x(2) by (subst loop_unfold) (simp only: w(1) [unfolded F(1) [OF Cons.prems(1)]] andthen_simps if_True simp_thms)
  then show ?case using Cons.IH [OF w(2) x(3)] Cons.prems(3) unfolding Un by simp
qed

text \<open>Writes outside the list of tags, and outside the pool, do not matter.\<close>

lemma entry_ok_cong:
  assumes "entry_ok (D \<union> D') m e" and "\<And>x. x \<notin> D' \<Longrightarrow> m' x = m x"
  shows "entry_ok D m' e" and "entry_pages m' e = entry_pages m e"
proof -
  have "entry_ok D' m e" using assms(1) by (auto simp: entry_ok_def)
  note F = entry_fields [OF this assms(2)]
  show "entry_ok D m' e" "entry_pages m' e = entry_pages m e" using assms(1) by (auto simp: entry_ok_def entry_pages_def F)
qed

lemma tag_ok_cong:
  assumes "tag_ok (D \<union> D') m t" and "\<And>x. x \<notin> D' \<Longrightarrow> m' x = m x"
  shows "tag_ok D m' t" and "tag_pages m' t = tag_pages m t"
proof -
  have r: "region t 8 \<inter> D = {}" "region t 8 \<inter> D' = {}" using assms(1) by (auto simp: tag_ok_def)
  note T = tag_fields_cong(1) [OF r(2) assms(2)]
  have "mmap_ok D m' t \<and> mmap_pages m' t = mmap_pages m t" if "mmap_ok (D \<union> D') m t"
  proof -
    have q: "region t 16 \<inter> D = {}" "region t 16 \<inter> D' = {}" using that by (auto simp: mmap_ok_def)
    note F = mmap_fields [OF q(2) assms(2)]
    have n: "entry_num m' t = entry_num m t" "entry_at m' t = entry_at m t" by (simp_all add: entry_num_def entry_at_def F fun_eq_iff)
    have e: "entry_ok (D \<union> D') m (entry_at m t k)" if "k < entry_num m t" for k
      using \<open>mmap_ok (D \<union> D') m t\<close> that by (simp add: mmap_ok_def)
    show ?thesis
      using that q(1) entry_ok_cong [OF e assms(2)] by (simp add: mmap_ok_def mmap_pages_def n F)
  qed
  then show "tag_ok D m' t" "tag_pages m' t = tag_pages m t" using assms(1) r(1) by (auto simp: tag_ok_def tag_pages_def T)
qed

lemma translate_pool_cong:
  assumes "pt_inv r s" and "\<And>x. x \<in> region (pool_base s) 131072 \<Longrightarrow> m x = mem s x"
  shows "translate m r w = translate (mem s) r w"
proof -
  let ?t = "s\<lparr>mem := m\<rparr>"
  have ok: "pool_ok s" using assms(1) by (simp add: pt_inv_def)
  have T: "tables ?t = tables s" by (simp add: tables_def)
  have "load64 m (entry_addr a i) = load64 (mem s) (entry_addr a i)" if "a \<in> tables s" "i < 512" for a i
  proof -
    have "unat i < 512" using that(2) by (simp add: word_less_nat_alt)
    then have "x \<in> region (pool_base s) 131072" if "x \<in> region (entry_addr a i) 8" for x
      using in_pool [OF ok _ _ that] table_bounds(3,4) [OF \<open>a \<in> tables s\<close> ok] ok entry_addr_nat [OF \<open>a \<in> tables s\<close> ok \<open>i < 512\<close>]
      by (simp add: pool_ok_def)
    then show ?thesis using load_part [of "entry_addr a i" 8 m "mem s" 0 8] assms(2) by (simp add: load64_def)
  qed
  then have E: "entries_of ?t = entries_of s" by (intro ext) (simp add: entries_of_def T)
  have "pt_inv r ?t" using assms(1) unfolding pt_inv_def T E by (simp add: pool_ok_def)
  then show ?thesis using translate_trans [of r ?t w] translate_trans [OF assms(1), of w] E by simp
qed

lemma exactly_pool_cong:
  assumes "pt_inv r s" and "exactly I r (mem s)" and "\<And>x. x \<in> region (pool_base s) 131072 \<Longrightarrow> m x = mem s x"
  shows "exactly I r m"
proof -
  have t: "translate m r w = translate (mem s) r w" for w by (rule translate_pool_cong [OF assms(1,3)])
  show ?thesis using assms(2) unfolding exactly_def ident_def t .
qed

section \<open>The whole initialisation\<close>

text \<open>The large pages mapped in the end: the first, those of the kernel and one more, and those of the memory map.\<close>

definition kernel_pages :: "u64 \<Rightarrow> u64 \<Rightarrow> nat" where
  "kernel_pages kernel_start kernel_end = (unat kernel_end - unat kernel_start + (2 ^ 21 - 1)) div 2 ^ 21 + 1"

definition boot_pages :: "memory \<Rightarrow> u64 \<Rightarrow> u64 \<Rightarrow> u64 list \<Rightarrow> nat set" where
  "boot_pages m kernel_start kernel_end ts = {0} \<union>
     {unat kernel_start div 2 ^ 21..<unat kernel_start div 2 ^ 21 + kernel_pages kernel_start kernel_end} \<union> (\<Union>t\<in>set ts. tag_pages m t)"

lemma kernel_map_size:
  fixes ks ke :: u64
  defines "sz \<equiv> (((ke - ks + 0x1FFFFF) AND NOT 0x1FFFFF) + sizeof_pool + 0x1FFFFF) AND NOT 0x1FFFFF"
  assumes "ks \<le> ke" and "unat ke + 2 ^ 22 \<le> 30 * 2 ^ 30"
  shows "unat sz = kernel_pages ks ke * 2 ^ 21" and "unat ks + unat sz \<le> 30 * 2 ^ 30"
proof -
  let ?q = "(unat ke - unat ks + (2 ^ 21 - 1)) div 2 ^ 21"
  have d: "unat (ke - ks) = unat ke - unat ks" using assms(2) by (rule unat_sub)
  have le: "unat ks \<le> unat ke" using assms(2) by (simp add: word_le_nat_alt)
  have q: "?q * 2 ^ 21 \<le> unat ke - unat ks + (2 ^ 21 - 1)" by simp
  have "unat (ke - ks + 0x1FFFFF) = unat ke - unat ks + (2 ^ 21 - 1)" using assms(3) d by (simp add: unat_word_ariths)
  then have 1: "unat ((ke - ks + 0x1FFFFF) AND NOT 0x1FFFFF) = ?q * 2 ^ 21" unfolding mask_21 by (simp only: unat_align_down)
  have "unat (((ke - ks + 0x1FFFFF) AND NOT 0x1FFFFF) + sizeof_pool + 0x1FFFFF) = ?q * 2 ^ 21 + (131072 + (2 ^ 21 - 1))"
    using 1 q assms(3) by (simp add: unat_word_ariths sizeof_pool_def)
  moreover have "(?q * 2 ^ 21 + (131072 + (2 ^ 21 - 1))) div 2 ^ 21 = ?q + 1" by simp
  ultimately show sz: "unat sz = kernel_pages ks ke * 2 ^ 21"
    unfolding sz_def mask_21 by (simp only: unat_align_down kernel_pages_def)
  show "unat ks + unat sz \<le> 30 * 2 ^ 30" unfolding sz kernel_pages_def using q le assms(3) by simp
qed

lemma kernel_pages_cover:
  assumes "unat ks \<le> x" and "x < unat ke"
  shows "x div 2 ^ 21 \<in> {unat ks div 2 ^ 21..<unat ks div 2 ^ 21 + kernel_pages ks ke}"
proof -
  define a where "a = unat ks div 2 ^ 21"
  define q where "q = (unat ke - unat ks + (2 ^ 21 - 1)) div 2 ^ 21"
  have "unat ks < a * 2 ^ 21 + 2 ^ 21" unfolding a_def using dividend_less_div_times [of "2 ^ 21" "unat ks"] by simp
  moreover have "unat ke - unat ks \<le> q * 2 ^ 21"
    using round_up_bounds(1) [of "unat ke - unat ks" 21] by (simp only: round_up_def q_def)
  ultimately have "x < (a + q + 1) * 2 ^ 21" using assms by (simp add: add_mult_distrib)
  then have "x div 2 ^ 21 < a + q + 1" by (rule less_mult_imp_div_less)
  moreover have "a \<le> x div 2 ^ 21" unfolding a_def using assms(1) by (rule div_le_mono)
  ultimately show ?thesis by (simp add: kernel_pages_def a_def q_def)
qed

lemma entry_pages_cover:
  assumes "entry_type m e = 1" and "unat (entry_base m e) \<le> x" and "x < unat (entry_base m e) + unat (entry_length m e)"
  shows "x div 2 ^ 21 \<in> entry_pages m e"
proof -
  let ?n = "unat (entry_base m e) + unat (entry_length m e)"
  have "?n \<le> (?n + (2 ^ 21 - 1)) div 2 ^ 21 * 2 ^ 21" using round_up_bounds(1) [of ?n 21] by (simp only: round_up_def)
  then have "x div 2 ^ 21 < (?n + (2 ^ 21 - 1)) div 2 ^ 21" using assms(3) by (intro less_mult_imp_div_less) linarith
  then show ?thesis using assms(1) div_le_mono [OF assms(2), of "2 ^ 21"] by (simp add: entry_pages_def)
qed

text \<open>The empty root table.\<close>

lemma boot_start:
  fixes s :: "'z log_st_scheme"
  assumes "pool_offset s = 0" and "pool_ok s" and "log_ok s" and "log_dirty s = {}"
  shows "returns (alloc_page_table s) (\<lambda>r t. r = pool_base s \<and> boot_inv r (s\<lparr>g_pml4 := r\<rparr>) {} (t\<lparr>g_pml4 := r\<rparr>))"
proof -
  let ?r = "pool_base s"
  have "room s 1" using assms(1) by (simp add: room_def)
  from alloc_page_table_fresh [OF assms(2) this] obtain t where t: "alloc_page_table s = Ret ?r t" "pool_ok t"
    "tables t = insert ?r (tables s)" "entries_of t = entries_of s" "pool_only s t" "unat (pool_offset t) = 4096"
    using assms(1) by (auto simp: returns_conv)
  have "tables s = {}" using assms(1) by (simp add: tables_def)
  then have T: "tables t = {?r}" and E: "entries_of t a i = 0" for a i using t(3,4) by (simp_all add: entries_of_def)
  have inv: "pt_inv ?r t" using empty_tree(1) [OF E] t(2) by (simp add: pt_inv_def T)
  have "[] \<in> walked ?r t" by (simp add: walked_def boot_paths_def)
  moreover have "finite (walked ?r t)" using boot_paths(1) by (simp add: walked_def)
  ultimately have "0 < card (walked ?r t)" by (auto simp: card_gt_0_iff)
  then have bt: "boot_tables ?r t" using inv t(6) empty_tree(2) [OF E] by (auto simp: boot_tables_def huge_in_def)
  have ex: "exactly {} ?r (mem t)"
    using empty_tree(2) [OF E] unfolding exactly_def translate_trans [OF inv]
    by (auto simp: trans_def Let_def split: option.splits)
  let ?s = "s\<lparr>g_pml4 := ?r\<rparr>" and ?t = "t\<lparr>g_pml4 := ?r\<rparr>"
  have "pool_only ?s ?t"
  proof -
    have e: "t = s\<lparr>mem := mem t, pool_offset := pool_offset t\<rparr>" using t(5) by (simp add: pool_only_def)
    have "?t = ?s\<lparr>mem := mem t, pool_offset := pool_offset t\<rparr>" by (subst e) simp
    then show ?thesis using t(5) by (simp add: pool_only_def)
  qed
  moreover have "log_ok ?s = log_ok s" "log_dirty ?s = log_dirty s" by (simp_all add: log_ok_defs)
  moreover have "boot_tables ?r ?t" using bt by (subst boot_tables_cong [of ?t t]) simp_all
  moreover have "\<forall>x. x \<notin> region ?r 131072 \<longrightarrow> mem t x = mem s x" using t(5) by (simp add: pool_only_def)
  ultimately have "boot_inv ?r ?s {} ?t"
    using ex assms(3,4) pool_log [of ?s ?t] by (simp add: boot_inv_def)
  then show ?thesis using t(1) by simp
qed

lemma paging_init_ok:
  fixes s :: "'z log_st_scheme"
  assumes "g_pml4 s = 0" and "pool_offset s = 0" and "pool_ok s" and "log_ok s" and "log_dirty s = {}"
    and "kernel_start \<le> kernel_end" and "unat kernel_end + 2 ^ 22 \<le> 30 * 2 ^ 30" and "tag_chain (mem s) (info + 8) ts"
    and "\<forall>t\<in>set (ts @ [chain_end (mem s) (info + 8) ts]). tag_ok (region (pool_base s) 131072) (mem s) t"
  shows "\<exists>t. paging_init kernel_start kernel_end info s = Ret (pool_base s) (t\<lparr>cr3 := pool_base s\<rparr>) \<and>
    boot_inv (pool_base s) (s\<lparr>g_pml4 := pool_base s\<rparr>) (boot_pages (mem s) kernel_start kernel_end ts) t"
proof -
  let ?r = "pool_base s" and ?ks = kernel_start and ?ke = kernel_end
  let ?s = "s\<lparr>g_pml4 := ?r\<rparr>" and ?kp = "unat ?ks div 2 ^ 21" and ?n = "kernel_pages ?ks ?ke"
  let ?sz = "(((?ke - ?ks + 0x1FFFFF) AND NOT 0x1FFFFF) + sizeof_pool + 0x1FFFFF) AND NOT 0x1FFFFF"
  have g: "g_pml4 u = ?r" if "boot_inv ?r ?s J u" for u J using that by (simp add: boot_inv_def)
  obtain t0 where t0: "alloc_page_table s = Ret ?r t0" "boot_inv ?r ?s {} (t0\<lparr>g_pml4 := ?r\<rparr>)"
    using boot_start [OF assms(2-5)] by (auto simp: returns_conv)
  obtain t1 where t1: "map_region_2mb ?r 0 0 0x200000 PAGE_WRITABLE (t0\<lparr>g_pml4 := ?r\<rparr>) = Ret () t1" "boot_inv ?r ?s {0} t1"
    using boot_inv_region [OF t0(2), of 0 "0x200000"] by (auto simp: returns_conv)
  note K = kernel_map_size [OF assms(6,7)]
  obtain t2 where t2: "map_region_2mb ?r ?ks ?ks ?sz PAGE_WRITABLE t1 = Ret () t2" "boot_inv ?r ?s ({0} \<union> {?kp..<?kp + ?n}) t2"
    using boot_inv_region [OF t1(2) K(2)] unfolding K(1) by (auto simp: returns_conv)
  have "tag_chain (mem ?s) (info + 8) ts" and "\<forall>t\<in>set (ts @ [chain_end (mem ?s) (info + 8) ts]). tag_ok (region (pool_base ?s) 131072) (mem ?s) t"
    using assms(8,9) by simp_all
  from boot_inv_tags [OF t2(2) this] obtain a t3 where t3:
    "loop (\<lambda>tag s. tag_type (mem s) tag \<noteq> MB2_TAG_END)
       (\<lambda>tag s. andthen (if tag_type (mem s) tag = MB2_TAG_MMAP then map_mmap tag s else Ret () s) (\<lambda>_ s.
         Ret (next_tag (mem s) tag) s)) (info + 8) t2 = Ret a t3"
    "boot_inv ?r ?s (boot_pages (mem s) ?ks ?ke ts) t3" by (auto simp: returns_conv boot_pages_def)
  have "paging_init ?ks ?ke info s = Ret ?r (t3\<lparr>cr3 := ?r\<rparr>)"
    using assms(1) t0(1) t1(1) t2(1) t3(1) g [OF t1(2)] g [OF t2(2)] g [OF t3(2)]
    by (simp add: paging_init_def Let_def paging_switch_def)
  then show ?thesis using t3(2) by blast
qed

section \<open>Properties\<close>

text \<open>
  C4. \<open>paging_init\<close> builds the kernel's address space. Called once, before the console is up, with an unused pool, a
  well-formed list of tags outside the pool and everything to be mapped below 30 GiB, it returns the first table of the pool,
  and the processor uses it. The first 2 MiB, the kernel's image and all usable memory of the map are then translated to
  themselves, writable; an address in none of the large pages of these ranges is not mapped at all. The 32 tables of the pool
  suffice, and memory outside the pool is unchanged.
\<close>

theorem paging_init_identity:
  assumes "g_pml4 s = 0" and "pool_offset s = 0" and "pool_ok s" and "log_ok s" and "log_dirty s = {}"
    and "kernel_start \<le> kernel_end" and "unat kernel_end + 2 ^ 22 \<le> 30 * 2 ^ 30" and "tag_chain (mem s) (info + 8) ts"
    and "\<forall>t\<in>set (ts @ [chain_end (mem s) (info + 8) ts]). tag_ok (region (pool_base s) 131072) (mem s) t"
  shows "returns (paging_init kernel_start kernel_end info s) (\<lambda>r t. r = pool_base s \<and> cr3 t = r \<and> g_pml4 t = r \<and> pt_inv r t \<and>
    (\<forall>w. va w < 2 ^ 21 \<longrightarrow> ident r (mem t) w) \<and>
    (\<forall>w. unat kernel_start \<le> va w \<and> va w < unat kernel_end \<longrightarrow> ident r (mem t) w) \<and>
    (\<forall>tag\<in>set ts. tag_type (mem s) tag = MB2_TAG_MMAP \<longrightarrow> (\<forall>k<entry_num (mem s) tag.
      let e = entry_at (mem s) tag k; base = unat (entry_base (mem s) e); len = unat (entry_length (mem s) e) in
      entry_type (mem s) e = 1 \<longrightarrow> (\<forall>w. base \<le> va w \<and> va w < base + len \<longrightarrow> ident r (mem t) w))) \<and>
    (\<forall>w. va w div 2 ^ 21 \<notin> boot_pages (mem s) kernel_start kernel_end ts \<longrightarrow> translate (mem t) r w = None) \<and>
    (\<forall>x. x \<notin> region (pool_base s) 131072 \<longrightarrow> mem t x = mem s x))"
proof -
  let ?r = "pool_base s" and ?B = "boot_pages (mem s) kernel_start kernel_end ts"
  from paging_init_ok [OF assms] obtain t where t: "paging_init kernel_start kernel_end info s = Ret ?r (t\<lparr>cr3 := ?r\<rparr>)"
    "boot_inv ?r (s\<lparr>g_pml4 := ?r\<rparr>) ?B t" by blast
  have id: "ident ?r (mem t) w" if "va w div 2 ^ 21 \<in> ?B" for w using t(2) that by (auto simp: boot_inv_def exactly_def)
  have no: "translate (mem t) ?r w = None" if "va w div 2 ^ 21 \<notin> ?B" for w using t(2) that by (auto simp: boot_inv_def exactly_def)
  have "va w div 2 ^ 21 \<in> ?B" if "tag \<in> set ts" "tag_type (mem s) tag = MB2_TAG_MMAP" "k < entry_num (mem s) tag"
    "entry_type (mem s) (entry_at (mem s) tag k) = 1" "unat (entry_base (mem s) (entry_at (mem s) tag k)) \<le> va w"
    "va w < unat (entry_base (mem s) (entry_at (mem s) tag k)) + unat (entry_length (mem s) (entry_at (mem s) tag k))" for tag k w
    using entry_pages_cover [OF that(4-6)] that(1-3) by (auto simp: boot_pages_def tag_pages_def mmap_pages_def)
  moreover have "va w div 2 ^ 21 \<in> ?B" if "unat kernel_start \<le> va w" "va w < unat kernel_end" for w
    using kernel_pages_cover [OF that] by (simp add: boot_pages_def)
  moreover have "va w div 2 ^ 21 \<in> ?B" if "va w < 2 ^ 21" for w using that by (simp add: boot_pages_def)
  moreover have "pt_inv ?r (t\<lparr>cr3 := ?r\<rparr>)"
    using boot_tables_cong [of "t\<lparr>cr3 := ?r\<rparr>" t ?r] t(2) by (simp add: boot_inv_def) (simp add: boot_tables_def)
  moreover have "g_pml4 t = ?r" "\<And>x. x \<notin> region ?r 131072 \<Longrightarrow> mem t x = mem s x" using t(2) by (simp_all add: boot_inv_def)
  ultimately show ?thesis using t(1) id no by (simp add: Let_def)
qed

text \<open>A memory map with one usable region, from 1 MiB to 16 MiB.\<close>

definition demo_map :: memory where
  "demo_map = (\<lambda>_. 0)(0x10008 := 6, 0x1000C := 40, 0x10010 := 24, 0x1001A := 0x10, 0x10022 := 0xF0, 0x10028 := 1, 0x10034 := 8)"

definition demo_paging :: log_st where
  "demo_paging = demo_boot\<lparr>mem := demo_map, g_pml4 := 0, pool_base := 0x200000, pool_offset := 0\<rparr>"

lemma demo_paging:
  shows "log_ok demo_paging" and "log_dirty demo_paging = {}" and "pool_ok demo_paging" and "mem demo_paging = demo_map"
    and "g_pml4 demo_paging = 0" and "pool_offset demo_paging = 0" and "pool_base demo_paging = 0x200000"
proof -
  show "log_ok demo_paging" 
    using demo_log_ok by (simp add: demo_paging_def demo_boot_def log_ok_def console_ready_def uart_live_def uart_ready_def)
  show "log_dirty demo_paging = {}" by (simp add: demo_paging_def demo_boot_def log_dirty_def console_ready_def)
  show "pool_ok demo_paging" "mem demo_paging = demo_map" "g_pml4 demo_paging = 0" "pool_offset demo_paging = 0" "pool_base demo_paging = 0x200000"
    by (simp_all add: demo_paging_def pool_ok_def)
qed

lemma demo_map_tags_in:
  assumes "region 0x10008 16 \<inter> D = {}" and "region 0x10018 20 \<inter> D = {}" and "region 0x10030 8 \<inter> D = {}"
  shows "\<forall>t\<in>{0x10008, 0x10030}. tag_ok D demo_map t"
proof -
  have n: "entry_num demo_map 0x10008 = 1" "entry_at demo_map 0x10008 0 = 0x10018"
    by (simp_all add: entry_num_def entry_at_def mmap_entry_size_def tag_size_def load32_bytes demo_map_def)
  have f: "mmap_entry_size demo_map 0x10008 = 24" "tag_size demo_map 0x10008 = 40" "tag_type demo_map 0x10030 = 0"
    by (simp_all add: load32_bytes mmap_entry_size_def tag_size_def tag_type_def demo_map_def)
  have "entry_ok D demo_map 0x10018" using assms(2) by (simp add: entry_ok_def mmap_layout load64_bytes load32_bytes demo_map_def)
  then have "mmap_ok D demo_map 0x10008" using assms(1) by (simp add: mmap_ok_def n f)
  moreover have "region 0x10008 8 \<subseteq> region (0x10008 :: u64) 16" by (auto simp: region_iff)
  ultimately show ?thesis using assms(1,3) by (auto simp: tag_ok_def f mb2_tag_defs)
qed

lemma demo_map_tags: "tag_chain demo_map 0x10008 [0x10008]" "chain_end demo_map 0x10008 [0x10008] = 0x10030"
  by (simp_all add: tag_bytes demo_map_def mb2_tag_defs)

theorem paging_init_identity_witness:
  "returns (paging_init 0x100000 0x300000 0x10000 demo_paging) (\<lambda>r t. r = 0x200000 \<and> cr3 t = r \<and>
    ident r (mem t) 0xB8000 \<and> ident r (mem t) 0x2FFFFF \<and> ident r (mem t) 0xABCDEF \<and> translate (mem t) r 0xFEE00000 = None)"
proof -
  have va: "va 0xB8000 = 0xB8000" "va 0x2FFFFF = 0x2FFFFF" "va 0xABCDEF = 0xABCDEF" "va 0xFEE00000 = 0xFEE00000" by (simp_all add: va_def)
  have n: "entry_num demo_map 0x10008 = 1" "entry_at demo_map 0x10008 0 = 0x10018" "tag_type demo_map 0x10008 = MB2_TAG_MMAP"
    by (simp_all add: entry_num_def entry_at_def mmap_entry_size_def tag_type_def tag_size_def load32_bytes demo_map_def mb2_tag_defs)
  have e: "entry_type demo_map 0x10018 = 1" "entry_base demo_map 0x10018 = 0x100000" "entry_length demo_map 0x10018 = 0xF00000"
    by (simp_all add: mmap_layout load64_bytes load32_bytes demo_map_def)
  have out: "0xFEE00000 div 2 ^ 21 \<notin> boot_pages demo_map 0x100000 0x300000 [0x10008]"
    using n e by (simp add: boot_pages_def kernel_pages_def tag_pages_def mmap_pages_def entry_pages_def)
  have sep: "region a n \<inter> region b k = {}" if "separate a n b k" for a b :: u64 and n k using separate_disjoint [OF that] by blast
  have a: "tag_chain (mem demo_paging) (0x10000 + 8) [0x10008]"
    "\<forall>t\<in>set ([0x10008] @ [chain_end (mem demo_paging) (0x10000 + 8) [0x10008]]). tag_ok (region (pool_base demo_paging) 131072) (mem demo_paging) t"
    using demo_map_tags demo_map_tags_in [of "region 0x200000 131072"] by (auto simp: demo_paging sep separate_def)
  show ?thesis
    by (rule returns_weaken [OF paging_init_identity [OF demo_paging(5,6,3,1,2) _ _ a, of "0x100000" "0x300000"]])
      (use out in \<open>auto simp: demo_paging va n e Let_def\<close>)
qed

end
