(* ===== verification/Kernel_Boot.thy ===== *)
theory Kernel_Boot
  imports Kernel Boot_Paging
begin

text \<open>
  The first half of \<open>kernel_main\<close>: serial line, interrupt table, page tables and heap are set up one after the other, and none of
  them damages what an earlier one has built.
\<close>

section \<open>What the boot loader and the linker promise\<close>

abbreviation pool_region :: "'z smp_st_scheme \<Rightarrow> u64 set" where
  "pool_region s \<equiv> region (pool_base s) 131072"

abbreviation idt_region :: "'z smp_st_scheme \<Rightarrow> u64 set" where
  "idt_region s \<equiv> region (idt_base s) 4096"

definition heap_size :: "symbols \<Rightarrow> u64" where
  "heap_size ld = ld_heap_end ld - ld_heap_start ld"

definition heap_region :: "symbols \<Rightarrow> u64 set" where
  "heap_region ld = span (unat (ld_heap_start ld)) (unat (heap_size ld))"

text \<open>
  The variables have their initial values, the page table pool, the interrupt table, the heap and the boot information lie apart, and
  everything to be mapped is below 30 GiB.
\<close>

definition boot_ready :: "symbols \<Rightarrow> u64 \<Rightarrow> u64 list \<Rightarrow> 'z smp_st_scheme \<Rightarrow> bool" where
  "boot_ready ld info ts s \<longleftrightarrow>
     uart_live s \<and> klog_lock s = 0 \<and> \<not> con_initialized s \<and> g_pml4 s = 0 \<and> pool_offset s = 0 \<and> pool_ok s \<and>
     ld_kernel_start ld \<le> ld_kernel_end ld \<and> unat (ld_kernel_end ld) + 2 ^ 22 \<le> 30 * 2 ^ 30 \<and>
     ld_heap_start ld \<le> ld_heap_end ld \<and> 32 \<le> unat (heap_size ld) \<and> 8 < unat (ld_heap_start ld) \<and> 8 dvd unat (ld_heap_start ld) \<and>
     pool_region s \<inter> idt_region s = {} \<and> heap_region ld \<inter> (pool_region s \<union> idt_region s) = {} \<and>
     tag_chain (mem s) (info + 8) ts \<and>
     (\<forall>t\<in>set (ts @ [chain_end (mem s) (info + 8) ts]). tag_ok (pool_region s \<union> idt_region s) (mem s) t)"

lemma boot_readyD:
  assumes "boot_ready ld info ts s"
  shows "log_ok s" and "log_dirty s = {}" and "unat (ld_heap_start ld) + unat (heap_size ld) \<le> 2 ^ 64"
proof -
  show "log_ok s" "log_dirty s = {}" using assms by (simp_all add: boot_ready_def log_ok_def log_dirty_def console_ready_def)
  have "ld_heap_start ld \<le> ld_heap_end ld" using assms by (simp add: boot_ready_def)
  then show "unat (ld_heap_start ld) + unat (heap_size ld) \<le> 2 ^ 64"
    using unat64_bound [of "ld_heap_end ld"] by (simp add: heap_size_def unat_sub word_le_nat_alt)
qed

section \<open>The steps\<close>

lemma serial_init_events: "serial_init s = s\<lparr>events := events (serial_init s)\<rparr>"
  by (simp add: serial_init_def Let_def x86_outb_def emit_def)

lemma log_frame_fields: "log_frame s t \<Longrightarrow> idt_base t = idt_base s" "log_frame s t \<Longrightarrow> cr3 t = cr3 s"
  "log_frame s t \<Longrightarrow> log_ok s \<Longrightarrow> log_dirty s = {} \<Longrightarrow> con_initialized t = con_initialized s" for s t :: "'z dev_st_scheme"
proof -
  assume "log_frame s t"
  then have e: "t = s\<lparr>now := now t, events := events t, mem := mem t,
     cursor_x := cursor_x t, cursor_y := cursor_y t, fg_color := fg_color t, bg_color := bg_color t\<rparr>" by (simp add: log_frame_def)
  show "idt_base t = idt_base s" "cr3 t = cr3 s" "con_initialized t = con_initialized s" by (subst e, simp)+
qed

lemma first_block_outside:
  assumes "x \<notin> region start 32"
  shows "first_block start sz m x = m x"
proof -
  note p = part_outside [OF assms]
  have "x \<notin> region start 4" "x \<notin> region (start + 8) 8" "x \<notin> region (start + 16) 8" "x \<notin> region (start + 24) 1"
    using p [of 0 4] p [of 8 8] p [of 16 8] p [of 24 1] by simp_all
  then show ?thesis
    by (simp add: first_block_def set_free_def set_next_def set_size_def set_magic_def store64_outside write_outside)
qed

text \<open>Serial line and interrupt table.\<close>

lemma boot_idt:
  assumes "boot_ready ld info ts s"
  shows "\<exists>t. idt_init (isr ld) (isr_timer ld) (isr_spurious ld) (serial_init s) = Ret () t \<and> log_frame s t \<and> log_ok t \<and>
    (\<forall>x. x \<notin> idt_region s \<longrightarrow> mem t x = mem s x) \<and>
    (\<forall>v. gate (mem t) (idt_base s + 16 * ucast v) =
       (case idt_gate (isr ld) (isr_timer ld) (isr_spurious ld) v of Some g \<Rightarrow> g | None \<Rightarrow> gate (mem s) (idt_base s + 16 * ucast v)))"
proof -
  let ?s = "serial_init s"
  have e: "?s = s\<lparr>events := events ?s\<rparr>" by (rule serial_init_events)
  have ok: "log_ok ?s" and d: "log_dirty ?s = {}" using boot_readyD(1,2) [OF assms] by (subst e, simp)+
  have m: "mem ?s = mem s" "idt_base ?s = idt_base s" by (subst e, simp)+
  have fr: "log_frame s ?s" by (subst e) (simp add: log_frame_def)
  show ?thesis
    using idt_init_ok [OF ok, of "isr ld" "isr_timer ld" "isr_spurious ld", unfolded m d, OF Int_empty_right] log_frame_trans [OF fr] by blast
qed

text \<open>Page tables.\<close>

lemma boot_page_tables:
  fixes s t :: "'z smp_st_scheme"
  assumes "boot_ready ld info ts s" and "log_frame s t" and "log_ok t" and "\<And>x. x \<notin> idt_region s \<Longrightarrow> mem t x = mem s x"
  shows "\<exists>u. paging_init (ld_kernel_start ld) (ld_kernel_end ld) info t = Ret (pool_base s) (u\<lparr>cr3 := pool_base s\<rparr>) \<and>
    boot_inv (pool_base s) (t\<lparr>g_pml4 := pool_base s\<rparr>) (boot_pages (mem s) (ld_kernel_start ld) (ld_kernel_end ld) ts) u"
proof -
  have R: "g_pml4 s = 0" "pool_offset s = 0" "pool_ok s" "tag_chain (mem s) (info + 8) ts" "ld_kernel_start ld \<le> ld_kernel_end ld"
    "unat (ld_kernel_end ld) + 2 ^ 22 \<le> 30 * 2 ^ 30" "\<not> con_initialized s"
    and tags: "\<And>x. x \<in> set (ts @ [chain_end (mem s) (info + 8) ts]) \<Longrightarrow> tag_ok (pool_region s \<union> idt_region s) (mem s) x"
    using assms(1) by (auto simp: boot_ready_def)
  note f = log_frame_base [OF assms(2)] log_frame_fields(3) [OF assms(2) boot_readyD(1,2) [OF assms(1)]]
  have "log_dirty t = {}" using f R(7) by (simp add: log_dirty_def console_ready_def)
  moreover have "pool_ok t" using R(3) f by (simp add: pool_ok_def)
  moreover have "tags_clear (idt_region s) (ts @ [chain_end (mem s) (info + 8) ts])"
    using tags by (auto simp: tags_clear_def tag_ok_def)
  note c = tag_chain_cong [OF this assms(4) R(4)]
  have "\<forall>x\<in>set (ts @ [chain_end (mem t) (info + 8) ts]). tag_ok (region (pool_base t) 131072) (mem t) x"
    using tag_ok_cong(1) [OF tags assms(4)] c(2) f(1) by auto
  moreover have "boot_pages (mem t) a b ts = boot_pages (mem s) a b ts" for a b
    using tag_ok_cong(2) [OF tags assms(4)] by (auto simp: boot_pages_def)
  ultimately show ?thesis
    using paging_init_ok [of t "ld_kernel_start ld" "ld_kernel_end ld" info ts] R f assms(3) c(1) by simp
qed

text \<open>The heap.\<close>

lemma boot_heap:
  fixes s t u :: "'z smp_st_scheme"
  assumes "boot_ready ld info ts s" and "boot_inv r (t\<lparr>g_pml4 := r\<rparr>) I u" and "r = pool_base s" and "log_frame s t"
  shows "\<exists>w. kalloc_init (ld_heap_start ld) (heap_size ld) (u\<lparr>cr3 := r\<rparr>) = Ret () w \<and> log_ok w \<and>
    heap_holds w {} \<and> heap_ok w [Blk (unat (heap_size ld) - 32) True] \<and> g_heap_start w = ld_heap_start ld \<and> cr3 w = r \<and> g_pml4 w = r \<and>
    exactly I r (mem w) \<and> (\<forall>x. x \<notin> pool_region s \<longrightarrow> x \<notin> heap_region ld \<longrightarrow> mem w x = mem t x)"
proof -
  let ?h = "ld_heap_start ld" and ?n = "heap_size ld" and ?u = "u\<lparr>cr3 := r\<rparr>"
  let ?v = "?u\<lparr>g_heap_start := ?h, g_heap_total_size := ?n, mem := first_block ?h ?n (mem ?u)\<rparr>"
  have R: "32 \<le> unat ?n" "8 < unat ?h" "8 dvd unat ?h" "heap_region ld \<inter> pool_region s = {}"
    using assms(1) by (auto simp: boot_ready_def)
  have b: "pool_base u = pool_base s" using assms(2,4) by (auto simp: boot_inv_def dest!: log_frame_base(1))
  have B: "pt_inv r u" "exactly I r (mem u)" "log_ok ?u" "log_dirty ?u = {}" "g_pml4 u = r"
    "\<And>x. x \<notin> pool_region s \<Longrightarrow> mem u x = mem t x"
    using assms(2) log_frame_base(1) [OF assms(4)] by (auto simp: boot_inv_def boot_tables_def log_ok_defs)
  obtain w where w: "kalloc_init ?h ?n ?u = Ret () w" "log_ok w" "heap_ok w [Blk (unat ?n - 32) True]" "g_heap_start w = ?h"
    "logged (level_tag LOG_INFO @ text_of ''Heap initialized at %p, size %u bytes'' [VWord ?h, VWord ?n] @ newline) ?v w"
    using kalloc_init_returns [OF B(3) R(1-3) boot_readyD(3) [OF assms(1)]] B(4) by (auto simp: returns_conv)
  have "log_dirty ?v = {}" using B(4) by simp
  then have m: "mem w = first_block ?h ?n (mem u)" using logged_mem [OF w(5)] by (auto simp: fun_eq_iff)
  have "region ?h 32 = span (unat ?h) 32" using R(1) boot_readyD(3) [OF assms(1)] by (simp add: span_region)
  then have "region ?h 32 \<subseteq> heap_region ld" using R(1) by (auto simp: heap_region_def span_iff)
  then have o: "mem w x = mem u x" if "x \<notin> heap_region ld" for x unfolding m using that by (intro first_block_outside) blast
  have "heap_holds w {}" unfolding heap_holds_def using w(2,3) by (auto intro!: exI [of _ "[Blk (unat ?n - 32) True]"])
  moreover have "exactly I r (mem w)"
  proof (rule exactly_pool_cong [OF B(1,2)])
    fix x assume "x \<in> region (pool_base u) 131072"
    then have "x \<notin> heap_region ld" using R(4) unfolding b by auto
    then show "mem w x = mem u x" by (rule o)
  qed
  moreover note fr = logged_frame [OF w(5)]
  have "cr3 w = r" "g_pml4 w = r" using log_frame_fields(2) [OF fr] log_frame_base(3) [OF fr] B(5) by simp_all
  ultimately show ?thesis using w(1-4) o B(6) by (intro exI [of _ w]) simp
qed

text \<open>All four together.\<close>

lemma early_boot:
  fixes s :: "'z smp_st_scheme"
  assumes "boot_ready ld info ts s"
  shows "\<exists>u. andthen (idt_init (isr ld) (isr_timer ld) (isr_spurious ld) (serial_init s)) (\<lambda>_ s.
      andthen (paging_init (ld_kernel_start ld) (ld_kernel_end ld) info s) (\<lambda>_ s.
      kalloc_init (ld_heap_start ld) (ld_heap_end ld - ld_heap_start ld) s)) = Ret () u \<and> log_ok u \<and>
    heap_holds u {} \<and> heap_ok u [Blk (unat (heap_size ld) - 32) True] \<and> g_heap_start u = ld_heap_start ld \<and> cr3 u = pool_base s \<and> g_pml4 u = pool_base s \<and>
    exactly (boot_pages (mem s) (ld_kernel_start ld) (ld_kernel_end ld) ts) (pool_base s) (mem u) \<and>
    (\<forall>v. gate (mem u) (idt_base s + 16 * ucast v) =
       (case idt_gate (isr ld) (isr_timer ld) (isr_spurious ld) v of Some g \<Rightarrow> g | None \<Rightarrow> gate (mem s) (idt_base s + 16 * ucast v)))"
proof -
  obtain s1 where 1: "idt_init (isr ld) (isr_timer ld) (isr_spurious ld) (serial_init s) = Ret () s1" "log_frame s s1" "log_ok s1"
    "\<And>x. x \<notin> idt_region s \<Longrightarrow> mem s1 x = mem s x"
    "\<forall>v. gate (mem s1) (idt_base s + 16 * ucast v) =
       (case idt_gate (isr ld) (isr_timer ld) (isr_spurious ld) v of Some g \<Rightarrow> g | None \<Rightarrow> gate (mem s) (idt_base s + 16 * ucast v))"
    using boot_idt [OF assms] by blast
  obtain t where 2: "paging_init (ld_kernel_start ld) (ld_kernel_end ld) info s1 = Ret (pool_base s) (t\<lparr>cr3 := pool_base s\<rparr>)"
    "boot_inv (pool_base s) (s1\<lparr>g_pml4 := pool_base s\<rparr>) (boot_pages (mem s) (ld_kernel_start ld) (ld_kernel_end ld) ts) t"
    using boot_page_tables [OF assms 1(2,3,4)] by blast
  obtain u where 3: "kalloc_init (ld_heap_start ld) (heap_size ld) (t\<lparr>cr3 := pool_base s\<rparr>) = Ret () u" "log_ok u"
    "heap_holds u {}" "heap_ok u [Blk (unat (heap_size ld) - 32) True]" "g_heap_start u = ld_heap_start ld" "cr3 u = pool_base s" "g_pml4 u = pool_base s"
    "exactly (boot_pages (mem s) (ld_kernel_start ld) (ld_kernel_end ld) ts) (pool_base s) (mem u)"
    "\<And>x. x \<notin> pool_region s \<Longrightarrow> x \<notin> heap_region ld \<Longrightarrow> mem u x = mem s1 x"
    using boot_heap [OF assms 2(2) refl 1(2)] by blast
  have "pool_region s \<inter> idt_region s = {}" "heap_region ld \<inter> idt_region s = {}" using assms by (auto simp: boot_ready_def)
  then have "gate (mem u) (idt_base s + 16 * ucast v) = gate (mem s1) (idt_base s + 16 * ucast v)" for v :: u8
    by (intro gate_cong 3(9)) (use gate_in_table in blast)+
  then show ?thesis using 1(1,5) 2(1) 3(1-8) by (simp add: heap_size_def)
qed

section \<open>Properties\<close>

text \<open>
  C15. A kernel that is not started by a Multiboot 2 loader stops itself. When the linker's layout is sound, \<open>kernel_main\<close> with a
  wrong magic number first builds the interrupt table, the address space and the heap, each of which is intact at the end, and then
  stops in \<open>kpanic\<close>, with interrupts off and its message as the last thing sent; it never reaches the console or the scheduler.
\<close>

theorem kernel_main_bad_magic:
  fixes s :: "'z smp_st_scheme"
  assumes "boot_ready ld info ts s" and "mb2_magic \<noteq> MB2_MAGIC"
  shows "\<exists>t before. kernel_main ld ret info mb2_magic s = Panic t \<and>
    events t = before @ map (\<lambda>c. OutB COM1 (of_char c)) (''KERNEL PANIC:'' @ newline @ ''Invalid Multiboot2 magic'' @ newline) @ [Halted] \<and>
    \<not> x86_are_interrupts_enabled t \<and> cr3 t = pool_base s \<and>
    exactly (boot_pages (mem s) (ld_kernel_start ld) (ld_kernel_end ld) ts) (pool_base s) (mem t) \<and>
    heap_at (mem t) (unat (ld_heap_start ld)) [Blk (unat (ld_heap_end ld) - unat (ld_heap_start ld) - 32) True] \<and>
    (\<forall>v. gate (mem t) (idt_base s + 16 * ucast v) =
       (case idt_gate (isr ld) (isr_timer ld) (isr_spurious ld) v of Some g \<Rightarrow> g | None \<Rightarrow> gate (mem s) (idt_base s + 16 * ucast v)))"
proof -
  from early_boot [OF assms(1)] obtain u where u: "andthen (idt_init (isr ld) (isr_timer ld) (isr_spurious ld) (serial_init s)) (\<lambda>_ s.
      andthen (paging_init (ld_kernel_start ld) (ld_kernel_end ld) info s) (\<lambda>_ s.
      kalloc_init (ld_heap_start ld) (ld_heap_end ld - ld_heap_start ld) s)) = Ret () u" and "log_ok u"
    and h: "heap_ok u [Blk (unat (heap_size ld) - 32) True]" "g_heap_start u = ld_heap_start ld"
    and p: "cr3 u = pool_base s" "exactly (boot_pages (mem s) (ld_kernel_start ld) (ld_kernel_end ld) ts) (pool_base s) (mem u)"
    and g: "\<forall>v. gate (mem u) (idt_base s + 16 * ucast v) =
       (case idt_gate (isr ld) (isr_timer ld) (isr_spurious ld) v of Some g \<Rightarrow> g | None \<Rightarrow> gate (mem s) (idt_base s + 16 * ucast v))"
    by blast
  have f: "ref_format (mem u) ''Invalid Multiboot2 magic'' [] = Some ''Invalid Multiboot2 magic''" by (rule ref_format_plain) simp
  have live: "uart_live u" using \<open>log_ok u\<close> by (simp add: log_ok_def)
  obtain n where n: "(kpanic ''Invalid Multiboot2 magic'' [] u :: (unit, 'z smp_st_scheme) outcome) =
    Panic (u\<lparr>now := n, rflags := rflags u AND NOT (push_bit 9 1),
    events := events u @ map (\<lambda>c. OutB COM1 (of_char c)) (''KERNEL PANIC:'' @ newline @ ''Invalid Multiboot2 magic'' @ newline) @ [Halted]\<rparr>)"
    by (rule kpanic_result [OF live f])
  have "(rflags u AND NOT (push_bit 9 1)) AND push_bit 9 1 = (0 :: u64)" by (rule bit_word_eqI) (auto simp: bit_simps)
  moreover obtain s1 where 1: "idt_init (isr ld) (isr_timer ld) (isr_spurious ld) (serial_init s) = Ret () s1"
    and "andthen (paging_init (ld_kernel_start ld) (ld_kernel_end ld) info s1) (\<lambda>_ s.
      kalloc_init (ld_heap_start ld) (ld_heap_end ld - ld_heap_start ld) s) = Ret () u" using u by (auto simp: andthen_Ret_eq)
  then obtain q s2 where 2: "paging_init (ld_kernel_start ld) (ld_kernel_end ld) info s1 = Ret q s2"
    "kalloc_init (ld_heap_start ld) (ld_heap_end ld - ld_heap_start ld) s2 = Ret () u" by (auto simp: andthen_Ret_eq)
  have "kernel_main ld ret info mb2_magic s = kpanic ''Invalid Multiboot2 magic'' [] u"
    using assms(2) 1 2 by (simp add: kernel_main_def Let_def)
  moreover have "unat (heap_size ld) = unat (ld_heap_end ld) - unat (ld_heap_start ld)"
    using assms(1) by (simp add: boot_ready_def heap_size_def unat_sub)
  ultimately show ?thesis using n h p g by (simp add: heap_ok_def x86_are_interrupts_enabled_def)
qed

definition demo_ld :: symbols where
  "demo_ld = \<lparr>ld_kernel_start = 0x100000, ld_kernel_end = 0x400000, ld_heap_start = 0x900000, ld_heap_end = 0x901000,
     isr = (\<lambda>i. 0x100000 + 16 * ucast i), isr_timer = 0x100200, isr_spurious = 0x100210, test_task_addr = 0x101000\<rparr>"

definition demo_reset :: smp_st where
  "demo_reset = demo_smp\<lparr>mem := demo_map, g_pml4 := 0, pool_base := 0x200000, pool_offset := 0\<rparr>"

lemma demo_reset_sel [simp]: "mem demo_reset = demo_map" "pool_base demo_reset = 0x200000" "idt_base demo_reset = 0x300000"
  by (simp_all add: demo_reset_def demo_smp_def demo_sched_def demo_dev_def demo_acpi_def sched_st.defs dev_st.defs acpi_st.defs heap_st.defs)

lemma demo_boot_ready: "boot_ready demo_ld 0x10000 [0x10008] demo_reset"
proof -
  have sep: "region a n \<inter> region b k = {}" if "separate a n b k" for a b :: u64 and n k using separate_disjoint [OF that] by blast
  have live: "uart_live demo_reset" "klog_lock demo_reset = 0"
    using demo_smp_log(1) by (simp_all add: demo_reset_def log_ok_def uart_live_def uart_ready_def)
  have v: "\<not> con_initialized demo_reset" "g_pml4 demo_reset = 0" "pool_offset demo_reset = 0" "pool_ok demo_reset"
    by (simp_all add: demo_reset_def pool_ok_def)
  have h: "heap_region demo_ld = region 0x900000 0x1000"
    using span_region [of "0x900000" "0x1000"] by (simp add: heap_region_def heap_size_def demo_ld_def)
  have "tag_ok (region 0x200000 131072 \<union> region 0x300000 4096) demo_map t" if "t \<in> {0x10008, 0x10030}" for t
    using that demo_map_tags_in [of "region 0x200000 131072 \<union> region 0x300000 4096"] by (auto simp: Int_Un_distrib sep separate_def)
  then show ?thesis
    using live v demo_map_tags(1,2) unfolding boot_ready_def h
    by (auto simp: demo_ld_def heap_size_def Int_Un_distrib sep separate_def)
qed

theorem kernel_main_bad_magic_witness:
  "\<exists>t. kernel_main demo_ld 0 0x10000 0x2BADB002 demo_reset = Panic t \<and> last (events t) = Halted \<and> cr3 t = 0x200000 \<and>
    heap_at (mem t) 0x900000 [Blk 4064 True] \<and> gate (mem t) 0x3000E0 = (0x1000E0, 8, 0, 0x8E)"
proof -
  have m: "0x2BADB002 \<noteq> MB2_MAGIC" by (simp add: MB2_MAGIC_def)
  have h: "unat (ld_heap_start demo_ld) = 0x900000" "unat (ld_heap_end demo_ld) - 0x900000 - 32 = 4064" by (simp_all add: demo_ld_def)
  obtain t bef where t: "kernel_main demo_ld 0 0x10000 0x2BADB002 demo_reset = Panic t"
    "events t = bef @ map (\<lambda>c. OutB COM1 (of_char c)) (''KERNEL PANIC:'' @ newline @ ''Invalid Multiboot2 magic'' @ newline) @ [Halted]"
    "cr3 t = 0x200000" "heap_at (mem t) 0x900000 [Blk 4064 True]"
    "\<forall>v. gate (mem t) (0x300000 + 16 * ucast v) =
       (case idt_gate (isr demo_ld) (isr_timer demo_ld) (isr_spurious demo_ld) v of Some g \<Rightarrow> g | None \<Rightarrow> gate demo_map (0x300000 + 16 * ucast v))"
    using kernel_main_bad_magic [OF demo_boot_ready m, of 0, unfolded demo_reset_sel h] by blast
  have "last (events t) = Halted" unfolding t(2) by simp
  moreover have "gate (mem t) 0x3000E0 = (0x1000E0, 8, 0, 0x8E)" using spec [OF t(5), of 14] by (simp add: idt_gate_def demo_ld_def)
  ultimately show ?thesis using t(1,3,4) by blast
qed

end
