(* ===== verification/Scheduler_Init.thy ===== *)
theory Scheduler_Init
  imports Scheduler_Spec
begin

text \<open>
  What \<open>scheduler_init\<close> leaves: an idle task of its own for each of the sixteen processors, in blocks of the heap that do not overlap,
  provided the heap has room for them.
\<close>

section \<open>The entries of the processors\<close>

text \<open>\<open>cpu_slot s i\<close> is \<open>&cpu_locals[i]\<close>.\<close>

definition cpu_slot :: "'z sched_st_scheme \<Rightarrow> nat \<Rightarrow> u64" where
  "cpu_slot s i = cpu_locals s + of_nat (24 * i)"

lemma slot_apart:
  assumes "i \<noteq> j" "i < 16" "j < 16" and "a + n \<le> 24" "b + k \<le> 24" "0 < n" "0 < k"
  shows "separate (cpu_slot s i + of_nat a) n (cpu_slot s j + of_nat b) k"
proof -
  have "24 * i + a + n \<le> 24 * j + b \<or> 24 * j + b + k \<le> 24 * i + a" using assms by (cases "i < j") auto
  then have "separate (cpu_locals s + of_nat (24 * i + a)) n (cpu_locals s + of_nat (24 * j + b)) k"
    using assms by (intro entry_offsets) auto
  then show ?thesis by (simp add: cpu_slot_def add.assoc)
qed

lemma slot_in_area: "i < 16 \<Longrightarrow> x \<in> region (cpu_slot s i) 24 \<Longrightarrow> x \<in> region (cpu_locals s) 384"
  using part_outside [of x "cpu_locals s" 384 "24 * i" 24] by (auto simp: cpu_slot_def)

lemma slot_parts: "x \<in> region p 8 \<Longrightarrow> x \<in> region p 24" "x \<in> region (p + 8) 8 \<Longrightarrow> x \<in> region p 24"
  using part_outside [of x p 24 0 8] part_outside [of x p 24 8 8] by auto

lemma region_in_block:
  assumes "unat p + l \<le> 2 ^ 64" and "n \<le> l"
  shows "region p n \<subseteq> span (unat p) l"
proof -
  have e: "region p n = span (unat p) n" using span_region [of p n] assms by simp
  show ?thesis unfolding e using assms(2) by (auto simp: span_iff)
qed

section \<open>The loop\<close>

text \<open>After \<open>k\<close> rounds \<open>ts\<close> are the idle tasks of the first \<open>k\<close> processors, each in a block that was not allocated before.\<close>

definition idle_tasks :: "'z sched_st_scheme \<Rightarrow> (nat \<times> nat) set \<Rightarrow> 'z sched_st_scheme \<Rightarrow> u64 list \<Rightarrow> (nat \<times> nat) set \<Rightarrow> bool" where
  "idle_tasks s B0 t ts B \<longleftrightarrow> distinct ts \<and> heap_holds t B \<and> B0 \<subseteq> B \<and>
     (\<forall>i<length ts. cpu_idle (mem t) (cpu_slot s i) = ts ! i \<and> ts ! i \<noteq> 0 \<and>
       fresh_task t (ts ! i) (idle_task_addr s) 0 (next_task_id s + of_nat i) \<and>
       (\<exists>n\<ge>16424. (unat (ts ! i), n) \<in> B - B0 \<and> span (unat (ts ! i)) n \<inter> log_dirty s = {})) \<and>
     (\<forall>i<16. cpu_current (mem t) (cpu_slot s i) = 0) \<and> (\<forall>(q, i)\<in>B0. \<forall>x\<in>span q i - log_dirty s. mem t x = mem s x)"

lemma idle_task_block:
  assumes "idle_tasks s B0 t ts B" and "i < length ts"
  obtains k where "(unat (ts ! i), k) \<in> B" and "span (unat (ts ! i)) k \<inter> log_dirty s = {}" and "region (ts ! i) 16424 \<subseteq> span (unat (ts ! i)) k"
proof -
  have hB: "heap_holds t B" using assms(1) by (simp add: idle_tasks_def)
  obtain k where k: "k \<ge> 16424" "(unat (ts ! i), k) \<in> B" "span (unat (ts ! i)) k \<inter> log_dirty s = {}"
    using assms unfolding idle_tasks_def by blast
  have "unat (ts ! i) + k \<le> 2 ^ 64" using heap.bound_law [OF hB k(2)] by simp
  then have "region (ts ! i) 16424 \<subseteq> span (unat (ts ! i)) k" using k(1) by (rule region_in_block)
  then show thesis by (rule that [OF k(2,3)])
qed

definition idle_made :: "'z sched_st_scheme \<Rightarrow> (nat \<times> nat) set \<Rightarrow> nat \<Rightarrow> 'z sched_st_scheme \<Rightarrow> bool" where
  "idle_made s B0 k t \<longleftrightarrow> sched_const s t \<and> next_task_id t = next_task_id s + of_nat k \<and> heap_room t ((16 - k) * 16456 + 8) \<and>
     (\<exists>ts B. length ts = k \<and> idle_tasks s B0 t ts B)"

definition idle_round :: "u32 \<Rightarrow> 'z sched_st_scheme \<Rightarrow> (unit, 'z sched_st_scheme) outcome" where
  "idle_round i s = (let s = on_mem (set_current (cpu_locals s + 24 * ucast i) 0) s in
       andthen (task_create (idle_task_addr s) 0 s) (\<lambda>t s.
       Ret () (on_mem (set_idle (cpu_locals s + 24 * ucast i) t) s)))"

text \<open>One round, without the entries: a new task in a new block, and memory elsewhere as it was.\<close>

lemma idle_round_ok:
  assumes area: "region (cpu_locals s) 384 \<inter> (heap_span s \<union> log_dirty s) = {}" and "sched_const s t" and "heap_holds t B"
    and "heap_room t (Suc n * 16456 + 8)" and k: "unat j = k" "k < 16"
  obtains p u where "idle_round j t = Ret () u" and "p \<noteq> 0" and "sched_const s u" and "next_task_id u = next_task_id t + 1"
    and "heap_room u (n * 16456 + 8)" and "\<exists>l\<ge>16424. heap_holds u (insert (unat p, l) B) \<and> unat p \<notin> fst ` B \<and> span (unat p) l \<inter> log_dirty s = {}"
    and "fresh_task u p (idle_task_addr s) 0 (next_task_id t)" and "cpu_current (mem u) (cpu_slot s k) = 0" and "cpu_idle (mem u) (cpu_slot s k) = p"
    and "\<And>q i x. (q, i) \<in> B \<Longrightarrow> x \<in> span q i \<Longrightarrow> x \<notin> log_dirty s \<Longrightarrow> mem u x = mem t x"
    and "\<And>i x. i < 16 \<Longrightarrow> i \<noteq> k \<Longrightarrow> x \<in> region (cpu_slot s i) 24 \<Longrightarrow> mem u x = mem t x"
proof -
  let ?e = "cpu_slot s k"
  note c = assms(2) [unfolded sched_const_def]
  have "ucast j = (of_nat (unat j) :: u64)" by simp
  then have e: "cpu_locals t + 24 * ucast j = ?e" using c k(1) by (simp add: cpu_slot_def)
  have slot: "x \<notin> heap_span s" "x \<notin> log_dirty s" if "i < 16" "x \<in> region (cpu_slot s i) 24" for x i
    using slot_in_area [OF that] area by blast+
  let ?m1 = "set_current ?e 0 (mem t)"
  let ?t1 = "t\<lparr>mem := ?m1\<rparr>"
  have m1: "?m1 x = mem t x" if "x \<notin> region ?e 8" for x using that by (simp add: set_current_def store64_outside)
  have "\<forall>x\<in>heap_span t. ?m1 x = mem t x" using slot(1) [OF k(2)] slot_parts(1) m1 c by blast
  note h1 = heap_outside_writes [OF assms(3) this]
  have c1: "sched_const s ?t1" using sched_const_trans [OF assms(2) sched_const_parts(1)] .
  obtain p t2 where t2: "task_create (idle_task_addr ?t1) 0 ?t1 = Ret p t2" "log_ok t2" "sched_const ?t1 t2"
    "p \<noteq> 0 \<Longrightarrow> \<exists>l\<ge>16424. heap_holds t2 (insert (unat p, l) B) \<and> unat p \<notin> fst ` B \<and> span (unat p) l \<inter> log_dirty ?t1 = {}"
    "p \<noteq> 0 \<Longrightarrow> fresh_task t2 p (idle_task_addr ?t1) 0 (next_task_id ?t1) \<and> next_task_id t2 = next_task_id ?t1 + 1"
    "p \<noteq> 0 \<Longrightarrow> \<forall>(q, i)\<in>B. \<forall>x\<in>span q i - log_dirty ?t1. mem t2 x = mem ?t1 x"
    "p \<noteq> 0 \<Longrightarrow> \<forall>x. x \<notin> heap_span ?t1 \<longrightarrow> x \<notin> log_dirty ?t1 \<longrightarrow> mem t2 x = mem ?t1 x"
    "\<And>r. heap_room ?t1 r \<Longrightarrow> 16424 \<le> r \<Longrightarrow> p \<noteq> 0 \<and> (16464 \<le> r \<longrightarrow> heap_room t2 (r - 16456))"
    "p = 0 \<longleftrightarrow> \<not> heap_room ?t1 16424"
    by (rule task_create_all [OF h1(1), where entry = "idle_task_addr ?t1" and arg = 0]) (rule that)
  have p: "p \<noteq> 0" and r2: "heap_room t2 (n * 16456 + 8)" using t2(8) [OF h1(2) [OF assms(4)]] by (simp_all add: add.commute)
  have c2: "sched_const s t2" using sched_const_trans [OF c1 t2(3)] .
  note cc = c1 [unfolded sched_const_def] c2 [unfolded sched_const_def]
  let ?m3 = "set_idle ?e p (mem t2)"
  let ?u = "t2\<lparr>mem := ?m3\<rparr>"
  have m3: "?m3 x = mem t2 x" if "x \<notin> region (?e + 8) 8" for x using that by (simp add: set_idle_def store64_outside)
  have in3: "\<forall>x\<in>heap_span t2. ?m3 x = mem t2 x" using slot(1) [OF k(2)] slot_parts(2) m3 cc by blast
  obtain l where l: "l \<ge> 16424" "heap_holds t2 (insert (unat p, l) B)" "unat p \<notin> fst ` B" "span (unat p) l \<inter> log_dirty s = {}"
    using t2(4) [OF p] cc by auto
  note h3 = heap_outside_writes [OF l(2) in3]
  have run: "idle_round j t = Ret () ?u"
    using t2(1) e cc by (simp add: idle_round_def on_mem_def)
  have reg: "x \<in> heap_span t2" if "x \<in> region p 16424" for x
  proof -
    have "unat p + l \<le> 2 ^ 64" using heap.bound_law [OF l(2)] by simp
    then have "region p 16424 \<subseteq> span (unat p) l" using l(1) by (rule region_in_block)
    then show ?thesis using live_in_heap [OF l(2), of "unat p" l] that by auto
  qed
  have area2: "mem t2 x = ?m1 x" if "i < 16" "x \<in> region (cpu_slot s i) 24" for i x
    using t2(7) [OF p] slot [OF that] cc c by simp
  show thesis
  proof (rule that [OF run p])
    show "sched_const s ?u" using sched_const_trans [OF c2 sched_const_parts(1)] .
    show "next_task_id ?u = next_task_id t + 1" using t2(5) [OF p] by simp
    show "heap_room ?u (n * 16456 + 8)" by (rule h3(2) [OF r2])
    show "\<exists>l\<ge>16424. heap_holds ?u (insert (unat p, l) B) \<and> unat p \<notin> fst ` B \<and> span (unat p) l \<inter> log_dirty s = {}" using h3(1) l by blast
    have "fresh_task t2 p (idle_task_addr s) 0 (next_task_id t)" using t2(5) [OF p] cc by simp
    then show "fresh_task ?u p (idle_task_addr s) 0 (next_task_id t)" by (rule fresh_task_cong) (use in3 reg in auto)
    have "load64 ?m3 ?e = load64 (mem t2) ?e"
    proof (intro load64_cong m3)
      fix x assume "x \<in> region ?e 8"
      then show "x \<notin> region (?e + 8) 8" using separate_disjoint [of ?e 8 "?e + 8" 8] entry_offsets [of 0 8 8 8 ?e] by simp
    qed
    also have "\<dots> = load64 ?m1 ?e" using area2 [OF k(2)] slot_parts(1) by (intro load64_cong) blast
    finally show "cpu_current (mem ?u) ?e = 0" by (simp add: cpu_current_def set_current_def)
    show "cpu_idle (mem ?u) ?e = p" by (simp add: cpu_idle_def set_idle_def)
    show "mem ?u x = mem t x" if "(q, i) \<in> B" "x \<in> span q i" "x \<notin> log_dirty s" for q i x
    proof -
      have x: "x \<in> heap_span s" using live_in_heap [OF assms(3) that(1)] that(2) c by auto
      then have "?m3 x = mem t2 x" using in3 cc by simp
      also have "mem t2 x = ?m1 x" using t2(6) [OF p] that cc by auto
      also have "?m1 x = mem t x" using slot(1) [OF k(2)] slot_parts(1) m1 x by blast
      finally show ?thesis by simp
    qed
    show "mem ?u x = mem t x" if i: "i < 16" "i \<noteq> k" "x \<in> region (cpu_slot s i) 24" for i x
    proof -
      have "x \<notin> region (?e + of_nat b) 8" if "b + 8 \<le> 24" for b
        using separate_disjoint [OF _ i(3)] slot_apart [OF i(2,1) k(2), of 0 24 b 8 s] that by simp
      from this [of 0] this [of 8] have "x \<notin> region ?e 8" "x \<notin> region (?e + 8) 8" by simp_all
      then show ?thesis using m1 m3 area2 [OF i(1,3)] by simp
    qed
  qed
qed

lemma idle_round_made:
  assumes area: "region (cpu_locals s) 384 \<inter> (heap_span s \<union> log_dirty s) = {}" and made: "idle_made s B0 (unat j) t" and "unat j < 16"
  shows "returns (idle_round j t) (\<lambda>_. idle_made s B0 (Suc (unat j)))"
proof -
  let ?k = "unat j"
  obtain ts B where t: "sched_const s t" "next_task_id t = next_task_id s + of_nat ?k" "heap_room t ((16 - ?k) * 16456 + 8)"
    "length ts = ?k" "idle_tasks s B0 t ts B" using made by (auto simp: idle_made_def)
  note i = t(5) [unfolded idle_tasks_def]
  have room: "heap_room t (Suc (15 - ?k) * 16456 + 8)" using t(3) assms(3) by (simp add: Suc_diff_le [symmetric] del: mult_Suc)
  have hB: "heap_holds t B" using i by blast
  obtain p u where u: "idle_round j t = Ret () u" "p \<noteq> 0" "sched_const s u" "next_task_id u = next_task_id t + 1"
    "heap_room u ((15 - ?k) * 16456 + 8)" "\<exists>l\<ge>16424. heap_holds u (insert (unat p, l) B) \<and> unat p \<notin> fst ` B \<and> span (unat p) l \<inter> log_dirty s = {}"
    "fresh_task u p (idle_task_addr s) 0 (next_task_id t)" "cpu_current (mem u) (cpu_slot s ?k) = 0" "cpu_idle (mem u) (cpu_slot s ?k) = p"
    "\<And>q i x. (q, i) \<in> B \<Longrightarrow> x \<in> span q i \<Longrightarrow> x \<notin> log_dirty s \<Longrightarrow> mem u x = mem t x"
    "\<And>i x. i < 16 \<Longrightarrow> i \<noteq> ?k \<Longrightarrow> x \<in> region (cpu_slot s i) 24 \<Longrightarrow> mem u x = mem t x"
    by (rule idle_round_ok [OF area t(1) hB room refl assms(3)]) (rule that)
  obtain l where l: "l \<ge> 16424" "heap_holds u (insert (unat p, l) B)" "unat p \<notin> fst ` B" "span (unat p) l \<inter> log_dirty s = {}" using u(6) by blast
  have old: "cpu_idle (mem u) (cpu_slot s n) = ts ! n \<and> ts ! n \<noteq> 0 \<and> fresh_task u (ts ! n) (idle_task_addr s) 0 (next_task_id s + of_nat n) \<and>
      (\<exists>l\<ge>16424. (unat (ts ! n), l) \<in> B - B0 \<and> span (unat (ts ! n)) l \<inter> log_dirty s = {})" if n: "n < ?k" for n
  proof -
    have o: "cpu_idle (mem t) (cpu_slot s n) = ts ! n" "ts ! n \<noteq> 0" "fresh_task t (ts ! n) (idle_task_addr s) 0 (next_task_id s + of_nat n)"
      "\<exists>l\<ge>16424. (unat (ts ! n), l) \<in> B - B0 \<and> span (unat (ts ! n)) l \<inter> log_dirty s = {}" using i n t(4) by auto
    obtain l where l: "(unat (ts ! n), l) \<in> B" "span (unat (ts ! n)) l \<inter> log_dirty s = {}" "region (ts ! n) 16424 \<subseteq> span (unat (ts ! n)) l"
      by (rule idle_task_block [OF t(5), of n]) (use n t(4) in auto)
    then have m: "mem u x = mem t x" if "x \<in> region (ts ! n) 16424" for x using u(10) [OF l(1)] that by blast
    have "fresh_task u (ts ! n) (idle_task_addr s) 0 (next_task_id s + of_nat n)"
      using u(3) t(1) by (intro fresh_task_cong [OF o(3) m]) (simp_all add: sched_const_def)
    moreover have "load64 (mem u) (cpu_slot s n + 8) = load64 (mem t) (cpu_slot s n + 8)"
      using u(11) [of n] n assms(3) slot_parts(2) by (intro load64_cong) auto
    ultimately show ?thesis using o by (simp add: cpu_idle_def)
  qed
  have cur: "cpu_current (mem u) (cpu_slot s n) = 0" if "n < 16" for n
  proof (cases "n = ?k")
    case False
    have "load64 (mem u) (cpu_slot s n) = load64 (mem t) (cpu_slot s n)" using u(11) [OF that False] slot_parts(1) by (intro load64_cong) blast
    then show ?thesis using i that by (simp add: cpu_current_def)
  qed (use u(8) in simp)
  have sub: "\<And>q n. (q, n) \<in> B0 \<Longrightarrow> (q, n) \<in> B" using i by blast
  have "mem u x = mem s x" if "(q, n) \<in> B0" "x \<in> span q n - log_dirty s" for q n x
    using u(10) [OF sub [OF that(1)]] i that by fastforce
  moreover have "p \<notin> set ts"
  proof
    assume "p \<in> set ts"
    then obtain n where "n < ?k" "p = ts ! n" using t(4) by (auto simp: in_set_conv_nth)
    then show False using old l(3) by force
  qed
  moreover have "(unat p, l) \<notin> B0" using sub l(3) by force
  ultimately have made: "idle_tasks s B0 u (ts @ [p]) (insert (unat p, l) B)"
    using i old cur u(2,7,9) l t(2,4) by (auto simp: idle_tasks_def nth_append less_Suc_eq)
  have "16 - Suc ?k = 15 - ?k" by simp
  then have "idle_made s B0 (Suc ?k) u"
    unfolding idle_made_def using u(3,4,5) t(2,4) made by (intro conjI exI [of _ "ts @ [p]"] exI [of _ "insert (unat p, l) B"]) simp_all
  then show ?thesis unfolding u(1) returns_simps .
qed

lemma idle_tasks_logged:
  assumes area: "region (cpu_locals s) 384 \<inter> (heap_span s \<union> log_dirty s) = {}" and "idle_tasks s B0 t ts B" and "length ts = 16"
    and "sched_const s t" and l: "logged str t u" "log_ok u"
  shows "idle_tasks s B0 u ts B" and "sched_const s u" and "next_task_id u = next_task_id t"
proof -
  note i = assms(2) [unfolded idle_tasks_def] and f = log_frame_sched [OF logged_frame [OF l(1)]]
  have d: "log_dirty t = log_dirty s" using assms(4) by (simp add: sched_const_def)
  have m: "mem u x = mem t x" if "x \<notin> log_dirty s" for x using logged_mem [OF l(1)] that d by simp
  have slot: "mem u x = mem t x" if "n < 16" "x \<in> region (cpu_slot s n) 24" for n x using m slot_in_area [OF that] area by blast
  have fields: "cpu_current (mem u) (cpu_slot s n) = cpu_current (mem t) (cpu_slot s n)"
    "cpu_idle (mem u) (cpu_slot s n) = cpu_idle (mem t) (cpu_slot s n)" if "n < 16" for n
    using slot [OF that] slot_parts unfolding cpu_current_def cpu_idle_def by (blast intro: load64_cong)+
  have hB: "heap_holds t B" using i by blast
  have fresh: "fresh_task u (ts ! n) (idle_task_addr s) 0 (next_task_id s + of_nat n)" if n: "n < 16" for n
  proof -
    obtain k where "span (unat (ts ! n)) k \<inter> log_dirty s = {}" "region (ts ! n) 16424 \<subseteq> span (unat (ts ! n)) k"
      by (rule idle_task_block [OF assms(2), of n]) (use n assms(3) in auto)
    then have "mem u x = mem t x" if "x \<in> region (ts ! n) 16424" for x using m that by blast
    then have m': "\<And>x. x \<in> region (ts ! n) 16424 \<Longrightarrow> mem u x = mem t x" .
    have "fresh_task t (ts ! n) (idle_task_addr s) 0 (next_task_id s + of_nat n)" using i n assms(3) by simp
    then show ?thesis by (rule fresh_task_cong [OF _ m' f(3,2,4)])
  qed
  show "next_task_id u = next_task_id t" using f by simp
  show "sched_const s u"
    using sched_const_trans [OF assms(4) sched_const_parts(3) [OF logged_frame [OF l(1)] logged_sel(9) [OF l(1)]]] .
  have old: "\<forall>(q, n)\<in>B0. \<forall>x\<in>span q n - log_dirty s. mem u x = mem s x" using i m by simp
  show "idle_tasks s B0 u ts B"
    unfolding idle_tasks_def using i fields fresh heap_holds_logged [OF hB l] assms(3) by (intro conjI allI impI old) simp_all
qed

lemma idle_tasks_apart:
  assumes "idle_tasks s B0 t ts B" and "i < length ts" and "j < length ts" and "i \<noteq> j"
  shows "region (ts ! i) 16424 \<inter> region (ts ! j) 16424 = {}"
proof -
  have hB: "heap_holds t B" and d: "distinct ts" using assms(1) by (simp_all add: idle_tasks_def)
  obtain k where k: "(unat (ts ! i), k) \<in> B" "region (ts ! i) 16424 \<subseteq> span (unat (ts ! i)) k" by (rule idle_task_block [OF assms(1,2)])
  obtain l where l: "(unat (ts ! j), l) \<in> B" "region (ts ! j) 16424 \<subseteq> span (unat (ts ! j)) l" by (rule idle_task_block [OF assms(1,3)])
  have "ts ! i \<noteq> ts ! j" using d assms(2-4) by (simp add: nth_eq_iff_index_eq)
  then have "unat (ts ! i) \<noteq> unat (ts ! j)" by (simp only: word_unat_eq_iff not_False_eq_True)
  then have "span (unat (ts ! i)) k \<inter> span (unat (ts ! j)) l = {}" using heap.disjoint_law [OF hB k(1) l(1)] by simp
  then show ?thesis using k(2) l(2) by blast
qed

lemma init_formats:
  "plain_format ''sizeof task_t: %u'' [VWord a]" "plain_format ''tasks needed: %u, total: %u bytes'' [VWord a, VWord b]"
  "plain_format ''Scheduler initialized'' []"
  by (simp_all add: plain_format_def format_simps)

section \<open>Properties\<close>

text \<open>
  C13. \<open>scheduler_init\<close> always returns when the heap has one free block for sixteen tasks: every processor has an idle task of its own, ready
  to run \<open>idle_task\<close> on its own stack, and no current task; the tasks have the next sixteen numbers, lie in new blocks of the heap that do
  not overlap, and all blocks that were allocated before keep their contents.
\<close>

theorem scheduler_init_idle_tasks:
  assumes "heap_holds s B0" and "heap_room s 263304" and area: "region (cpu_locals s) 384 \<inter> (heap_span s \<union> log_dirty s) = {}"
  shows "\<exists>t ts B. scheduler_init s = Ret () t \<and> length ts = 16 \<and> idle_tasks s B0 t ts B \<and> next_task_id t = next_task_id s + 16 \<and>
    (\<forall>i<16. \<forall>j<16. i \<noteq> j \<longrightarrow> region (ts ! i) 16424 \<inter> region (ts ! j) 16424 = {})"
proof -
  let ?m = "memset (cpu_locals s) 0 sizeof_cpu_locals (mem s)"
  let ?t0 = "s\<lparr>mem := ?m\<rparr>"
  have ms: "?m x = (if x \<in> region (cpu_locals s) 384 then 0 else mem s x)" for x by (simp add: memset_spec sizeof_cpu_locals_def)
  have "\<forall>x\<in>heap_span s. ?m x = mem s x" using ms area by auto
  note h = heap_outside_writes [OF assms(1) this]
  have "?m x = mem s x" if "(q, n) \<in> B0" "x \<in> span q n" for q n x using live_in_heap [OF assms(1) that(1)] that(2) ms area by auto
  then have "\<forall>(q, n)\<in>B0. \<forall>x\<in>span q n - log_dirty s. ?m x = mem s x" by blast
  moreover have "cpu_current ?m (cpu_slot s n) = 0" if "n < 16" for n
  proof -
    have "load64 ?m (cpu_slot s n) = load64 (\<lambda>_. 0) (cpu_slot s n)"
    proof (rule load64_cong)
      fix x assume "x \<in> region (cpu_slot s n) 8"
      then have "x \<in> region (cpu_locals s) 384" using slot_in_area [OF that slot_parts(1)] by blast
      then show "?m x = 0" using ms by simp
    qed
    then show ?thesis by (simp add: cpu_current_def load64_zero)
  qed
  ultimately have "idle_tasks s B0 ?t0 [] B0" using h(1) by (simp add: idle_tasks_def)
  then have "idle_made s B0 0 ?t0" using h(2) [OF assms(2)] sched_const_parts(1) by (auto simp: idle_made_def)
  then have "returns (for_out 0 MAX_CPUS idle_round ?t0) (\<lambda>_. idle_made s B0 (unat MAX_CPUS))"
    by (intro for_out_rule [where P = "idle_made s B0"]) (auto simp: MAX_CPUS_def word_less_nat_alt intro!: idle_round_made [OF area])
  then obtain t ts B where t: "for_out 0 MAX_CPUS idle_round ?t0 = Ret () t" "sched_const s t" "next_task_id t = next_task_id s + 16"
    "length ts = 16" "idle_tasks s B0 t ts B" by (auto simp: returns_conv idle_made_def MAX_CPUS_def)
  have ok: "log_ok t" using t(5) by (simp add: idle_tasks_def heap_holds_def)
  note L = idle_tasks_logged [OF area _ t(4)]
  obtain t1 str where t1: "klog LOG_INFO ''sizeof task_t: %u'' [VWord sizeof_task] t = Ret () t1" "logged str t t1" "log_ok t1"
    by (rule klog_textE [OF ok init_formats(1)])
  note l1 = L [OF t(5,2) t1(2,3)]
  obtain t2 str where t2: "klog LOG_INFO ''tasks needed: %u, total: %u bytes'' [VWord 24, VWord (24 * sizeof_task)] t1 = Ret () t2" "logged str t1 t2" "log_ok t2"
    by (rule klog_textE [OF t1(3) init_formats(2)])
  note l2 = L [OF l1(1,2) t2(2,3)]
  obtain t3 str where t3: "klog LOG_INFO ''Scheduler initialized'' [] t2 = Ret () t3" "logged str t2 t3" "log_ok t3"
    by (rule klog_textE [OF t2(3) init_formats(3)])
  note l3 = L [OF l2(1,2) t3(2,3)]
  have "scheduler_init s = Ret () t3"
    using t(1) t1(1) t2(1) t3(1) by (simp add: scheduler_init_def idle_round_def [abs_def] on_mem_def)
  then show ?thesis using l3 l2(3) l1(3) t(3,4) idle_tasks_apart [OF l3(1)] by auto
qed

text \<open>A machine whose heap at \<open>0x900000\<close> has 320 KiB, and with its entries of the processors at \<open>0x500000\<close>.\<close>

definition demo_idle :: sched_st where
  "demo_idle = demo_sched\<lparr>g_heap_total_size := 0x50000, mem := first_block 0x900000 0x50000 (\<lambda>_. 0)\<rparr>"

lemma demo_idle_log: "log_ok demo_idle" "log_dirty demo_idle = span 0x800000 48 \<union> span 0xFD000000 128"
proof -
  have "log_ok demo_idle = log_ok demo_sched" "log_dirty demo_idle = log_dirty demo_sched"
    by (simp_all add: demo_idle_def log_ok_defs)
  then show "log_ok demo_idle" "log_dirty demo_idle = span 0x800000 48 \<union> span 0xFD000000 128" using demo_sched_log by simp_all
qed

lemma demo_idle_heap: "heap_holds demo_idle {}" "heap_room demo_idle 263304" "heap_span demo_idle = span 0x900000 0x50000"
proof -
  have g: "g_heap_start demo_idle = 0x900000" "g_heap_total_size demo_idle = 0x50000"
    by (simp_all add: demo_idle_def demo_sched_def demo_dev_def demo_acpi_def dev_st.defs acpi_st.defs heap_st.defs)
  have c: "log_dirty demo_idle \<inter> span 0x900000 0x50000 = {}" unfolding demo_idle_log(2) by (auto simp: span_iff)
  have "heap_at (mem demo_idle) 0x900000 [Blk 327648 True]"
    using first_block_heap [of "0x50000" "0x900000" "\<lambda>_. 0"] by (simp add: demo_idle_def)
  then have h: "heap_ok demo_idle [Blk 327648 True]" using c g by (simp add: heap_ok_def sizes_aligned_def)
  show "heap_holds demo_idle {}" unfolding heap_holds_def using demo_idle_log(1) h by (auto intro!: exI [of _ "[Blk 327648 True]"])
  show "heap_room demo_idle 263304" unfolding heap_room_def using h by (auto intro!: exI [of _ "[Blk 327648 True]"])
  show "heap_span demo_idle = span 0x900000 0x50000" by (simp add: heap_span_def g)
qed

theorem scheduler_init_idle_tasks_witness:
  "\<exists>t ts B. scheduler_init demo_idle = Ret () t \<and> length ts = 16 \<and> idle_tasks demo_idle {} t ts B \<and> next_task_id t = 23"
proof -
  have r: "region 0x500000 384 = span 0x500000 384" using span_region [of "0x500000" 384] by simp
  have "region (cpu_locals demo_idle) 384 \<inter> (heap_span demo_idle \<union> log_dirty demo_idle) = {}"
    unfolding demo_idle_heap(3) demo_idle_log(2) by (auto simp: demo_idle_def r span_iff)
  from scheduler_init_idle_tasks [OF demo_idle_heap(1,2) this] show ?thesis by (auto simp: demo_idle_def)
qed

end
