(* ===== verification/Schedule.thy ===== *)
theory Schedule
  imports Prelude
begin

text \<open>
  What the scheduler promises, without memory: the tasks that wait, in order, the task of each processor, and the contexts in which
  tasks continue. The steps are those of the operations of \<^verbatim>\<open>drivers/scheduler.c\<close>, each taken as a whole. \<^verbatim>\<open>Sched_Machine\<close> shows that the
  code on several processors refines them.
\<close>

section \<open>Schedules\<close>

text \<open>A context: the stack pointer and the words R15, R14, R13, R12, RBX, RBP and RIP with which a task continues.\<close>

type_synonym sched_context = "u64 \<times> u64 list"

text \<open>
  \<open>ready\<close> is the run queue, \<open>on_cpu\<close> and \<open>idle_of\<close> give the current and the idle task of each processor, \<open>regs\<close> what is in the
  registers of each processor, \<open>saved\<close> the contexts of the tasks that wait.
\<close>

record schedule =
  ready :: "u64 list"
  on_cpu :: "u64 list"
  idle_of :: "u64 list"
  regs :: "sched_context list"
  saved :: "u64 \<Rightarrow> sched_context"

text \<open>
  \<open>Yield\<close> is a yield of a task or of the timer, \<open>Exit\<close> the end of a task, \<open>Pick\<close> a round of the worker loop of an idle processor,
  \<open>Submit\<close> the arrival of a new task, \<open>Work\<close> anything a task does between two calls. The second argument of the first three is the
  address where the task will continue.
\<close>

datatype sched_event = Yield nat u64 | Exit nat u64 | Pick nat u64 | Submit nat u64 sched_context | Work nat sched_context

definition resume_at :: "u64 \<Rightarrow> sched_context \<Rightarrow> sched_context" where
  "resume_at ret c = (fst c, butlast (snd c) @ [ret])"

text \<open>Processor \<open>i\<close> turns to \<open>t\<close>, and the queue becomes \<open>q\<close>.\<close>

definition resched :: "nat \<Rightarrow> u64 \<Rightarrow> u64 \<Rightarrow> u64 list \<Rightarrow> schedule \<Rightarrow> schedule" where
  "resched i ret t q a = a\<lparr>ready := q, on_cpu := (on_cpu a)[i := t], regs := (regs a)[i := saved a t],
     saved := (saved a)(on_cpu a ! i := resume_at ret (regs a ! i))\<rparr>"

definition idles :: "nat \<Rightarrow> schedule \<Rightarrow> bool" where
  "idles i a \<longleftrightarrow> on_cpu a ! i = idle_of a ! i"

fun sched_step :: "sched_event \<Rightarrow> schedule \<Rightarrow> schedule option" where
  "sched_step (Yield i ret) a =
     (if i < length (on_cpu a) \<and> \<not> idles i a then
        Some (case ready a of [] \<Rightarrow> a | t # q \<Rightarrow> resched i ret t (q @ [on_cpu a ! i]) a)
      else None)"
| "sched_step (Exit i ret) a =
     (if i < length (on_cpu a) \<and> \<not> idles i a then
        Some (case ready a of [] \<Rightarrow> resched i ret (idle_of a ! i) [] a | t # q \<Rightarrow> resched i ret t q a)
      else None)"
| "sched_step (Pick i ret) a =
     (if i < length (on_cpu a) \<and> idles i a then Some (case ready a of [] \<Rightarrow> a | t # q \<Rightarrow> resched i ret t q a) else None)"
| "sched_step (Submit i t c) a =
     (if i < length (on_cpu a) \<and> t \<notin> set (ready a @ on_cpu a @ idle_of a) then
        Some (a\<lparr>ready := ready a @ [t], saved := (saved a)(t := c)\<rparr>)
      else None)"
| "sched_step (Work i c) a = (if i < length (on_cpu a) then Some (a\<lparr>regs := (regs a)[i := c]\<rparr>) else None)"

fun run_steps :: "('e \<Rightarrow> 's \<Rightarrow> 's option) \<Rightarrow> 'e list \<Rightarrow> 's \<Rightarrow> 's option" where
  "run_steps step [] a = Some a"
| "run_steps step (e # es) a = (case step e a of None \<Rightarrow> None | Some b \<Rightarrow> run_steps step es b)"

abbreviation sched_run :: "sched_event list \<Rightarrow> schedule \<Rightarrow> schedule option" where
  "sched_run \<equiv> run_steps sched_step"

lemma run_steps_append: "run_steps step (es @ fs) a = (case run_steps step es a of None \<Rightarrow> None | Some b \<Rightarrow> run_steps step fs b)"
  by (induction es arbitrary: a) (auto split: option.splits)

section \<open>Refinement of runs\<close>

text \<open>Runs of a machine that takes a step only where a guard allows it.\<close>

inductive guarded_runs :: "('e \<Rightarrow> 'c \<Rightarrow> bool) \<Rightarrow> ('e \<Rightarrow> 'c \<Rightarrow> 'c option) \<Rightarrow> 'c \<Rightarrow> 'e list \<Rightarrow> 'c \<Rightarrow> bool"
  for guard step c where
  start: "guarded_runs guard step c [] c"
| move: "guarded_runs guard step c es d \<Longrightarrow> guard e d \<Longrightarrow> step e d = Some d' \<Longrightarrow> guarded_runs guard step c (es @ [e]) d'"

lemma one_move: "guard e c \<Longrightarrow> step e c = Some d \<Longrightarrow> guarded_runs guard step c [e] d"
  using guarded_runs.move [OF guarded_runs.start, of guard e c step d] by simp

text \<open>
  A machine refines an abstract one: from related states an allowed step is possible on both sides and leads to related states.
\<close>

locale simulation =
  fixes guard :: "'e \<Rightarrow> 'c \<Rightarrow> bool" and cstep :: "'e \<Rightarrow> 'c \<Rightarrow> 'c option" and astep :: "'f \<Rightarrow> 'a \<Rightarrow> 'a option" and view :: "'e \<Rightarrow> 'f"
    and rel :: "'c \<Rightarrow> 'a \<Rightarrow> bool"
  assumes step_law: "rel c a \<Longrightarrow> guard e c \<Longrightarrow> \<exists>d b. cstep e c = Some d \<and> astep (view e) a = Some b \<and> rel d b"
begin

lemma runs_related:
  assumes "guarded_runs guard cstep c es d" and "rel c a"
  shows "\<exists>b. run_steps astep (map view es) a = Some b \<and> rel d b"
  using assms
proof (induction rule: guarded_runs.induct)
  case (move es d e d')
  then obtain b where b: "run_steps astep (map view es) a = Some b" "rel d b" by blast
  from step_law [OF b(2) move.hyps(2)] move.hyps(3) obtain b' where "astep (view e) b = Some b'" "rel d' b'" by auto
  then show ?case using b(1) by (simp add: run_steps_append)
qed simp

lemma progress: "rel c a \<Longrightarrow> guard e c \<Longrightarrow> cstep e c \<noteq> None"
  using step_law by fastforce

end

lemma resched_sel [simp]:
  "ready (resched i ret t q a) = q" "on_cpu (resched i ret t q a) = (on_cpu a)[i := t]" "idle_of (resched i ret t q a) = idle_of a"
  "regs (resched i ret t q a) = (regs a)[i := saved a t]"
  "saved (resched i ret t q a) = (saved a)(on_cpu a ! i := resume_at ret (regs a ! i))"
  by (simp_all add: resched_def)

section \<open>No task in two places\<close>

text \<open>
  A task waits in the queue at most once, runs on at most one processor and never does both; a processor that runs an idle task runs its own,
  and idle tasks are not in the queue.
\<close>

definition schedule_ok :: "schedule \<Rightarrow> bool" where
  "schedule_ok a \<longleftrightarrow> length (idle_of a) = length (on_cpu a) \<and> length (regs a) = length (on_cpu a) \<and>
     distinct (ready a) \<and> distinct (on_cpu a) \<and> distinct (idle_of a) \<and>
     set (ready a) \<inter> set (on_cpu a) = {} \<and> set (ready a) \<inter> set (idle_of a) = {} \<and>
     (\<forall>i<length (on_cpu a). idles i a \<or> on_cpu a ! i \<notin> set (idle_of a))"

text \<open>The tasks that will continue from a saved context: the queue and the idle tasks of the processors that run another one.\<close>

definition waiting :: "schedule \<Rightarrow> u64 set" where
  "waiting a = set (ready a) \<union> (set (idle_of a) - set (on_cpu a))"

lemma schedule_okD:
  assumes "schedule_ok a"
  shows "length (idle_of a) = length (on_cpu a)" "length (regs a) = length (on_cpu a)" "distinct (ready a)" "distinct (on_cpu a)"
    "distinct (idle_of a)" "set (ready a) \<inter> set (on_cpu a) = {}" "set (ready a) \<inter> set (idle_of a) = {}"
    "\<And>i. i < length (on_cpu a) \<Longrightarrow> idles i a \<or> on_cpu a ! i \<notin> set (idle_of a)"
  using assms by (simp_all add: schedule_ok_def)

lemma idle_waits:
  assumes "schedule_ok a" and "i < length (on_cpu a)" and "\<not> idles i a"
  shows "idle_of a ! i \<in> waiting a"
proof -
  note ok = schedule_okD [OF assms(1)]
  have "idle_of a ! i \<noteq> on_cpu a ! j" if "j < length (on_cpu a)" for j
  proof
    assume e: "idle_of a ! i = on_cpu a ! j"
    then have "idles j a" using ok(1) ok(8) [of j] that assms(2) by (metis nth_mem)
    then have "idle_of a ! i = idle_of a ! j" using e by (simp add: idles_def)
    then have "i = j" using ok(1,5) that assms(2) nth_eq_iff_index_eq by metis
    with \<open>idles j a\<close> assms(3) show False by simp
  qed
  then have "idle_of a ! i \<notin> set (on_cpu a)" by (metis in_set_conv_nth)
  then show ?thesis using ok(1) assms(2) by (simp add: waiting_def)
qed

text \<open>A change of processor \<open>i\<close> to a waiting task keeps the order, when the queue gets no more than the task that leaves.\<close>

lemma resched_ok:
  assumes "schedule_ok a" and "i < length (on_cpu a)" and "t \<in> set (ready a) \<or> t = idle_of a ! i" and "t \<noteq> on_cpu a ! i"
    and "set q \<subseteq> insert (on_cpu a ! i) (set (ready a))" and "t \<notin> set q" and "distinct q" and "idles i a \<Longrightarrow> on_cpu a ! i \<notin> set q"
  shows "schedule_ok (resched i ret t q a)"
proof -
  note ok = schedule_okD [OF assms(1)]
  let ?o = "on_cpu a ! i"
  have nt: "t \<notin> set (on_cpu a)"
  proof (cases "idles i a")
    case True
    then have "t \<in> set (ready a)" using assms(3,4) by (simp add: idles_def)
    then show ?thesis using ok(6) by blast
  next
    case False
    then show ?thesis using assms(3) ok(6,7) idle_waits [OF assms(1,2)] by (auto simp: waiting_def)
  qed
  have so: "set ((on_cpu a)[i := t]) = insert t (set (on_cpu a) - {?o})"
    using ok(4) assms(2) by (simp add: set_update_distinct)
  have d: "distinct ((on_cpu a)[i := t])" using ok(4) nt by (simp add: distinct_list_update)
  have o: "?o \<notin> set (idle_of a)" if "\<not> idles i a" using ok(8) assms(2) that by blast
  have "set q \<inter> set ((on_cpu a)[i := t]) = {}" using so assms(5,6) ok(6) by auto
  moreover have "set q \<inter> set (idle_of a) = {}" using assms(5,8) ok(7) o by (cases "idles i a") auto
  moreover have "(on_cpu a)[i := t] ! j = idle_of a ! j \<or> (on_cpu a)[i := t] ! j \<notin> set (idle_of a)" if "j < length (on_cpu a)" for j
    using ok(7) ok(8) [OF that] assms(2,3) that by (cases "j = i") (auto simp: idles_def)
  ultimately show ?thesis using ok(1,2,5) assms(7) d by (simp add: schedule_ok_def idles_def)
qed

lemma sched_step_ok:
  assumes "schedule_ok a" and "sched_step e a = Some b"
  shows "schedule_ok b"
proof (cases e)
  case (Yield i ret)
  then have i: "i < length (on_cpu a)" "\<not> idles i a" using assms(2) by (auto split: if_splits)
  show ?thesis
  proof (cases "ready a")
    case Nil
    then show ?thesis using assms Yield i by simp
  next
    case (Cons t q)
    have "on_cpu a ! i \<in> set (on_cpu a)" using i by simp
    then have "schedule_ok (resched i ret t (q @ [on_cpu a ! i]) a)"
      using schedule_okD(3,6) [OF assms(1)] Cons i by (intro resched_ok [OF assms(1)]) auto
    then show ?thesis using assms(2) Yield i Cons by simp
  qed
next
  case (Exit i ret)
  then have i: "i < length (on_cpu a)" "\<not> idles i a" using assms(2) by (auto split: if_splits)
  have o: "on_cpu a ! i \<in> set (on_cpu a)" using i by simp
  show ?thesis
  proof (cases "ready a")
    case Nil
    have "schedule_ok (resched i ret (idle_of a ! i) [] a)"
      using i by (intro resched_ok [OF assms(1)]) (auto simp: idles_def)
    then show ?thesis using assms(2) Exit i Nil by simp
  next
    case (Cons t q)
    have "schedule_ok (resched i ret t q a)"
      using schedule_okD(3,6) [OF assms(1)] Cons i o by (intro resched_ok [OF assms(1)]) auto
    then show ?thesis using assms(2) Exit i Cons by simp
  qed
next
  case (Pick i ret)
  then have i: "i < length (on_cpu a)" "idles i a" using assms(2) by (auto split: if_splits)
  have o: "on_cpu a ! i \<in> set (on_cpu a)" using i by simp
  show ?thesis
  proof (cases "ready a")
    case Nil
    then show ?thesis using assms Pick i by simp
  next
    case (Cons t q)
    have "schedule_ok (resched i ret t q a)"
      using schedule_okD(3,6) [OF assms(1)] Cons i o by (intro resched_ok [OF assms(1)]) auto
    then show ?thesis using assms(2) Pick i Cons by simp
  qed
next
  case (Submit i t c)
  then show ?thesis using assms by (auto simp: schedule_ok_def idles_def split: if_splits)
next
  case (Work i c)
  then show ?thesis using assms by (auto simp: schedule_ok_def idles_def split: if_splits)
qed

section \<open>Waiting times\<close>

text \<open>The steps that take a task from the queue when there is one.\<close>

fun takes :: "sched_event \<Rightarrow> nat option" where
  "takes (Yield i ret) = Some i"
| "takes (Exit i ret) = Some i"
| "takes (Pick i ret) = Some i"
| "takes (Submit i t c) = None"
| "takes (Work i c) = None"

definition turns :: "sched_event list \<Rightarrow> nat" where
  "turns es = length (filter (\<lambda>e. takes e \<noteq> None) es)"

text \<open>Each of them takes the first task and puts at most one behind the others.\<close>

lemma sched_step_takes:
  assumes "sched_step e a = Some b" and "takes e = Some i" and "ready a = t # q"
  shows "\<exists>ys. ready b = q @ ys" and "on_cpu b = (on_cpu a)[i := t]" and "i < length (on_cpu a)" and "regs b = (regs a)[i := saved a t]"
  using assms by (cases e; auto split: if_splits)+

lemma sched_step_waits:
  assumes "sched_step e a = Some b" and "takes e = None"
  shows "\<exists>ys. ready b = ready a @ ys"
  using assms by (cases e) (auto split: if_splits)

lemma sched_run_queue:
  assumes "sched_run es a = Some b" and "turns es \<le> length (ready a)"
  shows "\<exists>ys. ready b = drop (turns es) (ready a) @ ys"
  using assms
proof (induction es arbitrary: a)
  case (Cons e es)
  obtain c where c: "sched_step e a = Some c" "sched_run es c = Some b" using Cons.prems(1) by (auto split: option.splits)
  show ?case
  proof (cases "takes e")
    case None
    then obtain ys where "ready c = ready a @ ys" using sched_step_waits [OF c(1)] by blast
    then show ?thesis using Cons.IH [OF c(2)] Cons.prems(2) None by (auto simp: turns_def)
  next
    case (Some i)
    then obtain t q where q: "ready a = t # q" using Cons.prems(2) by (cases "ready a") (auto simp: turns_def)
    obtain ys where "ready c = q @ ys" using sched_step_takes(1) [OF c(1) Some q] by blast
    then show ?thesis using Cons.IH [OF c(2)] Cons.prems(2) Some q by (auto simp: turns_def)
  qed
qed (simp add: turns_def)

text \<open>The task at position \<open>k\<close> runs on the processor that takes the task number \<open>k + 1\<close> from now on.\<close>

lemma sched_run_turn:
  assumes "sched_run (es @ [e]) a = Some b" and "k < length (ready a)" and "turns es = k" and "takes e = Some i"
  shows "on_cpu b ! i = ready a ! k" and "i < length (on_cpu b)"
proof -
  obtain c where c: "sched_run es a = Some c" "sched_step e c = Some b"
    using assms(1) by (auto simp: run_steps_append split: option.splits)
  obtain ys where "ready c = drop k (ready a) @ ys" using sched_run_queue [OF c(1)] assms(2,3) by auto
  then have q: "ready c = ready a ! k # (drop (Suc k) (ready a) @ ys)" using assms(2) by (simp add: Cons_nth_drop_Suc [symmetric])
  show "on_cpu b ! i = ready a ! k" "i < length (on_cpu b)" using sched_step_takes(2,3) [OF c(2) assms(4) q] by simp_all
qed

end
