(* ===== verification/Yield.thy ===== *)
theory Yield
  imports Scheduler_Spec
begin

text \<open>
  What \<open>scheduler_yield\<close> does as a whole: the choice of the next task, the queue afterwards, the entry of the processor and
  the switch of stacks, in every case the source distinguishes.
\<close>

section \<open>Parts of a yield\<close>

lemma lapic_id_steady:
  assumes "\<forall>n. mmio_in s (lapic_base s + 0x20) n = v"
  shows "lapic_id s = (drop_bit 24 (ucast v), s\<lparr>now := Suc (now s)\<rparr>)"
  using assms by (simp add: lapic_id_def lapic_read_def mmio_read32_def lapic_reg_defs)

lemma queue_ok_cong:
  assumes "queue_ok s q" and "\<And>u. u \<in> set q \<Longrightarrow> task_next (mem s') u = task_next (mem s) u"
    and "rq_lock s' = rq_lock s" "rq_head s' = rq_head s" "rq_tail s' = rq_tail s" "rq_count s' = rq_count s"
  shows "queue_ok s' q"
  using assms(1) rq_chain_cong [of q "mem s'" "mem s", OF assms(2)] by (simp add: queue_ok_def assms(3-))

text \<open>\<open>switch_frame s u\<close>: only time, memory, the run queue and the registers that a switch loads may differ.\<close>

definition switch_frame :: "'z sched_st_scheme \<Rightarrow> 'z sched_st_scheme \<Rightarrow> bool" where
  "switch_frame s u \<longleftrightarrow> u = s\<lparr>now := now u, mem := mem u, rq_head := rq_head u, rq_tail := rq_tail u, rq_count := rq_count u,
     rsp := rsp u, r15 := r15 u, r14 := r14 u, r13 := r13 u, r12 := r12 u, rbx := rbx u, rbp := rbp u, rip := rip u\<rparr>"

lemma switch_frame_trans:
  assumes "switch_frame s t" and "switch_frame t u"
  shows "switch_frame s u"
proof -
  have "u = t\<lparr>now := now u, mem := mem u, rq_head := rq_head u, rq_tail := rq_tail u, rq_count := rq_count u,
     rsp := rsp u, r15 := r15 u, r14 := r14 u, r13 := r13 u, r12 := r12 u, rbx := rbx u, rbp := rbp u, rip := rip u\<rparr>"
    using assms(2) by (simp add: switch_frame_def)
  also have "t = s\<lparr>now := now t, mem := mem t, rq_head := rq_head t, rq_tail := rq_tail t, rq_count := rq_count t,
     rsp := rsp t, r15 := r15 t, r14 := r14 t, r13 := r13 t, r12 := r12 t, rbx := rbx t, rbp := rbp t, rip := rip t\<rparr>"
    using assms(1) by (simp add: switch_frame_def)
  finally show ?thesis by (simp add: switch_frame_def)
qed

lemma switch_frame_now: "switch_frame s (s\<lparr>now := n\<rparr>)"
  by (simp add: switch_frame_def)

lemma switch_frame_queue:
  assumes e: "u = s\<lparr>now := now u, mem := mem u, rq_head := rq_head u, rq_tail := rq_tail u, rq_count := rq_count u\<rparr>"
  shows "switch_frame s u"
  unfolding switch_frame_def
  by (rule trans [OF e])
    (simp add: arg_cong [OF e, of rsp] arg_cong [OF e, of r15] arg_cong [OF e, of r14] arg_cong [OF e, of r13] arg_cong [OF e, of r12]
      arg_cong [OF e, of rbx] arg_cong [OF e, of rbp] arg_cong [OF e, of rip])

lemma switch_frame_queue_now:
  assumes e: "u = s\<lparr>mem := mem u, rq_head := rq_head u, rq_tail := rq_tail u, rq_count := rq_count u\<rparr>"
  shows "switch_frame s u"
  by (rule switch_frame_queue, rule trans [OF e]) (simp add: arg_cong [OF e, of now])

lemma switch_frame_regs:
  assumes e: "u = s\<lparr>mem := mem u, rsp := rsp u, r15 := r15 u, r14 := r14 u, r13 := r13 u, r12 := r12 u, rbx := rbx u, rbp := rbp u, rip := rip u\<rparr>"
  shows "switch_frame s u"
  unfolding switch_frame_def
  by (rule trans [OF e]) (simp add: arg_cong [OF e, of now] arg_cong [OF e, of rq_head] arg_cong [OF e, of rq_tail] arg_cong [OF e, of rq_count])

lemma switch_frame_sel:
  assumes "switch_frame s u"
  shows "cpu_locals u = cpu_locals s" "lapic_base u = lapic_base s" "mmio_in u = mmio_in s" "log_ok u = log_ok s" "log_dirty u = log_dirty s"
proof -
  have e: "u = s\<lparr>now := now u, mem := mem u, rq_head := rq_head u, rq_tail := rq_tail u, rq_count := rq_count u,
     rsp := rsp u, r15 := r15 u, r14 := r14 u, r13 := r13 u, r12 := r12 u, rbx := rbx u, rbp := rbp u, rip := rip u\<rparr>"
    using assms by (simp add: switch_frame_def)
  show "cpu_locals u = cpu_locals s" "lapic_base u = lapic_base s" "mmio_in u = mmio_in s" by (subst e, simp)+
  show "log_ok u = log_ok s" "log_dirty u = log_dirty s" by (subst e, simp add: log_ok_defs)+
qed

text \<open>The three writes before the switch.\<close>

definition dispatched :: "u64 \<Rightarrow> u64 \<Rightarrow> u8 \<Rightarrow> memory \<Rightarrow> memory" where
  "dispatched cpu t ident m = set_current cpu t (set_cpu t ident (set_state t TASK_RUNNING m))"

lemma dispatched_fields:
  assumes "separate t 40 cpu 24"
  shows "task_state (dispatched cpu t ident m) t = TASK_RUNNING" "task_cpu (dispatched cpu t ident m) t = ident"
    "load64 (dispatched cpu t ident m) t = load64 m t" "cpu_current (dispatched cpu t ident m) cpu = t"
    "x \<notin> region t 40 \<Longrightarrow> x \<notin> region cpu 8 \<Longrightarrow> dispatched cpu t ident m x = m x"
proof -
  let ?m = "set_cpu t ident (set_state t TASK_RUNNING m)"
  have c: "dispatched cpu t ident m x = ?m x" if "x \<notin> region cpu 8" for x
    using that by (simp add: dispatched_def set_current_def store64_outside)
  have c8: "x \<notin> region cpu 8" if "x \<notin> region cpu 24" for x
    using part_outside [OF that, of 0 8] by simp
  have h: "dispatched cpu t ident m x = ?m x" if "x \<in> region t 40" for x
    using c c8 separate_disjoint [OF assms that] by blast
  have o: "separate (t + of_nat a) n (t + of_nat b) k" if "a + n \<le> b \<or> b + k \<le> a" "a + n \<le> 40" "b + k \<le> 40" "0 < n" "0 < k" for a n b k
    using that by (intro entry_offsets) auto
  note f = task_fields_cong [of t "dispatched cpu t ident m" ?m, OF h]
  have "task_state ?m t = TASK_RUNNING"
    using o [of 16 4 24 1] unfolding task_state_def set_cpu_def set_state_def by (simp add: mixed_accesses)
  then show "task_state (dispatched cpu t ident m) t = TASK_RUNNING" using f(2) by simp
  have "load64 ?m t = load64 m t"
    using o [of 0 8 24 1] o [of 0 8 16 4] unfolding set_cpu_def set_state_def by (simp add: mixed_accesses)
  then show "load64 (dispatched cpu t ident m) t = load64 m t" using f(4) by simp
  show "task_cpu (dispatched cpu t ident m) t = ident"
    using h [of "t + 24"] by (simp add: task_cpu_def load8_def region_iff set_cpu_def store8_def)
  show "cpu_current (dispatched cpu t ident m) cpu = t" by (simp add: dispatched_def cpu_current_def set_current_def)
  show "dispatched cpu t ident m x = m x" if "x \<notin> region t 40" "x \<notin> region cpu 8"
    using c [OF that(2)] task_write_outside [OF that(1)] by simp
qed

text \<open>
  The areas a switch from \<open>old\<close> to \<open>t\<close> touches are apart: the fields of the tasks \<open>ts\<close>, the processor's entry, the seven words pushed on
  the running stack and the saved frame of \<open>t\<close>.
\<close>

definition switch_clear :: "'z sched_st_scheme \<Rightarrow> u64 \<Rightarrow> u64 \<Rightarrow> u64 list \<Rightarrow> bool" where
  "switch_clear s cpu t ts \<longleftrightarrow> (let f = rsp s - 56; g = load64 (mem s) t in
     (\<forall>u\<in>set ts. separate u 40 cpu 24 \<and> separate u 40 f 56 \<and> separate u 40 g 56) \<and> separate cpu 24 f 56 \<and> separate cpu 24 g 56 \<and> separate f 56 g 56)"

text \<open>The state after a switch: \<open>t\<close> runs on \<open>cpu\<close>, \<open>old\<close> has its context on its stack.\<close>

definition switched :: "u64 \<Rightarrow> u64 \<Rightarrow> u64 \<Rightarrow> u64 \<Rightarrow> u8 \<Rightarrow> 'z sched_st_scheme \<Rightarrow> 'z sched_st_scheme \<Rightarrow> bool" where
  "switched ret cpu old t ident s u \<longleftrightarrow> (let g = load64 (mem s) t in
     cpu_current (mem u) cpu = t \<and> task_state (mem u) t = TASK_RUNNING \<and> task_cpu (mem u) t = ident \<and>
     rsp u = g + 56 \<and> [r15 u, r14 u, r13 u, r12 u, rbx u, rbp u, rip u] = saved_frame (mem s) g \<and>
     load64 (mem u) old = rsp s - 56 \<and> saved_frame (mem u) (rsp s - 56) = [r15 s, r14 s, r13 s, r12 s, rbx s, rbp s, ret])"

lemma saved_frame_list: "length f = 7 \<Longrightarrow> [f ! 0, f ! 1, f ! 2, f ! 3, f ! 4, f ! 5, f ! 6] = f"
  by (intro nth_equalityI) (auto simp: less_Suc_eq numeral_eq_Suc)

lemma saved_frame_length [simp]: "length (saved_frame m g) = 7"
  by (simp add: saved_frame_def)

lemma dispatch_switch:
  fixes s s3 :: "'z sched_st_scheme"
  assumes "switch_clear s cpu t ts" and "t \<in> set ts" "old \<in> set ts" and "separate t 40 old 40"
    and "rsp s3 = rsp s" "r15 s3 = r15 s" "r14 s3 = r14 s" "r13 s3 = r13 s" "r12 s3 = r12 s" "rbx s3 = rbx s" "rbp s3 = rbp s"
    and m3: "\<And>x. \<forall>u\<in>set ts - {t}. x \<notin> region u 40 \<Longrightarrow> x \<notin> region (t + 32) 8 \<Longrightarrow> mem s3 x = mem s x"
    and "load64 (mem s3) t = load64 (mem s) t"
    and u: "u = scheduler_context_switch old t (push ret (s3\<lparr>mem := dispatched cpu t ident (mem s3)\<rparr>))"
  shows "switched ret cpu old t ident s u"
    and "\<And>x. x \<notin> region t 40 \<Longrightarrow> x \<notin> region cpu 8 \<Longrightarrow> x \<notin> region (rsp s - 56) 56 \<Longrightarrow> x \<notin> region old 8 \<Longrightarrow> mem u x = mem s3 x"
    and "u = s3\<lparr>mem := mem u, rsp := rsp u, r15 := r15 u, r14 := r14 u, r13 := r13 u, r12 := r12 u, rbx := rbx u, rbp := rbp u, rip := rip u\<rparr>"
proof -
  define f where "f = rsp s - 56"
  define g where "g = load64 (mem s) t"
  let ?d = "dispatched cpu t ident (mem s3)"
  let ?p = "push ret (s3\<lparr>mem := ?d\<rparr>)"
  let ?m = "store64 (pushed ?p) old f"
  have cl: "separate v 40 cpu 24" "separate v 40 f 56" "separate v 40 g 56" if "v \<in> set ts" for v
    using assms(1) that by (auto simp: switch_clear_def Let_def f_def g_def)
  have cl': "separate cpu 24 f 56" "separate cpu 24 g 56" "separate f 56 g 56"
    using assms(1) by (auto simp: switch_clear_def Let_def f_def g_def)
  have rp: "rsp ?p = f + 48" "rsp ?p - 48 = f" by (simp_all add: push_def f_def assms(5))
  have mp: "mem ?p = store64 ?d (f + 48) ret" by (simp add: push_def f_def assms(5))
  have pm: "pushed ?p x = ?d x" if "x \<notin> region f 56" for x
    using pushed_frame(2) [OF rp(1), of x] part_outside [OF that, of 0 48] part_outside [OF that, of 48 8] mp by (simp add: store64_outside)
  have out: "?m x = ?d x" if "x \<notin> region f 56" "x \<notin> region old 8" for x using pm that by (simp add: store64_outside)
  have old8: "x \<notin> region old 8" if "x \<notin> region old 40" for x using part_outside [OF that, of 0 8] by simp
  have cpu8: "x \<notin> region cpu 8" if "x \<notin> region cpu 24" for x using part_outside [OF that, of 0 8] by simp
  have ht: "?m x = ?d x" if "x \<in> region t 40" for x
    using out old8 separate_disjoint [OF cl(2) [OF assms(2)] that] separate_disjoint [OF assms(4) that] by blast
  have hc: "?m x = ?d x" if "x \<in> region cpu 24" for x
    using out old8 separate_disjoint [OF cl'(1) that] that separate_disjoint [OF cl(1) [OF assms(3)]] by blast
  note df = dispatched_fields [OF cl(1) [OF assms(2)], where ident = ident and m = "mem s3"]
  note tf = task_fields_cong [of t ?m ?d, OF ht]
  have n: "load64 ?m t = g" using tf(4) df(3) assms(13) by (simp add: g_def)
  have res: "u = ?p\<lparr>mem := ?m, rsp := g + 56, r15 := saved_frame ?m g ! 0, r14 := saved_frame ?m g ! 1, r13 := saved_frame ?m g ! 2,
      r12 := saved_frame ?m g ! 3, rbx := saved_frame ?m g ! 4, rbp := saved_frame ?m g ! 5, rip := saved_frame ?m g ! 6\<rparr>"
    unfolding u switch_result rp(2) n ..
  have mu: "mem u = ?m" by (simp add: res)
  have gx: "?m x = mem s x" if "x \<in> region g 56" for x
  proof -
    have "x \<notin> region v 40" if "v \<in> set ts" for v using separate_disjoint [OF cl(3) [OF that]] \<open>x \<in> region g 56\<close> by blast
    moreover from this have "x \<notin> region (t + 32) 8" using part_outside [of x t 40 32 8] assms(2) by simp
    moreover have "x \<notin> region cpu 24" "x \<notin> region f 56" using that separate_disjoint [OF cl'(2)] separate_disjoint [OF cl'(3)] by blast+
    ultimately show ?thesis using out df(5) old8 cpu8 assms(2,3) m3 by simp
  qed
  have fr: "saved_frame ?m g = saved_frame (mem s) g" using gx by (rule saved_frame_cong)
  have "saved_frame ?m f = saved_frame (pushed ?p) f"
    using separate_disjoint [OF cl(2) [OF assms(3)]] by (intro saved_frame_cong store64_outside old8) blast
  also have "\<dots> = [r15 s, r14 s, r13 s, r12 s, rbx s, rbp s, ret]"
    unfolding pushed_frame(1) [OF rp(1)] mp by (simp add: push_def assms)
  finally have ff: "saved_frame ?m f = [r15 s, r14 s, r13 s, r12 s, rbx s, rbp s, ret]" .
  have "load64 ?m cpu = load64 ?d cpu" using hc part_outside [of _ cpu 24 0 8] by (intro load64_cong) auto
  moreover have "task_cpu ?m t = task_cpu ?d t" using ht [of "t + 24"] by (simp add: task_cpu_def load8_def region_iff)
  moreover have "[r15 u, r14 u, r13 u, r12 u, rbx u, rbp u, rip u] = saved_frame (mem s) g"
    using saved_frame_list [of "saved_frame ?m g"] fr by (simp add: res)
  ultimately show "switched ret cpu old t ident s u"
    unfolding switched_def Let_def mu g_def [symmetric] f_def [symmetric]
    using df(1,2,4) tf(2) ff by (simp add: res cpu_current_def)
  show "mem u x = mem s3 x" if "x \<notin> region t 40" "x \<notin> region cpu 8" "x \<notin> region (rsp s - 56) 56" "x \<notin> region old 8" for x
    unfolding mu using out that df(5) by (simp add: f_def)
  show "u = s3\<lparr>mem := mem u, rsp := rsp u, r15 := r15 u, r14 := r14 u, r13 := r13 u, r12 := r12 u, rbx := rbx u, rbp := rbp u, rip := rip u\<rparr>"
    by (simp add: res push_def)
qed

lemma task_tail_cong:
  assumes "\<And>x. x \<in> region (t + 8) 32 \<Longrightarrow> m' x = m x"
  shows "task_next m' t = task_next m t" "task_state m' t = task_state m t"
  using load_part [of "t + 8" 32 m' m, OF assms, of 24 8] load_part [of "t + 8" 32 m' m, OF assms, of 8 4]
  by (simp_all add: task_next_def task_state_def load64_def load32_def add.assoc)

definition running :: "'z sched_st_scheme \<Rightarrow> u64 \<Rightarrow> bool" where
  "running s t \<longleftrightarrow> task_state (mem s) t = TASK_RUNNING"

text \<open>
  The optional return of the old task to the queue. \<open>goes_on s old\<close>: there is an old task, and it is still running; \<open>fr\<close> is the task
  whose context the switch saves, the old one or the idle task of the processor when there is none.
\<close>

definition goes_on :: "'z sched_st_scheme \<Rightarrow> u64 \<Rightarrow> bool" where
  "goes_on s old \<longleftrightarrow> old \<noteq> 0 \<and> running s old"

lemma requeue:
  fixes s :: "'z sched_st_scheme"
  assumes "queue_ok s q" and "apart (q @ [fr])" and "old \<noteq> 0 \<Longrightarrow> fr = old"
  obtains u where "(if old \<noteq> 0 \<and> task_state (mem s) old = TASK_RUNNING then scheduler_enqueue old s else Ret () s) = Ret () u"
    and "queue_ok u (q @ (if goes_on s old then [old] else []))"
    and "task_state (mem u) fr = (if goes_on s old then TASK_READY else task_state (mem s) fr)"
    and "u = s\<lparr>mem := mem u, rq_head := rq_head u, rq_tail := rq_tail u, rq_count := rq_count u\<rparr>"
    and "\<forall>x. (goes_on s old \<longrightarrow> x \<notin> region fr 40 \<and> (\<forall>v\<in>set q. x \<notin> region (v + 32) 8)) \<longrightarrow> mem u x = mem s x"
proof (cases "goes_on s old")
  case True
  then have o: "old \<noteq> 0" "fr = old" "running s old" using assms(3) by (simp_all add: goes_on_def)
  obtain u where u: "scheduler_enqueue old s = Ret () u" "queue_ok u (q @ [old])" "task_state (mem u) old = TASK_READY"
    "u = s\<lparr>mem := mem u, rq_head := rq_head u, rq_tail := rq_tail u, rq_count := rq_count u\<rparr>"
    "\<forall>x. x \<notin> region (old + 16) 4 \<and> x \<notin> region (old + 32) 8 \<and> (q \<noteq> [] \<longrightarrow> x \<notin> region (last q + 32) 8) \<longrightarrow> mem u x = mem s x"
    by (rule enqueue_ok [OF assms(1) assms(2) [unfolded o(2)]])
  show thesis
  proof (rule that [OF _ _ _ u(4)])
    show "\<forall>x. (goes_on s old \<longrightarrow> x \<notin> region fr 40 \<and> (\<forall>v\<in>set q. x \<notin> region (v + 32) 8)) \<longrightarrow> mem u x = mem s x"
      using u(5) part_outside [of _ old 40 16 4] part_outside [of _ old 40 32 8] True o(2) by simp
  qed (use u True o in \<open>simp_all add: running_def\<close>)
next
  case False
  then show thesis using assms(1) by (intro that [of s]) (auto simp: goes_on_def running_def)
qed

text \<open>The part of a yield before the switch of stacks.\<close>

lemma switch_to_steps:
  fixes s s2 :: "'z sched_st_scheme"
  assumes q: "queue_ok s2 q" and aq: "apart (q @ [fr])" and sep: "\<And>w. w \<in> set (q @ [fr]) \<Longrightarrow> w \<noteq> t \<Longrightarrow> separate w 40 t 40"
    and fr: "fr = (if old = 0 then cpu_idle (mem s) cpu else old)" and self: "goes_on s old \<Longrightarrow> t \<noteq> fr"
    and clear: "separate t 40 cpu 24" and steady: "\<forall>n. mmio_in s (lapic_base s + 0x20) n = v"
    and s2: "s2 = s\<lparr>now := now s2, mem := mem s2, rq_head := rq_head s2, rq_tail := rq_tail s2, rq_count := rq_count s2\<rparr>"
    and m2: "\<forall>x. x \<notin> region (t + 32) 8 \<longrightarrow> mem s2 x = mem s x"
  obtains s4 where "switch_to ret cpu old t s2 =
      Ret () (scheduler_context_switch fr t (push ret (s4\<lparr>mem := dispatched cpu t (ucast (drop_bit 24 (ucast v :: u32))) (mem s4)\<rparr>)))"
    and "queue_ok s4 (q @ (if goes_on s old then [old] else []))"
    and "task_state (mem s4) fr = (if goes_on s old then TASK_READY else task_state (mem s) fr)"
    and "s4 = s\<lparr>now := now s4, mem := mem s4, rq_head := rq_head s4, rq_tail := rq_tail s4, rq_count := rq_count s4\<rparr>"
    and "\<forall>x. x \<notin> region (t + 32) 8 \<and> (goes_on s old \<longrightarrow> x \<notin> region fr 40 \<and> (\<forall>w\<in>set q. x \<notin> region (w + 32) 8)) \<longrightarrow> mem s4 x = mem s x"
proof -
  let ?i = "drop_bit 24 (ucast v) :: u32"
  have st: "task_state (mem s2) fr = task_state (mem s) fr"
  proof (cases "fr = t")
    case True
    have "separate (t + 16) 4 (t + 32) 8" using entry_offsets [of 16 4 32 8 t] by simp
    then have "mem s2 x = mem s x" if "x \<in> region (t + 16) 4" for x using m2 that separate_disjoint by blast
    then show ?thesis using load_part [of "t + 16" 4 "mem s2" "mem s" 0 4] True by (simp add: task_state_def load32_def)
  next
    case False
    have "mem s2 x = mem s x" if "x \<in> region fr 40" for x
      using m2 part_outside [of x t 40 32 8] separate_disjoint [OF sep [of fr] that] False by simp
    then show ?thesis by (rule task_fields_cong)
  qed
  have o: "old \<noteq> 0 \<Longrightarrow> fr = old" using fr by simp
  have run: "goes_on s2 old = goes_on s old" using st o by (auto simp: goes_on_def running_def)
  obtain s3 where s3: "(if old \<noteq> 0 \<and> task_state (mem s2) old = TASK_RUNNING then scheduler_enqueue old s2 else Ret () s2) = Ret () s3"
    "queue_ok s3 (q @ (if goes_on s old then [old] else []))" "task_state (mem s3) fr = (if goes_on s old then TASK_READY else task_state (mem s) fr)"
    "s3 = s2\<lparr>mem := mem s3, rq_head := rq_head s3, rq_tail := rq_tail s3, rq_count := rq_count s3\<rparr>"
    "\<forall>x. (goes_on s old \<longrightarrow> x \<notin> region fr 40 \<and> (\<forall>v\<in>set q. x \<notin> region (v + 32) 8)) \<longrightarrow> mem s3 x = mem s2 x"
    by (rule requeue [OF q aq o, unfolded run st])
  let ?s4 = "s3\<lparr>now := Suc (now s3)\<rparr>"
  let ?d = "dispatched cpu t (ucast ?i) (mem s3)"
  have sel: "mmio_in s3 = mmio_in s" "lapic_base s3 = lapic_base s" by (subst s3(4), subst s2, simp)+
  have ident: "lapic_id (on_mem f s3) = (?i, on_mem f ?s4)" for f
    using lapic_id_steady [of "on_mem f s3" v] steady sel by (simp add: on_mem_def)
  have idle: "cpu_idle ?d cpu = cpu_idle (mem s) cpu" if "old = 0"
  proof -
    have "?d x = mem s x" if "x \<in> region (cpu + 8) 8" for x
    proof -
      have c: "x \<in> region cpu 24" using that part_outside [of x cpu 24 8 8] by auto
      have "separate (cpu + 8) 8 cpu 8" using entry_offsets [of 8 8 0 8 cpu] by simp
      then have "x \<notin> region cpu 8" using that separate_disjoint by blast
      moreover have "x \<notin> region t 40" using separate_disjoint [OF clear] c by blast
      moreover from this have "x \<notin> region (t + 32) 8" using part_outside [of x t 40 32 8] by simp
      ultimately show ?thesis using dispatched_fields(5) [OF clear] s3(5) m2 \<open>old = 0\<close> by (simp add: goes_on_def)
    qed
    then show ?thesis unfolding cpu_idle_def by (rule load64_cong)
  qed
  have "switch_to ret cpu old t s2 = Ret () (scheduler_context_switch (if old \<noteq> 0 then old else cpu_idle ?d cpu) t (push ret (?s4\<lparr>mem := ?d\<rparr>)))"
    unfolding switch_to_def s3(1) andthen_simps by (simp add: ident) (simp add: on_mem_def dispatched_def)
  moreover have "(if old \<noteq> 0 then old else cpu_idle ?d cpu) = fr" using fr idle by simp
  ultimately have sw: "switch_to ret cpu old t s2 = Ret () (scheduler_context_switch fr t (push ret (?s4\<lparr>mem := dispatched cpu t (ucast ?i) (mem ?s4)\<rparr>)))"
    by simp
  show thesis
  proof (rule that [OF sw])
    show "?s4 = s\<lparr>now := now ?s4, mem := mem ?s4, rq_head := rq_head ?s4, rq_tail := rq_tail ?s4, rq_count := rq_count ?s4\<rparr>"
      by (subst s3(4), subst s2) simp
    show "\<forall>x. x \<notin> region (t + 32) 8 \<and> (goes_on s old \<longrightarrow> x \<notin> region fr 40 \<and> (\<forall>w\<in>set q. x \<notin> region (w + 32) 8)) \<longrightarrow> mem ?s4 x = mem s x"
      using s3(5) m2 by simp
  qed (use s3(2,3) in \<open>simp_all add: queue_ok_def\<close>)
qed

text \<open>The switch leaves the queue alone: it writes to no field that links a waiting task.\<close>

lemma queue_ok_after:
  assumes "queue_ok s q" and "\<And>w x. w \<in> set q \<Longrightarrow> x \<in> region (w + 8) 32 \<Longrightarrow> mem u x = mem s x"
    and "u = s\<lparr>mem := mem u, rsp := rsp u, r15 := r15 u, r14 := r14 u, r13 := r13 u, r12 := r12 u, rbx := rbx u, rbp := rbp u, rip := rip u\<rparr>"
  shows "queue_ok u q"
proof (rule queue_ok_cong [OF assms(1)])
  show "task_next (mem u) w = task_next (mem s) w" if "w \<in> set q" for w using task_tail_cong(1) [of w] assms(2) [OF that] by blast
  show "rq_lock u = rq_lock s" "rq_head u = rq_head s" "rq_tail u = rq_tail s" "rq_count u = rq_count s" by (subst assms(3), simp)+
qed

lemma switch_to_ok:
  fixes s s2 :: "'z sched_st_scheme"
  assumes q: "queue_ok s2 q" and fr: "fr = (if old = 0 then cpu_idle (mem s) cpu else old)" and ap: "apart (t # q @ [fr])"
    and clear: "switch_clear s cpu t (t # q @ [fr])" and steady: "\<forall>n. mmio_in s (lapic_base s + 0x20) n = v"
    and s2: "s2 = s\<lparr>now := now s2, mem := mem s2, rq_head := rq_head s2, rq_tail := rq_tail s2, rq_count := rq_count s2\<rparr>"
    and m2: "\<forall>x. x \<notin> region (t + 32) 8 \<longrightarrow> mem s2 x = mem s x"
  obtains u where "switch_to ret cpu old t s2 = Ret () u" and "switched ret cpu fr t (ucast (drop_bit 24 (ucast v :: u32))) s u"
    and "queue_ok u (q @ (if goes_on s old then [old] else []))"
    and "task_state (mem u) fr = (if goes_on s old then TASK_READY else task_state (mem s) fr)" and "switch_frame s u"
    and "\<And>x. x \<notin> region t 40 \<Longrightarrow> x \<notin> region fr 40 \<Longrightarrow> x \<notin> region cpu 8 \<Longrightarrow> x \<notin> region (rsp s - 56) 56 \<Longrightarrow>
      (\<forall>w\<in>set q. x \<notin> region (w + 32) 8) \<Longrightarrow> mem u x = mem s x"
proof -
  have aq: "apart (q @ [fr])" using ap by (rule apart_sub) (use ap in \<open>auto simp: apart_def\<close>)
  have tn: "t \<notin> set (q @ [fr])" using ap by (auto simp: apart_def)
  have sep: "separate w 40 t 40" if "w \<in> set (q @ [fr])" for w using apartD [OF ap, of w t] that tn by auto
  have ct: "separate t 40 cpu 24" using clear by (simp add: switch_clear_def Let_def)
  obtain s4 where s4: "switch_to ret cpu old t s2 =
      Ret () (scheduler_context_switch fr t (push ret (s4\<lparr>mem := dispatched cpu t (ucast (drop_bit 24 (ucast v :: u32))) (mem s4)\<rparr>)))"
    "queue_ok s4 (q @ (if goes_on s old then [old] else []))"
    "task_state (mem s4) fr = (if goes_on s old then TASK_READY else task_state (mem s) fr)"
    "s4 = s\<lparr>now := now s4, mem := mem s4, rq_head := rq_head s4, rq_tail := rq_tail s4, rq_count := rq_count s4\<rparr>"
    "\<forall>x. x \<notin> region (t + 32) 8 \<and> (goes_on s old \<longrightarrow> x \<notin> region fr 40 \<and> (\<forall>w\<in>set q. x \<notin> region (w + 32) 8)) \<longrightarrow> mem s4 x = mem s x"
    by (rule switch_to_steps [OF q aq sep fr _ ct steady s2 m2]) (use tn in auto)
  define u where "u = scheduler_context_switch fr t (push ret (s4\<lparr>mem := dispatched cpu t (ucast (drop_bit 24 (ucast v :: u32))) (mem s4)\<rparr>))"
  have rg: "rsp s4 = rsp s" "r15 s4 = r15 s" "r14 s4 = r14 s" "r13 s4 = r13 s" "r12 s4 = r12 s" "rbx s4 = rbx s" "rbp s4 = rbp s"
    by (subst s4(4), simp)+
  have m4: "mem s4 x = mem s x" if "\<forall>w\<in>set (t # q @ [fr]) - {t}. x \<notin> region w 40" "x \<notin> region (t + 32) 8" for x
  proof -
    have "x \<notin> region w 40" if "w \<in> set (q @ [fr])" for w using that \<open>\<forall>w\<in>set (t # q @ [fr]) - {t}. x \<notin> region w 40\<close> tn by auto
    then have "x \<notin> region fr 40 \<and> (\<forall>w\<in>set q. x \<notin> region (w + 32) 8)" using part_outside [of x _ 40 32 8] by simp
    then show ?thesis using s4(5) that(2) by simp
  qed
  have t0: "load64 (mem s4) t = load64 (mem s) t"
  proof (rule load64_cong)
    fix x assume x: "x \<in> region t 8"
    have "x \<notin> region (t + 32) 8" using separate_disjoint [OF _ x, of "t + 32" 8] entry_offsets [of 0 8 32 8 t] by simp
    moreover have "x \<in> region t 40" using x part_outside [of x t 40 0 8] by auto
    then have "x \<notin> region w 40" if "w \<in> set (q @ [fr])" for w using separate_disjoint [OF sep [OF that]] by blast
    ultimately show "mem s4 x = mem s x" by (intro m4) auto
  qed
  have sot: "separate t 40 fr 40" using sep [of fr] separate_sym by simp
  note D = dispatch_switch [OF clear _ _ sot rg m4 t0 u_def, simplified]
  have keep: "mem u x = mem s4 x" if "w \<in> set (q @ [fr])" "x \<in> region (w + 8) 32" for w x
  proof -
    have w: "x \<in> region w 40" using that(2) part_outside [of x w 40 8 32] by auto
    have "x \<notin> region t 40" using separate_disjoint [OF sep [OF that(1)] w] .
    moreover have "separate w 40 cpu 24" "separate w 40 (rsp s - 56) 56" using clear that(1) by (auto simp: switch_clear_def Let_def)
    then have c: "x \<notin> region cpu 24" and "x \<notin> region (rsp s - 56) 56" using separate_disjoint w by blast+
    moreover have "x \<notin> region cpu 8" using part_outside [OF c, of 0 8] by simp
    moreover have "x \<notin> region fr 8"
    proof (cases "w = fr")
      case True
      have "separate (w + 8) 32 w 8" using entry_offsets [of 8 32 0 8 w] by simp
      then show ?thesis using separate_disjoint [OF _ that(2)] True by blast
    next
      case False
      have "separate w 40 fr 40" using apartD [OF aq, of w fr] that(1) False by simp
      then have "x \<notin> region fr 40" using separate_disjoint w by blast
      then show ?thesis using part_outside [of x fr 40 0 8] by simp
    qed
    ultimately show ?thesis using D(2) by simp
  qed
  have "queue_ok u (q @ (if goes_on s old then [old] else []))"
    by (rule queue_ok_after [OF s4(2) keep D(3)]) (use fr in \<open>auto simp: goes_on_def split: if_splits\<close>)
  moreover have "task_state (mem u) fr = (if goes_on s old then TASK_READY else task_state (mem s) fr)"
    using task_tail_cong(2) [of fr "mem u" "mem s4"] keep [of fr] s4(3) by simp
  moreover have "switch_frame s u"
    using switch_frame_trans [OF switch_frame_queue [OF s4(4)] switch_frame_regs [OF D(3)]] .
  moreover have "mem u x = mem s x" if "x \<notin> region t 40" "x \<notin> region fr 40" "x \<notin> region cpu 8" "x \<notin> region (rsp s - 56) 56"
      "\<forall>w\<in>set q. x \<notin> region (w + 32) 8" for x
    using that D(2) [of x] s4(5) part_outside [OF that(1), of 32 8] part_outside [OF that(2), of 0 8] by simp
  ultimately show thesis using that [OF s4(1) [folded u_def]] D(1) by blast
qed

text \<open>
  A task that is switched to itself, an idle task for which there is nothing to do: it saves its registers and loads them again, and
  the call of the switch returns at once.
\<close>

definition resumed :: "u64 \<Rightarrow> u64 \<Rightarrow> u64 \<Rightarrow> u8 \<Rightarrow> 'z sched_st_scheme \<Rightarrow> 'z sched_st_scheme \<Rightarrow> bool" where
  "resumed ret cpu t ident s u \<longleftrightarrow>
     cpu_current (mem u) cpu = t \<and> task_state (mem u) t = TASK_RUNNING \<and> task_cpu (mem u) t = ident \<and>
     rsp u = rsp s \<and> [r15 u, r14 u, r13 u, r12 u, rbx u, rbp u, rip u] = [r15 s, r14 s, r13 s, r12 s, rbx s, rbp s, ret] \<and>
     load64 (mem u) t = rsp s - 56 \<and> saved_frame (mem u) (rsp s - 56) = [r15 s, r14 s, r13 s, r12 s, rbx s, rbp s, ret]"

lemma dispatch_self:
  assumes "separate t 40 cpu 24" and "separate t 40 (rsp s - 56) 56" and "separate cpu 24 (rsp s - 56) 56"
    and u: "u = scheduler_context_switch t t (push ret (s\<lparr>mem := dispatched cpu t ident (mem s)\<rparr>))"
  shows "resumed ret cpu t ident s u"
    and "\<And>x. x \<notin> region t 40 \<Longrightarrow> x \<notin> region cpu 8 \<Longrightarrow> x \<notin> region (rsp s - 56) 56 \<Longrightarrow> mem u x = mem s x"
    and "u = s\<lparr>mem := mem u, rsp := rsp u, r15 := r15 u, r14 := r14 u, r13 := r13 u, r12 := r12 u, rbx := rbx u, rbp := rbp u, rip := rip u\<rparr>"
proof -
  define f where "f = rsp s - 56"
  let ?d = "dispatched cpu t ident (mem s)"
  let ?p = "push ret (s\<lparr>mem := ?d\<rparr>)"
  let ?m = "store64 (pushed ?p) t f"
  have rp: "rsp ?p = f + 48" "rsp ?p - 48 = f" by (simp_all add: push_def f_def)
  have mp: "mem ?p = store64 ?d (f + 48) ret" by (simp add: push_def f_def)
  have out: "?m x = ?d x" if "x \<notin> region f 56" "x \<notin> region t 8" for x
    using pushed_frame(2) [OF rp(1), of x] part_outside [OF that(1), of 0 48] part_outside [OF that(1), of 48 8] mp that(2)
    by (simp add: store64_outside)
  have t8: "x \<notin> region t 8" if "x \<notin> region t 40" for x using part_outside [OF that, of 0 8] by simp
  have tail: "?m x = ?d x" if "x \<in> region (t + 8) 32" for x
  proof (rule out)
    have x: "x \<in> region t 40" using that part_outside [of x t 40 8 32] by auto
    show "x \<notin> region f 56" using separate_disjoint [OF assms(2) x] by (simp add: f_def)
    have "separate (t + 8) 32 t 8" using entry_offsets [of 8 32 0 8 t] by simp
    then show "x \<notin> region t 8" using separate_disjoint [OF _ that] by blast
  qed
  have hc: "?m x = ?d x" if "x \<in> region cpu 24" for x
    using out [of x] t8 [of x] that separate_disjoint [OF assms(3) that] separate_disjoint [OF assms(1)] unfolding f_def by blast
  note df = dispatched_fields [OF assms(1), where ident = ident and m = "mem s"]
  have n: "load64 ?m t = f" by simp
  have res: "u = ?p\<lparr>mem := ?m, rsp := f + 56, r15 := saved_frame ?m f ! 0, r14 := saved_frame ?m f ! 1, r13 := saved_frame ?m f ! 2,
      r12 := saved_frame ?m f ! 3, rbx := saved_frame ?m f ! 4, rbp := saved_frame ?m f ! 5, rip := saved_frame ?m f ! 6\<rparr>"
    unfolding u switch_result rp(2) n ..
  have mu: "mem u = ?m" by (simp add: res)
  have "saved_frame ?m f = saved_frame (pushed ?p) f"
    using separate_disjoint [OF assms(2)] t8 unfolding f_def [symmetric] by (intro saved_frame_cong store64_outside) blast
  also have "\<dots> = [r15 s, r14 s, r13 s, r12 s, rbx s, rbp s, ret]"
    unfolding pushed_frame(1) [OF rp(1)] mp by (simp add: push_def)
  finally have ff: "saved_frame ?m f = [r15 s, r14 s, r13 s, r12 s, rbx s, rbp s, ret]" .
  have "load64 ?m cpu = load64 ?d cpu" using hc part_outside [of _ cpu 24 0 8] by (intro load64_cong) auto
  moreover have "task_cpu ?m t = task_cpu ?d t" using tail [of "t + 24"] by (simp add: task_cpu_def load8_def region_iff)
  ultimately show "resumed ret cpu t ident s u"
    unfolding resumed_def mu f_def [symmetric] using df(1,2,4) task_tail_cong(2) [OF tail] ff
    by (simp add: res cpu_current_def) (simp add: f_def)
  show "mem u x = mem s x" if "x \<notin> region t 40" "x \<notin> region cpu 8" "x \<notin> region (rsp s - 56) 56" for x
    unfolding mu using out t8 that df(5) by (simp add: f_def)
  show "u = s\<lparr>mem := mem u, rsp := rsp u, r15 := r15 u, r14 := r14 u, r13 := r13 u, r12 := r12 u, rbx := rbx u, rbp := rbp u, rip := rip u\<rparr>"
    by (simp add: res push_def)
qed

lemma switch_to_self:
  fixes s s2 :: "'z sched_st_scheme"
  assumes q: "queue_ok s2 q" and fr: "t = (if old = 0 then cpu_idle (mem s) cpu else old)" and stops: "\<not> goes_on s old" and ap: "apart (t # q)"
    and clear: "\<forall>u\<in>set (t # q). separate u 40 cpu 24 \<and> separate u 40 (rsp s - 56) 56" "separate cpu 24 (rsp s - 56) 56"
    and steady: "\<forall>n. mmio_in s (lapic_base s + 0x20) n = v"
    and s2: "s2 = s\<lparr>now := now s2, mem := mem s2, rq_head := rq_head s2, rq_tail := rq_tail s2, rq_count := rq_count s2\<rparr>"
    and m2: "\<forall>x. x \<notin> region (t + 32) 8 \<longrightarrow> mem s2 x = mem s x"
  obtains u where "switch_to ret cpu old t s2 = Ret () u" and "resumed ret cpu t (ucast (drop_bit 24 (ucast v :: u32))) s u"
    and "queue_ok u q" and "switch_frame s u"
    and "\<And>x. x \<notin> region t 40 \<Longrightarrow> x \<notin> region cpu 8 \<Longrightarrow> x \<notin> region (rsp s - 56) 56 \<Longrightarrow> mem u x = mem s x"
proof -
  have aq: "apart (q @ [t])" using ap by (rule apart_sub) (use ap in \<open>auto simp: apart_def\<close>)
  have sep: "separate w 40 t 40" if "w \<in> set (q @ [t])" "w \<noteq> t" for w using apartD [OF aq that(1), of t] that(2) by simp
  have ct: "separate t 40 cpu 24" using clear(1) by simp
  obtain s4 where s4: "switch_to ret cpu old t s2 =
      Ret () (scheduler_context_switch t t (push ret (s4\<lparr>mem := dispatched cpu t (ucast (drop_bit 24 (ucast v :: u32))) (mem s4)\<rparr>)))"
    "queue_ok s4 q" "s4 = s\<lparr>now := now s4, mem := mem s4, rq_head := rq_head s4, rq_tail := rq_tail s4, rq_count := rq_count s4\<rparr>"
    "\<forall>x. x \<notin> region (t + 32) 8 \<longrightarrow> mem s4 x = mem s x"
    by (rule switch_to_steps [OF q aq sep fr _ ct steady s2 m2]) (use stops in auto)
  define u where "u = scheduler_context_switch t t (push ret (s4\<lparr>mem := dispatched cpu t (ucast (drop_bit 24 (ucast v :: u32))) (mem s4)\<rparr>))"
  have rg: "rsp s4 = rsp s" "r15 s4 = r15 s" "r14 s4 = r14 s" "r13 s4 = r13 s" "r12 s4 = r12 s" "rbx s4 = rbx s" "rbp s4 = rbp s"
    by (subst s4(3), simp)+
  have D: "resumed ret cpu t (ucast (drop_bit 24 (ucast v :: u32))) s4 u"
    "\<And>x. x \<notin> region t 40 \<Longrightarrow> x \<notin> region cpu 8 \<Longrightarrow> x \<notin> region (rsp s - 56) 56 \<Longrightarrow> mem u x = mem s4 x"
    "u = s4\<lparr>mem := mem u, rsp := rsp u, r15 := r15 u, r14 := r14 u, r13 := r13 u, r12 := r12 u, rbx := rbx u, rbp := rbp u, rip := rip u\<rparr>"
    using dispatch_self [OF ct _ _ u_def] clear rg(1) by auto
  have keep: "mem u x = mem s4 x" if "w \<in> set q" "x \<in> region (w + 8) 32" for w x
  proof -
    have w: "x \<in> region w 40" using that(2) part_outside [of x w 40 8 32] by auto
    have "w \<noteq> t" using that(1) ap by (auto simp: apart_def)
    then have "x \<notin> region t 40" using separate_disjoint [OF sep w] that(1) by simp
    moreover have c: "x \<notin> region cpu 24" "x \<notin> region (rsp s - 56) 56" using clear(1) that(1) separate_disjoint w by auto
    moreover have "x \<notin> region cpu 8" using part_outside [OF c(1), of 0 8] by simp
    ultimately show ?thesis using D(2) by simp
  qed
  have "mem u x = mem s x" if "x \<notin> region t 40" "x \<notin> region cpu 8" "x \<notin> region (rsp s - 56) 56" for x
    using that D(2) [of x] s4(4) part_outside [OF that(1), of 32 8] by simp
  moreover have "resumed ret cpu t (ucast (drop_bit 24 (ucast v :: u32))) s u" using D(1) by (simp add: resumed_def rg)
  moreover have "queue_ok u q" by (rule queue_ok_after [OF s4(2) keep D(3)])
  moreover have "switch_frame s u" by (rule switch_frame_trans [OF switch_frame_queue [OF s4(3)] switch_frame_regs [OF D(3)]])
  ultimately show thesis using that [OF s4(1) [folded u_def]] by blast
qed

lemma yield_empty:
  assumes "cpu_local s = (cpu, s\<lparr>now := Suc (now s)\<rparr>)" and "queue_ok s []" and "running s (cpu_current (mem s) cpu)"
    and "cpu_current (mem s) cpu \<noteq> 0"
  shows "scheduler_yield ret s = Ret () (s\<lparr>now := Suc (now s)\<rparr>)"
proof -
  have "scheduler_dequeue (s\<lparr>now := Suc (now s)\<rparr>) = Ret 0 (s\<lparr>now := Suc (now s)\<rparr>)"
    using assms(2) by (intro dequeue_empty) (simp add: queue_ok_def)
  then show ?thesis using assms(1,3,4) by (simp add: scheduler_yield_def running_def Let_def)
qed

text \<open>
  What a switch from \<open>fr\<close> to \<open>t\<close> needs when \<open>q\<close> stays in the queue: the tasks do not overlap, a running task is not also the next one, and the
  areas that are written are apart. A task that is switched to itself need not have a frame from an earlier switch.
\<close>

definition yield_room :: "'z sched_st_scheme \<Rightarrow> u64 \<Rightarrow> u64 \<Rightarrow> u64 \<Rightarrow> u64 \<Rightarrow> u64 list \<Rightarrow> bool" where
  "yield_room s cpu old t fr q \<longleftrightarrow>
     (if t = fr then \<not> goes_on s old \<and> apart (t # q) \<and>
        (\<forall>u\<in>set (t # q). separate u 40 cpu 24 \<and> separate u 40 (rsp s - 56) 56) \<and> separate cpu 24 (rsp s - 56) 56
      else apart (t # q @ [fr]) \<and> switch_clear s cpu t (t # q @ [fr]))"

text \<open>All of a yield: what it returns, the new queue and contexts, and the memory it leaves alone.\<close>

lemma yield_any:
  fixes ident :: u32 and s :: "'z sched_st_scheme"
  assumes "queue_ok s ts" and "\<forall>n. mmio_in s (lapic_base s + 0x20) n = v"
    and "ident = drop_bit 24 (ucast v)" and "cpu = cpu_locals s + 24 * ucast ident" and "old = cpu_current (mem s) cpu"
    and "t = (case ts of [] \<Rightarrow> cpu_idle (mem s) cpu | h # _ \<Rightarrow> h)" and "fr = (if old = 0 then cpu_idle (mem s) cpu else old)"
    and "ts = [] \<and> goes_on s old \<or> yield_room s cpu old t fr (tl ts)"
  obtains u where "scheduler_yield ret s = Ret () u"
    and "if ts = [] \<and> goes_on s old then u = s\<lparr>now := Suc (now s)\<rparr>
      else (if t = fr then resumed ret cpu t (ucast ident) s u
            else switched ret cpu fr t (ucast ident) s u \<and> task_state (mem u) fr = (if goes_on s old then TASK_READY else task_state (mem s) fr)) \<and>
        queue_ok u (tl ts @ (if goes_on s old then [old] else []))"
    and "switch_frame s u"
    and "\<And>x. x \<notin> region t 40 \<Longrightarrow> x \<notin> region fr 40 \<Longrightarrow> x \<notin> region cpu 8 \<Longrightarrow> x \<notin> region (rsp s - 56) 56 \<Longrightarrow>
      (\<forall>w\<in>set (tl ts). x \<notin> region (w + 32) 8) \<Longrightarrow> mem u x = mem s x"
proof -
  let ?s1 = "s\<lparr>now := Suc (now s)\<rparr>"
  have c: "cpu_local s = (cpu, ?s1)" using lapic_id_steady [OF assms(2)] assms(3,4) by (simp add: cpu_local_def)
  show thesis
  proof (cases "ts = [] \<and> goes_on s old")
    case True
    then have "scheduler_yield ret s = Ret () ?s1" using c assms(1,5) by (intro yield_empty) (auto simp: goes_on_def)
    then show thesis by (rule that) (use True in \<open>simp_all add: switch_frame_now\<close>)
  next
    case False
    have q1: "queue_ok ?s1 ts" using assms(1) by (simp add: queue_ok_def)
    obtain s2 where s2: "scheduler_dequeue ?s1 = Ret (case ts of [] \<Rightarrow> 0 | h # _ \<Rightarrow> h) s2" "queue_ok s2 (tl ts)"
      "s2 = ?s1\<lparr>mem := mem s2, rq_head := rq_head s2, rq_tail := rq_tail s2, rq_count := rq_count s2\<rparr>"
      "\<forall>x. (ts \<noteq> [] \<longrightarrow> x \<notin> region (hd ts + 32) 8) \<longrightarrow> mem s2 x = mem ?s1 x"
      by (rule dequeue_ok [OF q1])
    have e2: "s2 = s\<lparr>now := now s2, mem := mem s2, rq_head := rq_head s2, rq_tail := rq_tail s2, rq_count := rq_count s2\<rparr>"
      by (subst s2(3)) (simp, subst s2(3), simp)
    have m2: "\<forall>x. x \<notin> region (t + 32) 8 \<longrightarrow> mem s2 x = mem s x" using s2(4) assms(6) by (cases ts) auto
    have run: "scheduler_yield ret s = switch_to ret cpu old t s2"
    proof (cases ts)
      case Nil
      then have "mem s2 = mem s" using s2(4) by auto
      then show ?thesis using s2(1) c Nil False assms(5,6) by (auto simp: scheduler_yield_def goes_on_def running_def Let_def)
    next
      case (Cons a list)
      then have "a \<noteq> 0" using assms(1) by (auto simp: queue_ok_def apart_def)
      then show ?thesis using s2(1) c Cons assms(5,6) by (auto simp: scheduler_yield_def Let_def)
    qed
    have room: "yield_room s cpu old t fr (tl ts)" using assms(8) False by blast
    show thesis
    proof (cases "t = fr")
      case True
      then have r: "\<not> goes_on s old" "apart (t # tl ts)" "\<forall>u\<in>set (t # tl ts). separate u 40 cpu 24 \<and> separate u 40 (rsp s - 56) 56"
        "separate cpu 24 (rsp s - 56) 56" using room by (simp_all add: yield_room_def)
      obtain u where u: "switch_to ret cpu old t s2 = Ret () u" "resumed ret cpu t (ucast (drop_bit 24 (ucast v :: u32))) s u" "queue_ok u (tl ts)"
        "switch_frame s u" "\<And>x. x \<notin> region t 40 \<Longrightarrow> x \<notin> region cpu 8 \<Longrightarrow> x \<notin> region (rsp s - 56) 56 \<Longrightarrow> mem u x = mem s x"
        by (rule switch_to_self [OF s2(2) assms(7) [folded True] r assms(2) e2 m2, where ret = ret]) (rule that)
      show thesis by (rule that [OF run [unfolded u(1)] _ u(4)]) (use u(2,3,5) True r(1) False assms(3) in auto)
    next
      case neq: False
      then have r: "apart (t # tl ts @ [fr])" "switch_clear s cpu t (t # tl ts @ [fr])" using room by (simp_all add: yield_room_def)
      obtain u where u: "switch_to ret cpu old t s2 = Ret () u" "switched ret cpu fr t (ucast (drop_bit 24 (ucast v :: u32))) s u"
        "queue_ok u (tl ts @ (if goes_on s old then [old] else []))"
        "task_state (mem u) fr = (if goes_on s old then TASK_READY else task_state (mem s) fr)" "switch_frame s u"
        "\<And>x. x \<notin> region t 40 \<Longrightarrow> x \<notin> region fr 40 \<Longrightarrow> x \<notin> region cpu 8 \<Longrightarrow> x \<notin> region (rsp s - 56) 56 \<Longrightarrow>
          (\<forall>w\<in>set (tl ts). x \<notin> region (w + 32) 8) \<Longrightarrow> mem u x = mem s x"
        by (rule switch_to_ok [OF s2(2) assms(7) r assms(2) e2 m2, where ret = ret]) (rule that)
      show thesis by (rule that [OF run [unfolded u(1)] _ u(5)]) (use u(2-4,6) neq False assms(3) in auto)
    qed
  qed
qed

text \<open>The same for a processor that has a current task, with another one to turn to.\<close>

lemma yield_ok:
  fixes ident :: u32 and s :: "'z sched_st_scheme"
  assumes "queue_ok s ts" and "\<forall>n. mmio_in s (lapic_base s + 0x20) n = v"
    and "ident = drop_bit 24 (ucast v)" and "cpu = cpu_locals s + 24 * ucast ident" and "old = cpu_current (mem s) cpu"
    and "t = (case ts of [] \<Rightarrow> cpu_idle (mem s) cpu | h # _ \<Rightarrow> h)"
    and "apart (t # tl ts @ [old])" and "switch_clear s cpu t (t # tl ts @ [old])"
  obtains u where "scheduler_yield ret s = Ret () u"
    and "if ts = [] \<and> running s old then u = s\<lparr>now := Suc (now s)\<rparr>
      else switched ret cpu old t (ucast ident) s u \<and> queue_ok u (tl ts @ (if running s old then [old] else [])) \<and>
        task_state (mem u) old = (if running s old then TASK_READY else task_state (mem s) old)"
    and "switch_frame s u"
    and "\<And>x. x \<notin> region t 40 \<Longrightarrow> x \<notin> region old 40 \<Longrightarrow> x \<notin> region cpu 8 \<Longrightarrow> x \<notin> region (rsp s - 56) 56 \<Longrightarrow>
      (\<forall>w\<in>set (tl ts). x \<notin> region (w + 32) 8) \<Longrightarrow> mem u x = mem s x"
proof -
  have o: "old \<noteq> 0" "t \<noteq> old" using assms(7) by (auto simp: apart_def)
  then have g: "goes_on s old = running s old" "old = (if old = 0 then cpu_idle (mem s) cpu else old)" by (simp_all add: goes_on_def)
  have room: "ts = [] \<and> goes_on s old \<or> yield_room s cpu old t old (tl ts)" using assms(7,8) o(2) by (simp add: yield_room_def)
  show thesis
    by (rule yield_any [OF assms(1-6) g(2) room, where ret = ret]) (rule that, assumption, use o(2) g(1) in \<open>auto split: if_splits\<close>)
qed

section \<open>Properties\<close>

text \<open>
  C6. \<open>scheduler_yield\<close> returns or switches, whatever the processor was doing. With nothing in the queue a running task simply goes on.
  Otherwise the head of the queue, or the idle task of the processor when the queue is empty, becomes the current task of this
  processor and continues from its saved frame. The old task keeps its context on its stack and, if it was still running, goes to the
  end of the queue as ready; a task that was marked dead does not. A processor without a current task saves its context in its idle
  task. When the task to save is also the next one, as for an idle task with nothing to do, the call returns with the registers it
  had. The tasks involved must be at different places and apart from the stacks, and no task may be null (\<open>yield_room\<close>).
\<close>

theorem scheduler_yield_switches:
  fixes ident :: u32
  assumes "queue_ok s ts" and "\<forall>n. mmio_in s (lapic_base s + 0x20) n = v"
    and "ident = drop_bit 24 (ucast v)" and "cpu = cpu_locals s + 24 * ucast ident" and "old = cpu_current (mem s) cpu"
    and "t = (case ts of [] \<Rightarrow> cpu_idle (mem s) cpu | h # _ \<Rightarrow> h)" and "fr = (if old = 0 then cpu_idle (mem s) cpu else old)"
    and "ts = [] \<and> goes_on s old \<or> yield_room s cpu old t fr (tl ts)"
  shows "\<exists>u. scheduler_yield ret s = Ret () u \<and>
    (if ts = [] \<and> goes_on s old then u = s\<lparr>now := Suc (now s)\<rparr>
     else (if t = fr then resumed ret cpu t (ucast ident) s u
           else switched ret cpu fr t (ucast ident) s u \<and> task_state (mem u) fr = (if goes_on s old then TASK_READY else task_state (mem s) fr)) \<and>
       queue_ok u (tl ts @ (if goes_on s old then [old] else [])))"
  by (rule yield_any [OF assms]) blast

text \<open>
  Processor 1 runs the task at \<open>0x700000\<close>; the task at \<open>0x710000\<close> waits, with its frame at \<open>0x610000\<close>. In the other two machines the
  processor has no current task and its idle task is at \<open>0x720000\<close>; in the last one nothing waits.
\<close>

definition demo_yield :: sched_st where
  "demo_yield = demo_sched\<lparr>mem := (\<lambda>_. 0)(0x50001A := 0x70, 0x700010 := 1, 0x710002 := 0x61), rq_head := 0x710000, rq_tail := 0x710000, rq_count := 1\<rparr>"

definition demo_first :: sched_st where
  "demo_first = demo_sched\<lparr>mem := (\<lambda>_. 0)(0x500022 := 0x72, 0x710002 := 0x61), rq_head := 0x710000, rq_tail := 0x710000, rq_count := 1\<rparr>"

definition demo_alone :: sched_st where
  "demo_alone = demo_sched\<lparr>mem := (\<lambda>_. 0)(0x500022 := 0x72)\<rparr>"

lemma demo_yield_mem:
  "cpu_current (mem demo_yield) 0x500018 = 0x700000" "task_state (mem demo_yield) 0x700000 = TASK_RUNNING"
  "load64 (mem demo_yield) 0x710000 = 0x610000" "task_next (mem demo_yield) 0x710000 = 0"
  by (simp_all add: demo_yield_def cpu_current_def task_state_def task_next_def load64_bytes load32_bytes TASK_RUNNING_def)

lemma demo_first_mem:
  "cpu_current (mem demo_first) 0x500018 = 0" "cpu_idle (mem demo_first) 0x500018 = 0x720000"
  "load64 (mem demo_first) 0x710000 = 0x610000" "task_next (mem demo_first) 0x710000 = 0"
  "cpu_current (mem demo_alone) 0x500018 = 0" "cpu_idle (mem demo_alone) 0x500018 = 0x720000"
  by (simp_all add: demo_first_def demo_alone_def cpu_current_def cpu_idle_def task_next_def load64_bytes)

theorem scheduler_yield_switches_witness:
  "(\<exists>u. scheduler_yield 0x1234 demo_yield = Ret () u \<and> switched 0x1234 0x500018 0x700000 0x710000 1 demo_yield u \<and>
     queue_ok u [0x700000] \<and> task_state (mem u) 0x700000 = TASK_READY) \<and>
   (\<exists>u. scheduler_yield 0x1234 demo_first = Ret () u \<and> switched 0x1234 0x500018 0x720000 0x710000 1 demo_first u \<and> queue_ok u []) \<and>
   (\<exists>u. scheduler_yield 0x1234 demo_alone = Ret () u \<and> resumed 0x1234 0x500018 0x720000 1 demo_alone u \<and> queue_ok u [])"
proof (intro conjI)
  have q: "queue_ok demo_yield [0x710000]" "queue_ok demo_first [0x710000]" "queue_ok demo_alone []"
    using demo_yield_mem demo_first_mem by (simp_all add: queue_ok_def demo_yield_def demo_first_def demo_alone_def)
  have e: "cpu_locals demo_yield + 24 * ucast (1 :: u32) = 0x500018" "cpu_locals demo_first + 24 * ucast (1 :: u32) = 0x500018"
    "cpu_locals demo_alone + 24 * ucast (1 :: u32) = 0x500018" by (simp_all add: demo_yield_def demo_first_def demo_alone_def)
  have v: "\<forall>n. mmio_in demo_yield (lapic_base demo_yield + 0x20) n = 0x1000000" "\<forall>n. mmio_in demo_first (lapic_base demo_first + 0x20) n = 0x1000000"
    "\<forall>n. mmio_in demo_alone (lapic_base demo_alone + 0x20) n = 0x1000000" by (simp_all add: demo_yield_def demo_first_def demo_alone_def)
  have g: "goes_on demo_yield 0x700000" "\<not> goes_on demo_first 0" "\<not> goes_on demo_alone 0"
    using demo_yield_mem(2) by (simp_all add: goes_on_def running_def)
  have c: "yield_room demo_yield 0x500018 0x700000 0x710000 0x700000 []" "yield_room demo_first 0x500018 0 0x710000 0x720000 []"
    by (simp_all add: yield_room_def switch_clear_def demo_yield_mem(3) demo_first_mem(3) separate_def apart_def Let_def)
      (simp_all add: demo_yield_def demo_first_def)
  have c3: "yield_room demo_alone 0x500018 0 0x720000 0x720000 []"
    using g(3) by (simp add: yield_room_def separate_def) (simp add: demo_alone_def)
  show "\<exists>u. scheduler_yield 0x1234 demo_yield = Ret () u \<and> switched 0x1234 0x500018 0x700000 0x710000 1 demo_yield u \<and>
     queue_ok u [0x700000] \<and> task_state (mem u) 0x700000 = TASK_READY"
    using scheduler_yield_switches [OF q(1) v(1), of 1 "0x500018" "0x700000" "0x710000" "0x700000" "0x1234"] c(1) demo_yield_mem(1) e(1) g(1) by auto
  show "\<exists>u. scheduler_yield 0x1234 demo_first = Ret () u \<and> switched 0x1234 0x500018 0x720000 0x710000 1 demo_first u \<and> queue_ok u []"
    using scheduler_yield_switches [OF q(2) v(2), of 1 "0x500018" 0 "0x710000" "0x720000" "0x1234"] c(2) demo_first_mem(1,2) e(2) g(2) by auto
  have "\<exists>u. scheduler_yield 0x1234 demo_alone = Ret () u \<and> (if [] = ([] :: u64 list) \<and> goes_on demo_alone 0 then u = demo_alone\<lparr>now := Suc (now demo_alone)\<rparr>
     else (if 0x720000 = (0x720000 :: u64) then resumed 0x1234 0x500018 0x720000 (ucast (1 :: u32)) demo_alone u
           else switched 0x1234 0x500018 0x720000 0x720000 (ucast (1 :: u32)) demo_alone u \<and>
             task_state (mem u) 0x720000 = (if goes_on demo_alone 0 then TASK_READY else task_state (mem demo_alone) 0x720000)) \<and>
       queue_ok u (tl [] @ (if goes_on demo_alone 0 then [0] else [])))"
    by (rule scheduler_yield_switches [OF q(3) v(3)]) (use c3 demo_first_mem(5,6) e(3) in simp_all)
  then show "\<exists>u. scheduler_yield 0x1234 demo_alone = Ret () u \<and> resumed 0x1234 0x500018 0x720000 1 demo_alone u \<and> queue_ok u []"
    using g(3) by simp
qed

end
