(* ===== verification/Sched_Machine.thy ===== *)
theory Sched_Machine
  imports Schedule Yield
begin

text \<open>
  Several processors that share memory and the run queue and call the operations of \<^verbatim>\<open>drivers/scheduler.c\<close> in any order. Each call is one
  step; between two calls a task computes on its own stack. The theory shows that this machine refines the schedules of \<open>Schedule\<close>.
\<close>

section \<open>Processors\<close>

text \<open>What a processor has for itself: its registers and what it reads from its devices, its own interrupt controller among them.\<close>

record processor =
  p_mmio :: "u64 \<Rightarrow> nat \<Rightarrow> u64"
  p_rsp :: u64
  p_rbp :: u64
  p_rbx :: u64
  p_r12 :: u64
  p_r13 :: u64
  p_r14 :: u64
  p_r15 :: u64
  p_rip :: u64

definition load_cpu :: "processor \<Rightarrow> sched_st \<Rightarrow> sched_st" where
  "load_cpu p s = s\<lparr>mmio_in := p_mmio p, rsp := p_rsp p, rbp := p_rbp p, rbx := p_rbx p, r12 := p_r12 p, r13 := p_r13 p,
     r14 := p_r14 p, r15 := p_r15 p, rip := p_rip p\<rparr>"

definition save_cpu :: "sched_st \<Rightarrow> processor \<Rightarrow> processor" where
  "save_cpu u p = p\<lparr>p_rsp := rsp u, p_rbp := rbp u, p_rbx := rbx u, p_r12 := r12 u, p_r13 := r13 u, p_r14 := r14 u, p_r15 := r15 u,
     p_rip := rip u\<rparr>"

type_synonym machine = "sched_st \<times> processor list"

text \<open>The entry of processor \<open>i\<close> in \<open>cpu_locals\<close>.\<close>

definition cpu_entry :: "sched_st \<Rightarrow> nat \<Rightarrow> u64" where
  "cpu_entry s i = cpu_locals s + 24 * of_nat i"

text \<open>
  A new task comes with the memory \<open>m\<close> that its creator has prepared, the work of a task with the memory and the registers it leaves.
\<close>

datatype machine_event = MYield nat u64 | MExit nat u64 | MPick nat u64 | MSubmit nat u64 memory | MWork nat processor memory

definition on_processor :: "nat \<Rightarrow> (sched_st \<Rightarrow> ('a, sched_st) outcome) \<Rightarrow> machine \<Rightarrow> machine option" where
  "on_processor i f = (\<lambda>(s, P). case f (load_cpu (P ! i) s) of Ret _ u \<Rightarrow> Some (u, P[i := save_cpu u (P ! i)]) | _ \<Rightarrow> None)"

fun machine_step :: "machine_event \<Rightarrow> machine \<Rightarrow> machine option" where
  "machine_step (MYield i ret) c = on_processor i (scheduler_yield ret) c"
| "machine_step (MExit i ret) c = on_processor i (task_exit ret) c"
| "machine_step (MPick i ret) c = on_processor i (worker_step ret (cpu_entry (fst c) i)) c"
| "machine_step (MSubmit i t m) (s, P) = on_processor i (scheduler_enqueue t) (s\<lparr>mem := m\<rparr>, P)"
| "machine_step (MWork i p m) (s, P) = Some (s\<lparr>mem := m\<rparr>, P[i := p])"

section \<open>Contexts and places\<close>

definition context_of :: "processor \<Rightarrow> sched_context" where
  "context_of p = (p_rsp p, [p_r15 p, p_r14 p, p_r13 p, p_r12 p, p_rbx p, p_rbp p, p_rip p])"

definition saved_context :: "memory \<Rightarrow> u64 \<Rightarrow> sched_context" where
  "saved_context m t = (load64 m t + 56, saved_frame m (load64 m t))"

definition cpu_entries :: "sched_st \<Rightarrow> nat \<Rightarrow> u64 set" where
  "cpu_entries s n = (\<Union>i<n. region (cpu_entry s i) 24)"

text \<open>
  \<open>T\<close> are the tasks there can be and \<open>A t\<close> is the stack of \<open>t\<close>: none of them overlap, nor do they overlap the entries of the
  processors or the memory of the log.
\<close>

definition placed :: "u64 set \<Rightarrow> (u64 \<Rightarrow> u64 set) \<Rightarrow> sched_st \<Rightarrow> nat \<Rightarrow> bool" where
  "placed T A s n \<longleftrightarrow> n \<le> 16 \<and> 0 \<notin> T \<and>
     (\<forall>t\<in>T. \<forall>u\<in>T. A t \<inter> region u 40 = {} \<and> (t \<noteq> u \<longrightarrow> region t 40 \<inter> region u 40 = {} \<and> A t \<inter> A u = {})) \<and>
     (\<forall>t\<in>T. (region t 40 \<union> A t) \<inter> (cpu_entries s n \<union> log_dirty s) = {}) \<and> cpu_entries s n \<inter> log_dirty s = {}"

lemma placedD:
  assumes "placed T A s n"
  shows "n \<le> 16" "0 \<notin> T" "\<And>t u. t \<in> T \<Longrightarrow> u \<in> T \<Longrightarrow> A t \<inter> region u 40 = {}"
    "\<And>t u. t \<in> T \<Longrightarrow> u \<in> T \<Longrightarrow> t \<noteq> u \<Longrightarrow> region t 40 \<inter> region u 40 = {}"
    "\<And>t u. t \<in> T \<Longrightarrow> u \<in> T \<Longrightarrow> t \<noteq> u \<Longrightarrow> A t \<inter> A u = {}"
    "\<And>t i. t \<in> T \<Longrightarrow> i < n \<Longrightarrow> (region t 40 \<union> A t) \<inter> region (cpu_entry s i) 24 = {}"
    "\<And>t. t \<in> T \<Longrightarrow> (region t 40 \<union> A t) \<inter> log_dirty s = {}"
    "\<And>i. i < n \<Longrightarrow> region (cpu_entry s i) 24 \<inter> log_dirty s = {}"
proof -
  have e: "region (cpu_entry s i) 24 \<subseteq> cpu_entries s n" if "i < n" for i using that by (auto simp: cpu_entries_def)
  note p = assms [unfolded placed_def]
  show "(region t 40 \<union> A t) \<inter> region (cpu_entry s i) 24 = {}" if "t \<in> T" "i < n" for t i
  proof -
    have "(region t 40 \<union> A t) \<inter> (cpu_entries s n \<union> log_dirty s) = {}" using p that(1) by blast
    then show ?thesis using e [OF that(2)] by blast
  qed
  show "region (cpu_entry s i) 24 \<inter> log_dirty s = {}" if "i < n" for i using p e [OF that] by blast
  show "(region t 40 \<union> A t) \<inter> log_dirty s = {}" if "t \<in> T" for t using p that by blast
qed (use assms in \<open>simp_all add: placed_def\<close>)

lemma disjoint_separate:
  assumes "region a n \<inter> region b k = {}" and "0 < n" and "0 < k"
  shows "separate a n b k"
proof -
  have "a \<in> region a n" "b \<in> region b k" using assms(2,3) by (simp_all add: region_iff)
  then show ?thesis using assms(1) by (auto simp: separate_def region_iff disjoint_iff not_less [symmetric])
qed

text \<open>Processor \<open>i\<close> as the schedule \<open>a\<close> has it, and a task that waits with the context that \<open>a\<close> says.\<close>

definition cpu_ok :: "(u64 \<Rightarrow> u64 set) \<Rightarrow> sched_st \<Rightarrow> processor \<Rightarrow> schedule \<Rightarrow> nat \<Rightarrow> bool" where
  "cpu_ok A s p a i \<longleftrightarrow> cpu_current (mem s) (cpu_entry s i) = on_cpu a ! i \<and> cpu_idle (mem s) (cpu_entry s i) = idle_of a ! i \<and>
     (\<forall>n. p_mmio p (lapic_base s + 0x20) n = push_bit 24 (of_nat i)) \<and> regs a ! i = context_of p \<and>
     region (p_rsp p - 56) 56 \<subseteq> A (on_cpu a ! i) \<and> (\<not> idles i a \<longrightarrow> running s (on_cpu a ! i))"

definition waits :: "(u64 \<Rightarrow> u64 set) \<Rightarrow> sched_st \<Rightarrow> schedule \<Rightarrow> u64 \<Rightarrow> bool" where
  "waits A s a t \<longleftrightarrow> saved a t = saved_context (mem s) t \<and> region (load64 (mem s) t) 56 \<subseteq> A t"

definition sched_rel :: "u64 set \<Rightarrow> (u64 \<Rightarrow> u64 set) \<Rightarrow> machine \<Rightarrow> schedule \<Rightarrow> bool" where
  "sched_rel T A = (\<lambda>(s, P) a. schedule_ok a \<and> length P = length (on_cpu a) \<and> set (ready a @ on_cpu a @ idle_of a) \<subseteq> T \<and>
     placed T A s (length P) \<and> log_ok s \<and> queue_ok s (ready a) \<and> (\<forall>t\<in>set (ready a). task_state (mem s) t = TASK_READY) \<and>
     (\<forall>i<length P. cpu_ok A s (P ! i) a i) \<and> (\<forall>t\<in>waiting a. waits A s a t))"

lemma sched_relD:
  assumes "sched_rel T A (s, P) a"
  shows "schedule_ok a" "length P = length (on_cpu a)" "set (ready a) \<subseteq> T" "set (on_cpu a) \<subseteq> T" "set (idle_of a) \<subseteq> T"
    "placed T A s (length (on_cpu a))" "log_ok s" "queue_ok s (ready a)" "\<And>t. t \<in> set (ready a) \<Longrightarrow> task_state (mem s) t = TASK_READY"
    "\<And>i. i < length (on_cpu a) \<Longrightarrow> cpu_ok A s (P ! i) a i" "\<And>t. t \<in> waiting a \<Longrightarrow> waits A s a t"
  using assms by (auto simp: sched_rel_def)

lemma load_cpu_sel [simp]:
  "mem (load_cpu p s) = mem s" "mmio_in (load_cpu p s) = p_mmio p" "rsp (load_cpu p s) = p_rsp p" "rbp (load_cpu p s) = p_rbp p"
  "rbx (load_cpu p s) = p_rbx p" "r12 (load_cpu p s) = p_r12 p" "r13 (load_cpu p s) = p_r13 p" "r14 (load_cpu p s) = p_r14 p"
  "r15 (load_cpu p s) = p_r15 p" "rip (load_cpu p s) = p_rip p" "cpu_locals (load_cpu p s) = cpu_locals s"
  "lapic_base (load_cpu p s) = lapic_base s" "log_ok (load_cpu p s) = log_ok s" "log_dirty (load_cpu p s) = log_dirty s"
  "queue_ok (load_cpu p s) q = queue_ok s q" "running (load_cpu p s) t = running s t"
  by (simp_all add: load_cpu_def log_ok_defs queue_ok_def running_def)

lemma save_cpu_sel [simp]: "p_mmio (save_cpu u p) = p_mmio p" "p_rsp (save_cpu u p) = rsp u"
  by (simp_all add: save_cpu_def)

lemma context_of_save: "context_of (save_cpu u p) = (rsp u, [r15 u, r14 u, r13 u, r12 u, rbx u, rbp u, rip u])"
  by (simp add: context_of_def save_cpu_def)

section \<open>A switch\<close>

text \<open>Fields and frames that a step leaves alone.\<close>

lemma task_fields_kept:
  assumes "\<And>x. x \<in> region t 40 \<Longrightarrow> x \<notin> region (t + 32) 8 \<Longrightarrow> m' x = m x"
  shows "load64 m' t = load64 m t" "task_state m' t = task_state m t"
proof -
  have h: "m' x = m x" if "x \<in> region t 32" for x
  proof (rule assms)
    show "x \<in> region t 40" using that by (simp add: region_iff)
    show "x \<notin> region (t + 32) 8" using separate_disjoint [OF _ that, of "t + 32" 8] entry_offsets [of 0 32 32 8 t] by simp
  qed
  show "load64 m' t = load64 m t" "task_state m' t = task_state m t"
    using load_part [of t 32 m' m, OF h, of 0 8] load_part [of t 32 m' m, OF h, of 16 4]
    by (simp_all add: load64_def task_state_def load32_def)
qed

lemma cpu_fields_kept:
  assumes "\<And>x. x \<in> region cpu 24 \<Longrightarrow> m' x = m x"
  shows "cpu_current m' cpu = cpu_current m cpu" "cpu_idle m' cpu = cpu_idle m cpu"
  using load_part [of cpu 24 m' m, OF assms, of 0 8] load_part [of cpu 24 m' m, OF assms, of 8 8]
  by (simp_all add: cpu_current_def cpu_idle_def load64_def)

lemma cpu_entries_apart:
  assumes "i \<noteq> j" and "i < 16" and "j < 16"
  shows "region (cpu_entry s i) 24 \<inter> region (cpu_entry s j) 24 = {}"
proof -
  have "separate (cpu_locals s + of_nat (24 * i)) 24 (cpu_locals s + of_nat (24 * j)) 24"
    using assms by (intro entry_offsets) auto
  then show ?thesis using separate_disjoint by (fastforce simp: cpu_entry_def)
qed

lemma waits_kept:
  assumes "waits A s a t" and "saved b t = saved a t"
    and "\<And>x. x \<in> region t 40 \<Longrightarrow> x \<notin> region (t + 32) 8 \<Longrightarrow> mem u x = mem s x" and "\<And>x. x \<in> A t \<Longrightarrow> mem u x = mem s x"
  shows "waits A u b t"
proof -
  have l: "load64 (mem u) t = load64 (mem s) t" by (rule task_fields_kept(1) [OF assms(3)])
  have "saved_frame (mem u) (load64 (mem s) t) = saved_frame (mem s) (load64 (mem s) t)"
    using assms(1,4) by (intro saved_frame_cong) (auto simp: waits_def)
  then show ?thesis using assms(1,2) l by (simp add: waits_def saved_context_def)
qed

text \<open>
  \<open>step_frame\<close>: a step of processor \<open>i\<close> that turns from \<open>o\<close> to \<open>t\<close> writes their fields, the links of tasks that wait, its own entry, the
  words it pushes and the memory of the log.
\<close>

definition step_frame :: "sched_st \<Rightarrow> processor \<Rightarrow> nat \<Rightarrow> u64 \<Rightarrow> u64 \<Rightarrow> u64 list \<Rightarrow> sched_st \<Rightarrow> bool" where
  "step_frame s p i old t ts u \<longleftrightarrow> cpu_locals u = cpu_locals s \<and> lapic_base u = lapic_base s \<and> log_ok u \<and> log_dirty u = log_dirty s \<and>
     (\<forall>x. x \<notin> log_dirty s \<longrightarrow> x \<notin> region t 40 \<longrightarrow> x \<notin> region old 40 \<longrightarrow> x \<notin> region (cpu_entry s i) 8 \<longrightarrow> x \<notin> region (p_rsp p - 56) 56 \<longrightarrow>
       (\<forall>w\<in>set ts. x \<notin> region (w + 32) 8) \<longrightarrow> mem u x = mem s x)"

text \<open>What such a step leaves alone: other tasks, other stacks, and the entries of the processors up to its own current task.\<close>

lemma step_frame_kept:
  assumes fr: "step_frame s p i old t ts u" and pl: "placed T A s n" and "i < n" and "t \<in> T" "old \<in> T" "set ts \<subseteq> T"
    and stk: "region (p_rsp p - 56) 56 \<subseteq> A old"
  shows "\<And>w x. w \<in> T \<Longrightarrow> w \<noteq> t \<Longrightarrow> w \<noteq> old \<Longrightarrow> x \<in> region w 40 \<Longrightarrow> x \<notin> region (w + 32) 8 \<Longrightarrow> mem u x = mem s x"
    and "\<And>w x. w \<in> T \<Longrightarrow> w \<noteq> old \<Longrightarrow> x \<in> A w \<Longrightarrow> mem u x = mem s x"
    and "\<And>j x. j < n \<Longrightarrow> x \<in> region (cpu_entry s j) 24 \<Longrightarrow> x \<notin> region (cpu_entry s i) 8 \<Longrightarrow> mem u x = mem s x"
proof -
  note d = placedD [OF pl]
  have keep: "mem u x = mem s x" if "x \<notin> log_dirty s" "x \<notin> region t 40" "x \<notin> region old 40" "x \<notin> region (cpu_entry s i) 8" "x \<notin> A old"
      "\<forall>w\<in>set ts. x \<notin> region (w + 32) 8" for x
    using fr that stk unfolding step_frame_def by blast
  have link: "x \<notin> region (w + 32) 8" if "x \<notin> region w 40" for x w using part_outside [OF that, of 32 8] by simp
  have ent: "x \<notin> region (cpu_entry s i) 8" if "x \<notin> region (cpu_entry s i) 24" for x using part_outside [OF that, of 0 8] by simp
  show "mem u x = mem s x" if w: "w \<in> T" "w \<noteq> t" "w \<noteq> old" and x: "x \<in> region w 40" "x \<notin> region (w + 32) 8" for w x
  proof (rule keep)
    show "\<forall>v\<in>set ts. x \<notin> region (v + 32) 8"
    proof
      fix v assume "v \<in> set ts"
      then have "v = w \<or> x \<notin> region v 40" using d(4) [of v w] assms(6) w(1) x(1) by blast
      then show "x \<notin> region (v + 32) 8" using x(2) link by blast
    qed
  qed (use d(3) [OF assms(5) w(1)] d(4) [OF w(1) assms(4) w(2)] d(4) [OF w(1) assms(5) w(3)] d(6) [OF w(1) assms(3)] d(7) [OF w(1)] x(1) ent in blast)+
  show "mem u x = mem s x" if w: "w \<in> T" "w \<noteq> old" and x: "x \<in> A w" for w x
  proof (rule keep)
    show "\<forall>v\<in>set ts. x \<notin> region (v + 32) 8" using d(3) [OF w(1)] assms(6) x link by blast
  qed (use d(3) [OF w(1) assms(4)] d(3) [OF w(1) assms(5)] d(5) [OF w(1) assms(5) w(2)] d(6) [OF w(1) assms(3)] d(7) [OF w(1)] x ent in blast)+
  show "mem u x = mem s x" if j: "j < n" and x: "x \<in> region (cpu_entry s j) 24" "x \<notin> region (cpu_entry s i) 8" for j x
  proof (rule keep)
    show "\<forall>v\<in>set ts. x \<notin> region (v + 32) 8" using d(6) [OF _ j] assms(6) x(1) link by blast
  qed (use d(6) [OF assms(4) j] d(6) [OF assms(5) j] d(8) [OF j] x in blast)+
qed

lemma resched_rel:
  assumes rel: "sched_rel T A (s, P) a" and i: "i < length P" and t: "t \<in> waiting a"
    and ok: "schedule_ok (resched i ret t q a)" and q: "set q \<subseteq> insert (on_cpu a ! i) (set (ready a))"
    and sw: "switched ret (cpu_entry s i) (on_cpu a ! i) t c (load_cpu (P ! i) s) u" and qu: "queue_ok u q"
    and st: "on_cpu a ! i \<in> set q \<Longrightarrow> task_state (mem u) (on_cpu a ! i) = TASK_READY"
    and fr: "step_frame s (P ! i) i (on_cpu a ! i) t (ready a) u"
  shows "sched_rel T A (u, P[i := save_cpu u (P ! i)]) (resched i ret t q a)"
proof -
  let ?o = "on_cpu a ! i" and ?b = "resched i ret t q a"
  note r = sched_relD [OF rel] and p = placedD [OF sched_relD(6) [OF rel]]
  have i': "i < length (on_cpu a)" "i < length (regs a)" using i r(2) schedule_okD(2) [OF r(1)] by simp_all
  have T: "t \<in> T" "?o \<in> T" using t r(3,4,5) i' by (auto simp: waiting_def)
  have nt: "t \<notin> set (on_cpu a)" using t schedule_okD(6) [OF r(1)] by (auto simp: waiting_def)
  then have to: "t \<noteq> ?o" using i' by auto
  note ci = r(10) [OF i'(1), unfolded cpu_ok_def]
  have stk: "region (p_rsp (P ! i) - 56) 56 \<subseteq> A ?o" using ci by simp
  note K = step_frame_kept [OF fr r(6) i'(1) T r(3) stk]
  have e: "cpu_entry u j = cpu_entry s j" "log_dirty u = log_dirty s" "lapic_base u = lapic_base s" "log_ok u" for j
    using fr by (simp_all add: step_frame_def cpu_entry_def)
  have pl: "placed T A u (length (P[i := save_cpu u (P ! i)]))"
    using r(2,6) e by (simp add: placed_def cpu_entries_def)
  note sws = sw [unfolded switched_def Let_def load_cpu_sel]
  have wt: "saved a t = saved_context (mem s) t" "region (load64 (mem s) t) 56 \<subseteq> A t" using r(11) [OF t] by (simp_all add: waits_def)
  have wo: "waits A u ?b ?o"
    using sws stk ci by (simp add: waits_def saved_context_def resume_at_def context_of_def)
  have wk: "waits A u ?b w" if "w \<in> waiting a" "w \<noteq> t" "w \<noteq> ?o" for w
  proof (rule waits_kept [OF r(11) [OF that(1)]])
    have "w \<in> T" using that(1) r(3,5) by (auto simp: waiting_def)
    then show "mem u x = mem s x" if "x \<in> region w 40" "x \<notin> region (w + 32) 8" for x using K(1) \<open>w \<noteq> t\<close> \<open>w \<noteq> ?o\<close> that by blast
    show "mem u x = mem s x" if "x \<in> A w" for x using K(2) \<open>w \<in> T\<close> \<open>w \<noteq> ?o\<close> that by blast
  qed (use that in simp)
  have nb: "w \<noteq> t" if "w \<in> waiting ?b" for w
    using that schedule_okD(6) [OF ok] i' by (auto simp: waiting_def set_update_memI)
  have so: "set ((on_cpu a)[i := t]) = insert t (set (on_cpu a) - {?o})"
    using schedule_okD(4) [OF r(1)] i' by (simp add: set_update_distinct)
  have "w = ?o \<or> w \<in> waiting a" if "w \<in> waiting ?b" for w
    using that q so by (auto simp: waiting_def)
  then have W: "\<forall>w\<in>waiting ?b. waits A u ?b w" using wo wk nb by metis
  have R: "task_state (mem u) w = TASK_READY" if "w \<in> set q" for w
  proof (cases "w = ?o")
    case False
    then have w: "w \<in> set (ready a)" "w \<noteq> t" using that q nb [of w] by (auto simp: waiting_def)
    then have "task_state (mem u) w = task_state (mem s) w" using False r(3) by (intro task_fields_kept(2) K(1) [of w]) auto
    then show ?thesis using r(9) w(1) by simp
  qed (use st that in simp)
  have C: "cpu_ok A u (P[i := save_cpu u (P ! i)] ! j) ?b j" if j: "j < length P" for j
  proof (cases "j = i")
    case True
    have "load64 (mem u) (cpu_entry s i + 8) = load64 (mem s) (cpu_entry s i + 8)"
    proof (rule load64_cong)
      fix x assume x: "x \<in> region (cpu_entry s i + 8) 8"
      have "x \<in> region (cpu_entry s i) 24" using x part_outside [of x "cpu_entry s i" 24 8 8] by auto
      moreover have "x \<notin> region (cpu_entry s i) 8"
        using separate_disjoint [OF _ x, of "cpu_entry s i" 8] entry_offsets [of 8 8 0 8 "cpu_entry s i"] by simp
      ultimately show "mem u x = mem s x" using K(3) [OF i'(1)] by blast
    qed
    then show ?thesis
      using True i i' sws ci wt e by (simp add: cpu_ok_def cpu_idle_def context_of_save saved_context_def running_def idles_def)
  next
    case False
    have j': "j < length (on_cpu a)" using j r(2) by simp
    have w: "on_cpu a ! j \<in> T" "on_cpu a ! j \<noteq> t" "on_cpu a ! j \<noteq> ?o"
      using j' r(4) nt i' False schedule_okD(4) [OF r(1)] by (auto simp: nth_eq_iff_index_eq)
    have "region (cpu_entry s j) 24 \<inter> region (cpu_entry s i) 24 = {}" using False i' j' p(1) by (intro cpu_entries_apart) auto
    then have "x \<notin> region (cpu_entry s i) 8" if "x \<in> region (cpu_entry s j) 24" for x
      using that part_outside [of x "cpu_entry s i" 24 0 8] by auto
    then have "mem u x = mem s x" if "x \<in> region (cpu_entry s j) 24" for x using K(3) [OF j'] that by blast
    note f = cpu_fields_kept [OF this]
    have "task_state (mem u) (on_cpu a ! j) = task_state (mem s) (on_cpu a ! j)" using w by (intro task_fields_kept(2) K(1) [of "on_cpu a ! j"]) auto
    then show ?thesis
      using r(10) [OF j'] False f e by (simp add: cpu_ok_def running_def idles_def)
  qed
  show ?thesis
    unfolding sched_rel_def prod.case
    using ok r(2-5) T pl e(4) qu R C W q so by (auto simp: subset_iff)
qed

section \<open>Yields and exits\<close>

lemma log_frame_regs:
  assumes "log_frame s t"
  shows "mmio_in t = mmio_in s" "r15 t = r15 s" "r14 t = r14 s" "r13 t = r13 s" "r12 t = r12 s" "rbx t = rbx s" "rbp t = rbp s" "rip t = rip s"
proof -
  have e: "t = s\<lparr>now := now t, events := events t, mem := mem t, cursor_x := cursor_x t, cursor_y := cursor_y t, fg_color := fg_color t,
    bg_color := bg_color t\<rparr>" using assms by (simp add: log_frame_def)
  show "mmio_in t = mmio_in s" "r15 t = r15 s" "r14 t = r14 s" "r13 t = r13 s" "r12 t = r12 s" "rbx t = rbx s" "rbp t = rbp s" "rip t = rip s"
    by (subst e, simp)+
qed

lemma switched_cong:
  assumes "switched ret cpu old t c s u" and "load64 (mem s') t = load64 (mem s) t"
    and "saved_frame (mem s') (load64 (mem s) t) = saved_frame (mem s) (load64 (mem s) t)"
    and "rsp s' = rsp s" "r15 s' = r15 s" "r14 s' = r14 s" "r13 s' = r13 s" "r12 s' = r12 s" "rbx s' = rbx s" "rbp s' = rbp s"
  shows "switched ret cpu old t c s' u"
  using assms by (simp add: switched_def Let_def)

text \<open>The id that the controller of processor \<open>i\<close> reports, and the entry it leads to.\<close>

lemma controller_id:
  assumes "i < 16"
  shows "drop_bit 24 (ucast (push_bit 24 (of_nat i) :: u64)) = (of_nat i :: u32)"
    and "cpu_entry s i = cpu_locals s + 24 * ucast (of_nat i :: u32)"
proof -
  have i: "i \<in> set [0..<16]" using assms by simp
  have "\<forall>i\<in>set [0..<16]. ucast (of_nat i :: u32) = (of_nat i :: u64) \<and> drop_bit 24 (ucast (push_bit 24 (of_nat i) :: u64)) = (of_nat i :: u32)"
    by (simp add: upt_rec del: set_upt)
  then have e: "ucast (of_nat i :: u32) = (of_nat i :: u64)" "drop_bit 24 (ucast (push_bit 24 (of_nat i) :: u64)) = (of_nat i :: u32)"
    using i by blast+
  show "drop_bit 24 (ucast (push_bit 24 (of_nat i) :: u64)) = (of_nat i :: u32)" by (rule e(2))
  show "cpu_entry s i = cpu_locals s + 24 * ucast (of_nat i :: u32)" by (simp add: cpu_entry_def e(1))
qed

text \<open>
  \<open>called_on\<close>: processor \<open>i\<close> is inside a call that has so far written at most messages and the state of its current task \<open>old\<close>.
\<close>

definition called_on :: "sched_st \<Rightarrow> processor \<Rightarrow> u64 \<Rightarrow> sched_st \<Rightarrow> bool" where
  "called_on s p old w \<longleftrightarrow> log_frame (load_cpu p s) w \<and> log_ok w \<and> log_dirty w = log_dirty s \<and>
     (\<forall>x. x \<notin> log_dirty s \<longrightarrow> x \<notin> region (old + 16) 4 \<longrightarrow> mem w x = mem s x)"

lemma called_on_sel:
  assumes "called_on s p old w"
  shows "mmio_in w = p_mmio p" "lapic_base w = lapic_base s" "cpu_locals w = cpu_locals s" "rsp w = p_rsp p" "r15 w = p_r15 p"
    "r14 w = p_r14 p" "r13 w = p_r13 p" "r12 w = p_r12 p" "rbx w = p_rbx p" "rbp w = p_rbp p" "rq_lock w = rq_lock s"
    "rq_head w = rq_head s" "rq_tail w = rq_tail s" "rq_count w = rq_count s"
proof -
  have l: "log_frame (load_cpu p s) w" using assms by (simp add: called_on_def)
  have q: "rq_lock (load_cpu p s) = rq_lock s" "rq_head (load_cpu p s) = rq_head s" "rq_tail (load_cpu p s) = rq_tail s"
    "rq_count (load_cpu p s) = rq_count s" by (simp_all add: load_cpu_def)
  note f = log_frame_sched [OF l] log_frame_regs [OF l]
  show "mmio_in w = p_mmio p" "lapic_base w = lapic_base s" "cpu_locals w = cpu_locals s" "rsp w = p_rsp p" "r15 w = p_r15 p"
    "r14 w = p_r14 p" "r13 w = p_r13 p" "r12 w = p_r12 p" "rbx w = p_rbx p" "rbp w = p_rbp p" "rq_lock w = rq_lock s"
    "rq_head w = rq_head s" "rq_tail w = rq_tail s" "rq_count w = rq_count s"
    using f q by simp_all
qed

text \<open>In such a call everything but the state of the current task is as the schedule says.\<close>

lemma called_on_kept:
  assumes rel: "sched_rel T A (s, P) a" and i: "i < length P" and c: "called_on s (P ! i) (on_cpu a ! i) w"
  shows "\<And>x t. t \<in> T \<Longrightarrow> t \<noteq> on_cpu a ! i \<Longrightarrow> x \<in> region t 40 \<Longrightarrow> mem w x = mem s x"
    and "\<And>x t. t \<in> T \<Longrightarrow> x \<in> A t \<Longrightarrow> mem w x = mem s x"
    and "\<And>x j. j < length P \<Longrightarrow> x \<in> region (cpu_entry s j) 24 \<Longrightarrow> mem w x = mem s x"
    and "queue_ok w (ready a)"
proof -
  let ?o = "on_cpu a ! i"
  note r = sched_relD [OF rel] and d = placedD [OF sched_relD(6) [OF rel]]
  have o: "?o \<in> T" using r(2,4) i by auto
  have keep: "mem w x = mem s x" if "x \<notin> log_dirty s" "x \<notin> region ?o 40" for x
    using c that part_outside [of x ?o 40 16 4] by (simp add: called_on_def)
  show t: "mem w x = mem s x" if "t \<in> T" "t \<noteq> ?o" "x \<in> region t 40" for x t
    using keep d(4) [OF that(1) o that(2)] d(7) [OF that(1)] that(3) by blast
  show "mem w x = mem s x" if "t \<in> T" "x \<in> A t" for x t
    using keep d(3) [OF that(1) o] d(7) [OF that(1)] that(2) by blast
  show "mem w x = mem s x" if "j < length P" "x \<in> region (cpu_entry s j) 24" for x j
    using keep [of x] d(6) [OF o, of j] d(8) [of j] r(2) that by auto
  show "queue_ok w (ready a)"
  proof (rule queue_ok_cong [OF r(8)])
    fix t assume t': "t \<in> set (ready a)"
    then have "t \<in> T" "t \<noteq> ?o" using r(2,3) i schedule_okD(6) [OF r(1)] by (auto simp: disjoint_iff)
    then show "task_next (mem w) t = task_next (mem s) t" using t by (intro task_fields_cong(1)) blast
  qed (use called_on_sel [OF c] in simp_all)
qed

lemma placed_apart:
  assumes "placed T A s n" and "set ts \<subseteq> T" and "distinct ts"
  shows "apart ts"
  unfolding apart_def
proof (intro conjI ballI impI)
  note d = placedD [OF assms(1)]
  show "t \<noteq> 0" if "t \<in> set ts" for t using that assms(2) d(2) by blast
  show "separate t 40 v 40" if "t \<in> set ts" "v \<in> set ts" "t \<noteq> v" for t v
    using that assms(2) by (intro disjoint_separate d(4)) auto
qed (rule assms(3))

lemma placed_clear:
  assumes "placed T A s n" and "i < n" and "set ts \<subseteq> T" and "t \<in> T" "old \<in> T" "t \<noteq> old"
    and f: "region (rsp w - 56) 56 \<subseteq> A old" and g: "region (load64 (mem w) t) 56 \<subseteq> A t"
  shows "switch_clear w (cpu_entry s i) t ts"
proof -
  note d = placedD [OF assms(1)]
  have sep: "separate b k f 56" if "region f 56 \<subseteq> A v" "A v \<inter> region b k = {}" "0 < k" for b k f v
    using that by (intro disjoint_separate) auto
  have "separate v 40 (cpu_entry s i) 24 \<and> separate v 40 (rsp w - 56) 56 \<and> separate v 40 (load64 (mem w) t) 56" if "v \<in> set ts" for v
  proof (intro conjI)
    have v: "v \<in> T" using that assms(3) by blast
    show "separate v 40 (cpu_entry s i) 24" using d(6) [OF v assms(2)] by (intro disjoint_separate) auto
    show "separate v 40 (rsp w - 56) 56" by (rule sep [OF f d(3) [OF assms(5) v]]) simp
    show "separate v 40 (load64 (mem w) t) 56" by (rule sep [OF g d(3) [OF assms(4) v]]) simp
  qed
  moreover have "separate (cpu_entry s i) 24 (rsp w - 56) 56"
    using d(6) [OF assms(5,2)] by (intro sep [OF f]) auto
  moreover have "separate (cpu_entry s i) 24 (load64 (mem w) t) 56"
    using d(6) [OF assms(4,2)] by (intro sep [OF g]) auto
  moreover have "separate (rsp w - 56) 56 (load64 (mem w) t) 56"
    using f d(5) [OF assms(4,5,6)] by (intro sep [OF g]) auto
  ultimately show ?thesis by (simp add: switch_clear_def Let_def)
qed

lemma yield_from:
  assumes rel: "sched_rel T A (s, P) a" and i: "i < length P" and ni: "\<not> idles i a" and c: "called_on s (P ! i) (on_cpu a ! i) w"
    and t_def: "t = (case ready a of [] \<Rightarrow> idle_of a ! i | h # _ \<Rightarrow> h)" and ne: "ready a \<noteq> [] \<or> \<not> running w (on_cpu a ! i)"
    and q_def: "q = tl (ready a) @ (if running w (on_cpu a ! i) then [on_cpu a ! i] else [])"
  shows "\<exists>u. scheduler_yield ret w = Ret () u \<and> sched_rel T A (u, P[i := save_cpu u (P ! i)]) (resched i ret t q a)"
proof -
  let ?o = "on_cpu a ! i" and ?cpu = "cpu_entry s i"
  note r = sched_relD [OF rel] and K = called_on_kept [OF rel i c] and sel = called_on_sel [OF c]
  have i': "i < length (on_cpu a)" and i16: "i < 16" using i r(2) placedD(1) [OF r(6)] by simp_all
  note ci = r(10) [OF i', unfolded cpu_ok_def]
  have tw: "t \<in> waiting a" and tr: "t \<in> set (ready a) \<or> t = idle_of a ! i"
    using t_def idle_waits [OF r(1) i' ni] by (auto simp: waiting_def split: list.splits)
  have T: "t \<in> T" "?o \<in> T" "set (ready a) \<subseteq> T" using tw r(3,4,5) i' by (auto simp: waiting_def)
  have o: "?o \<in> set (on_cpu a)" using i' by simp
  then have to: "t \<noteq> ?o" "?o \<notin> set (ready a)" using tw schedule_okD(6) [OF r(1)] by (auto simp: waiting_def)
  have ri: "idle_of a ! i \<in> set (idle_of a)" using i' schedule_okD(1) [OF r(1)] by simp
  have nt: "t \<notin> set (tl (ready a))" "distinct (tl (ready a))" "set (tl (ready a)) \<subseteq> set (ready a)"
    using t_def to(1) schedule_okD(3,7) [OF r(1)] i' ri by (cases "ready a"; auto)+
  have ts: "set (t # tl (ready a) @ [?o]) \<subseteq> T" "distinct (t # tl (ready a) @ [?o])" using T nt to by auto
  have mt: "load64 (mem w) t = load64 (mem s) t" using K(1) [OF T(1) to(1)] by (intro task_fields_cong(4)) blast
  have wt: "region (load64 (mem s) t) 56 \<subseteq> A t" using r(11) [OF tw] by (simp add: waits_def)
  have cl: "switch_clear w ?cpu t (t # tl (ready a) @ [?o])"
    using ci sel(4) mt wt by (intro placed_clear [OF r(6) i' ts(1) T(1,2) to(1)]) auto
  have mm: "\<forall>n. mmio_in w (lapic_base w + 0x20) n = push_bit 24 (of_nat i)" using ci sel(1,2) by simp
  have cpu: "?cpu = cpu_locals w + 24 * ucast (of_nat i :: u32)" using controller_id(2) [OF i16] sel(3) by simp
  have cf: "cpu_current (mem w) ?cpu = cpu_current (mem s) ?cpu" "cpu_idle (mem w) ?cpu = cpu_idle (mem s) ?cpu"
    by (rule cpu_fields_kept, rule K(3) [OF i], assumption)+
  have o': "?o = cpu_current (mem w) ?cpu" and t': "t = (case ready a of [] \<Rightarrow> cpu_idle (mem w) ?cpu | h # _ \<Rightarrow> h)"
    using ci cf t_def by (simp_all split: list.split)
  obtain u where u: "scheduler_yield ret w = Ret () u"
    "if ready a = [] \<and> running w ?o then u = w\<lparr>now := Suc (now w)\<rparr>
      else switched ret ?cpu ?o t (ucast (of_nat i :: u32)) w u \<and> queue_ok u (tl (ready a) @ (if running w ?o then [?o] else [])) \<and>
        task_state (mem u) ?o = (if running w ?o then TASK_READY else task_state (mem w) ?o)"
    "switch_frame w u"
    "\<And>x. x \<notin> region t 40 \<Longrightarrow> x \<notin> region ?o 40 \<Longrightarrow> x \<notin> region ?cpu 8 \<Longrightarrow> x \<notin> region (rsp w - 56) 56 \<Longrightarrow>
      (\<forall>v\<in>set (tl (ready a)). x \<notin> region (v + 32) 8) \<Longrightarrow> mem u x = mem w x"
    by (rule yield_ok [OF K(4) mm controller_id(1) [OF i16, symmetric] cpu o' t' placed_apart [OF r(6) ts] cl, where ret = ret]) (rule that)
  have sw: "switched ret ?cpu ?o t (ucast (of_nat i :: u32)) w u" "queue_ok u q" "?o \<in> set q \<Longrightarrow> task_state (mem u) ?o = TASK_READY"
    using u(2) ne q_def to(2) nt(3) by (auto split: if_splits)
  have fr: "step_frame s (P ! i) i ?o t (ready a) u"
    unfolding step_frame_def
  proof (intro conjI allI impI)
    note f = switch_frame_sel [OF u(3)]
    show "cpu_locals u = cpu_locals s" "lapic_base u = lapic_base s" "log_ok u" "log_dirty u = log_dirty s"
      using f sel(2,3) c by (simp_all add: called_on_def)
    fix x assume x: "x \<notin> log_dirty s" "x \<notin> region t 40" "x \<notin> region ?o 40" "x \<notin> region ?cpu 8" "x \<notin> region (p_rsp (P ! i) - 56) 56"
      "\<forall>v\<in>set (ready a). x \<notin> region (v + 32) 8"
    then have "mem u x = mem w x" using sel(4) nt(3) by (intro u(4)) auto
    also have "mem w x = mem s x" using c x(1) part_outside [OF x(3), of 16 4] by (simp add: called_on_def)
    finally show "mem u x = mem s x" .
  qed
  have "saved_frame (mem w) (load64 (mem s) t) = saved_frame (mem s) (load64 (mem s) t)"
    using K(2) [OF T(1)] wt by (intro saved_frame_cong) blast
  then have sw': "switched ret ?cpu ?o t (ucast (of_nat i :: u32)) (load_cpu (P ! i) s) u"
    using sel mt by (intro switched_cong [OF sw(1)]) simp_all
  have qs: "set q \<subseteq> insert ?o (set (ready a))" "t \<notin> set q" "distinct q" using q_def nt to by auto
  have ok: "schedule_ok (resched i ret t q a)"
    using ni by (intro resched_ok [OF r(1) i' tr to(1) qs]) auto
  from resched_rel [OF rel i tw ok qs(1) sw' sw(2,3) fr] u(1) show ?thesis by blast
qed

lemma log_now [simp]: "log_ok (s\<lparr>now := n\<rparr>) = log_ok s" "log_dirty (s\<lparr>now := n\<rparr>) = log_dirty s"
  by (simp_all add: log_ok_defs)

lemma sched_rel_now: "sched_rel T A (load_cpu p s\<lparr>now := n\<rparr>, P) a = sched_rel T A (s, P) a"
proof -
  have e: "cpu_entry (load_cpu p s\<lparr>now := n\<rparr>) i = cpu_entry s i" for i by (simp add: cpu_entry_def)
  have l: "log_ok (load_cpu p s\<lparr>now := n\<rparr>) = log_ok s" "log_dirty (load_cpu p s\<lparr>now := n\<rparr>) = log_dirty s"
    by (simp_all add: load_cpu_def log_ok_defs)
  have q: "queue_ok (load_cpu p s\<lparr>now := n\<rparr>) ts = queue_ok s ts" for ts by (simp add: load_cpu_def queue_ok_def)
  show ?thesis
    by (simp add: sched_rel_def placed_def cpu_entries_def cpu_ok_def waits_def running_def e l q)
qed

lemma save_load [simp]: "save_cpu (load_cpu p s\<lparr>now := n\<rparr>) p = p"
  by (simp add: save_cpu_def load_cpu_def)

lemma log_frame_now: "log_frame s (s\<lparr>now := n\<rparr>)"
  by (simp add: log_frame_def)

text \<open>Each operation of the schedule, done by the code.\<close>

lemma yield_refines:
  assumes rel: "sched_rel T A (s, P) a" and i: "i < length P" and ni: "\<not> idles i a"
  shows "\<exists>u. scheduler_yield ret (load_cpu (P ! i) s) = Ret () u \<and> sched_rel T A (u, P[i := save_cpu u (P ! i)])
    (case ready a of [] \<Rightarrow> a | t # q \<Rightarrow> resched i ret t (q @ [on_cpu a ! i]) a)"
proof -
  let ?w = "load_cpu (P ! i) s"
  note r = sched_relD [OF rel]
  have i': "i < length (on_cpu a)" "i < 16" using i r(2) placedD(1) [OF r(6)] by simp_all
  note ci = r(10) [OF i'(1), unfolded cpu_ok_def]
  have run: "running ?w (on_cpu a ! i)" using ci ni by simp
  show ?thesis
  proof (cases "ready a")
    case Nil
    have "\<forall>n. mmio_in ?w (lapic_base ?w + 0x20) n = push_bit 24 (of_nat i)" using ci by simp
    from lapic_id_steady [OF this] have c: "cpu_local ?w = (cpu_entry s i, ?w\<lparr>now := Suc (now ?w)\<rparr>)"
      using controller_id [OF i'(2)] by (simp add: cpu_local_def)
    have "on_cpu a ! i \<noteq> 0" using r(4) i'(1) placedD(2) [OF r(6)] nth_mem by (metis subsetD)
    then have "scheduler_yield ret ?w = Ret () (?w\<lparr>now := Suc (now ?w)\<rparr>)"
      using r(8) Nil run ci by (intro yield_empty [OF c]) simp_all
    then show ?thesis using rel Nil by (simp add: sched_rel_now)
  next
    case (Cons t q)
    have "called_on s (P ! i) (on_cpu a ! i) ?w" using r(7) by (simp add: called_on_def log_frame_def)
    from yield_from [OF rel i ni this refl _ refl] show ?thesis using Cons run by simp
  qed
qed

lemma worker_formats:
  "plain_format ''Task %d exited on cpu %d'' [VWord x, VWord y]" "plain_format ''CPU %d picked up task %d'' [VWord x, VWord y]"
  by (simp_all add: plain_format_def format_simps)

lemma exit_refines:
  assumes rel: "sched_rel T A (s, P) a" and i: "i < length P" and ni: "\<not> idles i a"
  shows "\<exists>u. task_exit ret (load_cpu (P ! i) s) = Ret () u \<and> sched_rel T A (u, P[i := save_cpu u (P ! i)])
    (case ready a of [] \<Rightarrow> resched i ret (idle_of a ! i) [] a | t # q \<Rightarrow> resched i ret t q a)"
proof -
  let ?l = "load_cpu (P ! i) s" and ?o = "on_cpu a ! i"
  let ?n = "?l\<lparr>now := Suc (Suc (now ?l))\<rparr>" and ?cpu = "cpu_entry s i"
  note r = sched_relD [OF rel]
  have i': "i < length (on_cpu a)" "i < 16" using i r(2) placedD(1) [OF r(6)] by simp_all
  note ci = r(10) [OF i'(1), unfolded cpu_ok_def]
  have steady: "\<forall>n. mmio_in ?l (lapic_base ?l + 0x20) n = push_bit 24 (of_nat i)"
    "\<forall>n. mmio_in (?l\<lparr>now := k\<rparr>) (lapic_base (?l\<lparr>now := k\<rparr>) + 0x20) n = push_bit 24 (of_nat i)" for k
    using ci by simp_all
  have c: "cpu_local ?l = (?cpu, ?l\<lparr>now := Suc (now ?l)\<rparr>)"
    using lapic_id_steady [OF steady(1)] controller_id [OF i'(2)] by (simp add: cpu_local_def)
  have id: "lapic_id (?l\<lparr>now := Suc (now ?l)\<rparr>) = (of_nat i, ?n)"
    using lapic_id_steady [OF steady(2)] controller_id(1) [OF i'(2)] by simp
  have l: "log_ok ?n" "log_dirty ?n = log_dirty s" using r(7) by simp_all
  obtain v str where v: "klog LOG_INFO ''Task %d exited on cpu %d'' [VWord (ucast (task_id (mem ?n) (cpu_current (mem ?n) ?cpu))), VWord (ucast (of_nat i :: u32))] ?n = Ret () v"
    "logged str ?n v" "log_ok v" by (rule klog_textE [OF l(1) worker_formats(1)])
  have mv: "mem v x = mem s x" if "x \<notin> log_dirty s" for x using logged_mem [OF v(2)] l(2) that by simp
  have cv: "cpu_current (mem v) ?cpu = ?o"
    using ci cpu_fields_kept(1) [of ?cpu "mem v" "mem s"] mv placedD(8) [OF r(6) i'(1)] by (auto simp: disjoint_iff)
  let ?w = "on_mem (set_state ?o TASK_DEAD) v"
  have e: "task_exit ret ?l = scheduler_yield ret ?w"
    unfolding task_exit_def c Let_def case_prod_conv id v(1) andthen_simps cv ..
  have "log_frame ?l ?w"
    using log_frame_trans [OF log_frame_trans [OF log_frame_now logged_frame [OF v(2)]] mem_frame_upd] by (simp add: on_mem_def)
  then have "called_on s (P ! i) ?o ?w"
    using v(3) logged_sel(9) [OF v(2)] l(2) mv
    by (simp add: called_on_def on_mem_def set_state_def store32_def store_def write_bytes_def region_iff)
  moreover have nr: "\<not> running ?w ?o" by (simp add: running_def TASK_DEAD_def TASK_RUNNING_def)
  ultimately have "\<exists>u. scheduler_yield ret ?w = Ret () u \<and> sched_rel T A (u, P[i := save_cpu u (P ! i)])
      (resched i ret (case ready a of [] \<Rightarrow> idle_of a ! i | h # _ \<Rightarrow> h) (tl (ready a)) a)"
    using yield_from [OF rel i ni _ refl _ refl, of ?w ret] by simp
  then show ?thesis unfolding e by (cases "ready a") simp_all
qed

lemma worker_dispatch:
  assumes rel: "sched_rel T A (s, P) a" and i: "i < length P" and idle: "idles i a" and rd: "ready a = t # q"
    and s2: "queue_ok s2 q" "s2 = load_cpu (P ! i) s\<lparr>mem := mem s2, rq_head := rq_head s2, rq_tail := rq_tail s2, rq_count := rq_count s2\<rparr>"
      "\<And>x. x \<notin> region (t + 32) 8 \<Longrightarrow> mem s2 x = mem s x"
    and v: "log_frame s2 v" "log_ok v" "log_dirty v = log_dirty s2" "\<And>x. x \<notin> log_dirty s2 \<Longrightarrow> mem v x = mem s2 x"
    and u: "u = scheduler_context_switch (on_cpu a ! i) t (push ret (v\<lparr>mem := dispatched (cpu_entry s i) t c (mem v)\<rparr>))"
  shows "sched_rel T A (u, P[i := save_cpu u (P ! i)]) (resched i ret t q a)"
proof -
  let ?o = "on_cpu a ! i" and ?cpu = "cpu_entry s i" and ?l = "load_cpu (P ! i) s"
  note r = sched_relD [OF rel] and d = placedD [OF sched_relD(6) [OF rel]]
  have i': "i < length (on_cpu a)" using i r(2) by simp
  note ci = r(10) [OF i', unfolded cpu_ok_def]
  have tw: "t \<in> waiting a" using rd by (simp add: waiting_def)
  have T: "t \<in> T" "?o \<in> T" "set q \<subseteq> T" using r(3,4) rd i' by auto
  have o: "?o \<in> set (on_cpu a)" using i' by simp
  then have to: "t \<noteq> ?o" "?o \<notin> set q" "t \<notin> set q" "distinct q" using schedule_okD(3,6) [OF r(1)] rd by auto
  have s2f: "cpu_locals s2 = cpu_locals s" "lapic_base s2 = lapic_base s" "rsp s2 = p_rsp (P ! i)" "r15 s2 = p_r15 (P ! i)" "r14 s2 = p_r14 (P ! i)"
    "r13 s2 = p_r13 (P ! i)" "r12 s2 = p_r12 (P ! i)" "rbx s2 = p_rbx (P ! i)" "rbp s2 = p_rbp (P ! i)" "log_dirty s2 = log_dirty s"
    by (subst s2(2), simp add: load_cpu_def log_ok_defs)+
  note vf = log_frame_sched [OF v(1)] log_frame_regs [OF v(1)]
  have mv: "mem v x = mem s x" if "x \<notin> log_dirty s" "x \<notin> region (t + 32) 8" for x using v(4) s2(3) s2f(10) that by simp
  have link: "x \<notin> region (t + 32) 8" if "x \<notin> region t 40" for x using part_outside [OF that, of 32 8] by simp
  have lt: "load64 (mem v) t = load64 (mem s) t"
    using mv d(7) [OF T(1)] by (intro task_fields_kept(1)) blast
  have wt: "region (load64 (mem s) t) 56 \<subseteq> A t" using r(11) [OF tw] by (simp add: waits_def)
  have ft: "saved_frame (mem v) (load64 (mem s) t) = saved_frame (mem s) (load64 (mem s) t)"
  proof (intro saved_frame_cong mv link)
    fix x assume "x \<in> region (load64 (mem s) t) 56"
    then have "x \<in> A t" using wt by blast
    then show "x \<notin> log_dirty s" "x \<notin> region t 40" using d(3) [OF T(1,1)] d(7) [OF T(1)] by blast+
  qed
  have cl: "switch_clear v ?cpu t [t, ?o]"
    using ci lt wt vf s2f by (intro placed_clear [OF r(6) i' _ T(1,2) to(1)]) (use T in auto)
  have sep: "separate t 40 ?o 40" using d(4) [OF T(1,2) to(1)] by (intro disjoint_separate) auto
  note D = dispatch_switch [OF cl _ _ sep refl refl refl refl refl refl refl refl refl u, simplified]
  have rg: "rsp v = p_rsp (P ! i)" "r15 v = p_r15 (P ! i)" "r14 v = p_r14 (P ! i)" "r13 v = p_r13 (P ! i)" "r12 v = p_r12 (P ! i)"
    "rbx v = p_rbx (P ! i)" "rbp v = p_rbp (P ! i)" using vf s2f by simp_all
  have sw: "switched ret ?cpu ?o t c ?l u"
    using lt ft rg by (intro switched_cong [OF D(1)]) simp_all
  note f = switch_frame_sel [OF switch_frame_regs [OF D(3)]]
  have fr: "step_frame s (P ! i) i ?o t (ready a) u"
    unfolding step_frame_def
  proof (intro conjI allI impI)
    show "cpu_locals u = cpu_locals s" "lapic_base u = lapic_base s" "log_ok u" "log_dirty u = log_dirty s"
      using f vf s2f v(2,3) by simp_all
    fix x assume x: "x \<notin> log_dirty s" "x \<notin> region t 40" "x \<notin> region ?o 40" "x \<notin> region ?cpu 8" "x \<notin> region (p_rsp (P ! i) - 56) 56"
    then have "mem u x = mem v x" using D(2) [of x] rg(1) part_outside [OF x(3), of 0 8] by simp
    also have "mem v x = mem s x" by (rule mv [OF x(1) link [OF x(2)]])
    finally show "mem u x = mem s x" .
  qed
  have qu: "queue_ok u q"
  proof (rule queue_ok_cong [OF s2(1)])
    show "rq_lock u = rq_lock s2" "rq_head u = rq_head s2" "rq_tail u = rq_tail s2" "rq_count u = rq_count s2"
      unfolding vf(7-10) [symmetric] by (subst D(3), simp)+
    fix w assume w: "w \<in> set q"
    then have W: "w \<in> T" "w \<noteq> t" "w \<noteq> ?o" using T(3) to by auto
    show "task_next (mem u) w = task_next (mem s2) w"
    proof (rule task_fields_cong(1))
      fix x assume x: "x \<in> region w 40"
      have "x \<notin> region ?o 40" "x \<notin> region ?cpu 24" using d(4) [OF W(1) T(2) W(3)] d(6) [OF W(1) i'] x by blast+
      then have "x \<notin> region ?o 8" "x \<notin> region ?cpu 8" using part_outside [of x _ 40 0 8] part_outside [of x _ 24 0 8] by simp_all
      moreover have "x \<notin> region t 40" "x \<notin> log_dirty s2" using d(4) [OF W(1) T(1) W(2)] d(7) [OF W(1)] x s2f(10) by blast+
      moreover have "region (p_rsp (P ! i) - 56) 56 \<subseteq> A ?o" using ci by simp
      then have "x \<notin> region (p_rsp (P ! i) - 56) 56" using d(3) [OF T(2) W(1)] x by blast
      ultimately show "mem u x = mem s2 x" using D(2) [of x] v(4) rg(1) by simp
    qed
  qed
  have ok: "schedule_ok (resched i ret t q a)"
    by (rule resched_ok [OF r(1) i' _ to(1) _ to(3,4)]) (use rd to(2) in auto)
  have "set q \<subseteq> insert ?o (set (ready a))" using rd by auto
  from resched_rel [OF rel i tw ok this sw qu _ fr] to(2) show ?thesis by blast
qed

lemma worker_refines:
  assumes rel: "sched_rel T A (s, P) a" and i: "i < length P" and idle: "idles i a"
  shows "\<exists>b u. worker_step ret (cpu_entry s i) (load_cpu (P ! i) s) = Ret b u \<and> sched_rel T A (u, P[i := save_cpu u (P ! i)])
    (case ready a of [] \<Rightarrow> a | t # q \<Rightarrow> resched i ret t q a)"
proof -
  let ?l = "load_cpu (P ! i) s" and ?o = "on_cpu a ! i" and ?cpu = "cpu_entry s i" and ?id = "of_nat i :: u32"
  note r = sched_relD [OF rel]
  have i': "i < length (on_cpu a)" "i < 16" using i r(2) placedD(1) [OF r(6)] by simp_all
  note ci = r(10) [OF i'(1), unfolded cpu_ok_def]
  have q: "queue_ok ?l (ready a)" using r(8) by simp
  show ?thesis
  proof (cases "ready a")
    case Nil
    then have "worker_step ret ?cpu ?l = Ret False ?l" using q by (simp add: worker_step_def dequeue_empty)
    moreover have e: "?l\<lparr>now := now ?l\<rparr> = ?l" by simp
    have "sched_rel T A (?l, P) a" "save_cpu ?l (P ! i) = P ! i"
      using rel sched_rel_now [of T A "now ?l" "P ! i" s P a] save_load [where p = "P ! i" and s = s and n = "now ?l"] unfolding e by simp_all
    ultimately show ?thesis using Nil by auto
  next
    case (Cons t ts)
    obtain s2 where s2: "scheduler_dequeue ?l = Ret t s2" "queue_ok s2 ts"
      "s2 = ?l\<lparr>mem := mem s2, rq_head := rq_head s2, rq_tail := rq_tail s2, rq_count := rq_count s2\<rparr>"
      "\<forall>x. x \<notin> region (t + 32) 8 \<longrightarrow> mem s2 x = mem s x"
      by (rule dequeue_ok [OF q]) (use Cons in simp)
    have t0: "t \<noteq> 0" using Cons r(3) placedD(2) [OF r(6)] by auto
    have steady: "\<forall>n. mmio_in s2 (lapic_base s2 + 0x20) n = push_bit 24 (of_nat i)"
      using ci by (subst s2(3), subst s2(3)) (simp add: load_cpu_def)
    let ?n = "s2\<lparr>now := Suc (now s2)\<rparr>"
    have id2: "lapic_id s2 = (?id, ?n)" using lapic_id_steady [OF steady] controller_id(1) [OF i'(2)] by simp
    have ok2: "log_ok s2 = log_ok s" by (subst s2(3)) (simp add: load_cpu_def log_ok_defs)
    obtain v str where v: "klog LOG_INFO ''CPU %d picked up task %d'' [VWord (ucast ?id), VWord (ucast (task_id (mem ?n) t))] ?n = Ret () v"
      "logged str ?n v" "log_ok v" by (rule klog_textE [of ?n, OF _ worker_formats(2)]) (use ok2 r(7) in auto)
    have fv: "log_frame s2 v" by (rule log_frame_trans [OF log_frame_now logged_frame [OF v(2)]])
    let ?v = "v\<lparr>now := Suc (now v)\<rparr>"
    have steady_v: "\<forall>n. mmio_in v (lapic_base v + 0x20) n = push_bit 24 (of_nat i)"
      using steady log_frame_sched(12) [OF fv] log_frame_regs(1) [OF fv] by simp
    have idv: "lapic_id (on_mem f v) = (?id, on_mem f ?v)" for f
      using lapic_id_steady [of "on_mem f v" "push_bit 24 (of_nat i)"] steady_v controller_id(1) [OF i'(2)] by (simp add: on_mem_def)
    define u where "u = scheduler_context_switch ?o t (push ret (?v\<lparr>mem := dispatched ?cpu t (ucast ?id) (mem ?v)\<rparr>))"
    have tT: "t \<in> T" using r(3) Cons by simp
    have sep: "separate t 40 ?cpu 24" using placedD(6) [OF r(6) tT i'(1)] by (intro disjoint_separate) auto
    have ci2: "cpu_idle (dispatched ?cpu t (ucast ?id) (mem v)) ?cpu = ?o"
    proof -
      have "mem v x = mem s x" if "x \<in> region ?cpu 24" for x
      proof -
        have "x \<notin> region t 40" "x \<notin> log_dirty s" using that placedD(6) [OF r(6) tT i'(1)] placedD(8) [OF r(6) i'(1)] by blast+
        moreover have "log_dirty s2 = log_dirty s" by (subst s2(3)) (simp add: load_cpu_def log_ok_defs)
        ultimately show ?thesis using logged_mem [OF v(2)] s2(4) part_outside [of x t 40 32 8] by simp
      qed
      from cpu_fields_kept(2) [OF this] have "cpu_idle (mem v) ?cpu = ?o" using ci idle by (simp add: idles_def)
      moreover have "load64 (dispatched ?cpu t (ucast ?id) (mem v)) (?cpu + 8) = load64 (mem v) (?cpu + 8)"
      proof (intro load64_cong dispatched_fields(5) [OF sep])
        fix x assume x: "x \<in> region (?cpu + 8) 8"
        show "x \<notin> region ?cpu 8" using separate_disjoint [OF _ x, of ?cpu 8] entry_offsets [of 8 8 0 8 ?cpu] by simp
        have "x \<in> region ?cpu 24" using x part_outside [of x ?cpu 24 8 8] by auto
        then show "x \<notin> region t 40" using placedD(6) [OF r(6) tT i'(1)] by blast
      qed
      ultimately show ?thesis by (simp add: cpu_idle_def)
    qed
    have "worker_step ret ?cpu ?l = Ret True u"
      unfolding worker_step_def s2(1) andthen_simps using t0
      by (simp add: id2 v(1) [simplified] idv) (simp add: on_mem_def u_def ci2 [unfolded dispatched_def] dispatched_def)
    moreover have "sched_rel T A (u, P[i := save_cpu u (P ! i)]) (resched i ret t ts a)"
    proof (rule worker_dispatch [OF rel i idle Cons s2(2,3) _ _ _ _ _ u_def])
      show "mem s2 x = mem s x" if "x \<notin> region (t + 32) 8" for x using s2(4) that by simp
      show "log_frame s2 ?v" by (rule log_frame_trans [OF fv log_frame_now])
      show "log_ok ?v" using v(3) by simp
      show "log_dirty ?v = log_dirty s2" using logged_sel(9) [OF v(2)] by simp
      show "mem ?v x = mem s2 x" if "x \<notin> log_dirty s2" for x using logged_mem [OF v(2)] that by simp
    qed
    ultimately show ?thesis using Cons by auto
  qed
qed

section \<open>New tasks and work\<close>

text \<open>The memory the scheduler relies on: fields and stacks of tasks and the entries of the processors.\<close>

definition guarded :: "u64 set \<Rightarrow> (u64 \<Rightarrow> u64 set) \<Rightarrow> sched_st \<Rightarrow> nat \<Rightarrow> u64 set" where
  "guarded T A s n = (\<Union>t\<in>T. region t 40 \<union> A t) \<union> cpu_entries s n"

definition in_use :: "machine \<Rightarrow> u64 \<Rightarrow> bool" where
  "in_use = (\<lambda>(s, P) t. (\<exists>ts. queue_ok s ts \<and> t \<in> set ts) \<or>
     (\<exists>i<length P. t = cpu_current (mem s) (cpu_entry s i) \<or> t = cpu_idle (mem s) (cpu_entry s i)))"

text \<open>
  What may happen: only tasks yield and exit, only idle processors look for work, a new task is one that is not in use and brings a
  frame on its own stack, and a task that works keeps to its own stack and to memory that the scheduler does not use.
\<close>

fun allowed :: "u64 set \<Rightarrow> (u64 \<Rightarrow> u64 set) \<Rightarrow> machine_event \<Rightarrow> machine \<Rightarrow> bool" where
  "allowed T A (MYield i ret) (s, P) \<longleftrightarrow> i < length P \<and> cpu_current (mem s) (cpu_entry s i) \<noteq> cpu_idle (mem s) (cpu_entry s i)"
| "allowed T A (MExit i ret) (s, P) \<longleftrightarrow> i < length P \<and> cpu_current (mem s) (cpu_entry s i) \<noteq> cpu_idle (mem s) (cpu_entry s i)"
| "allowed T A (MPick i ret) (s, P) \<longleftrightarrow> i < length P \<and> cpu_current (mem s) (cpu_entry s i) = cpu_idle (mem s) (cpu_entry s i)"
| "allowed T A (MSubmit i t m) (s, P) \<longleftrightarrow> i < length P \<and> t \<in> T \<and> \<not> in_use (s, P) t \<and> region (load64 m t) 56 \<subseteq> A t \<and>
     (\<forall>x\<in>guarded T A s (length P). x \<notin> region t 40 \<longrightarrow> x \<notin> A t \<longrightarrow> m x = mem s x)"
| "allowed T A (MWork i p m) (s, P) \<longleftrightarrow> i < length P \<and> p_mmio p = p_mmio (P ! i) \<and>
     region (p_rsp p - 56) 56 \<subseteq> A (cpu_current (mem s) (cpu_entry s i)) \<and>
     (\<forall>x\<in>guarded T A s (length P). x \<notin> A (cpu_current (mem s) (cpu_entry s i)) \<longrightarrow> m x = mem s x)"

fun schedule_event :: "machine_event \<Rightarrow> sched_event" where
  "schedule_event (MYield i ret) = Yield i ret"
| "schedule_event (MExit i ret) = Exit i ret"
| "schedule_event (MPick i ret) = Pick i ret"
| "schedule_event (MSubmit i t m) = Submit i t (saved_context m t)"
| "schedule_event (MWork i p m) = Work i (context_of p)"

lemma guardedI:
  "t \<in> T \<Longrightarrow> x \<in> region t 40 \<Longrightarrow> x \<in> guarded T A s n" "t \<in> T \<Longrightarrow> x \<in> A t \<Longrightarrow> x \<in> guarded T A s n"
  "i < n \<Longrightarrow> x \<in> region (cpu_entry s i) 24 \<Longrightarrow> x \<in> guarded T A s n"
  by (auto simp: guarded_def cpu_entries_def)

text \<open>
  The relation survives a step that leaves the processors' entries alone and all tasks but one: \<open>t\<close>, whose context and state the
  premises give.
\<close>

lemma sched_rel_kept:
  assumes rel: "sched_rel T A (s, P) a" and ok: "schedule_ok b" and b: "on_cpu b = on_cpu a" "idle_of b = idle_of a"
    "set (ready b) \<subseteq> T" "set (ready b) \<subseteq> insert t (set (ready a))" "\<And>w. w \<noteq> t \<Longrightarrow> saved b w = saved a w" and P: "length P' = length P"
    and u: "cpu_locals u = cpu_locals s" "lapic_base u = lapic_base s" "log_ok u" "log_dirty u = log_dirty s" "queue_ok u (ready b)"
    and t: "t \<in> waiting b \<Longrightarrow> waits A u b t" "t \<in> set (ready b) \<Longrightarrow> task_state (mem u) t = TASK_READY"
      "t \<in> set (on_cpu a) \<Longrightarrow> task_state (mem u) t = task_state (mem s) t"
    and p: "\<And>i. i < length P \<Longrightarrow> p_mmio (P' ! i) = p_mmio (P ! i)" "\<And>i. i < length P \<Longrightarrow> regs b ! i = context_of (P' ! i)"
      "\<And>i. i < length P \<Longrightarrow> region (p_rsp (P' ! i) - 56) 56 \<subseteq> A (on_cpu a ! i)"
    and k: "\<And>w x. w \<in> T \<Longrightarrow> w \<noteq> t \<Longrightarrow> x \<in> region w 40 \<Longrightarrow> x \<notin> region (w + 32) 8 \<Longrightarrow> mem u x = mem s x"
      "\<And>w x. w \<in> T \<Longrightarrow> w \<noteq> t \<Longrightarrow> x \<in> A w \<Longrightarrow> mem u x = mem s x"
      "\<And>i x. i < length P \<Longrightarrow> x \<in> region (cpu_entry s i) 24 \<Longrightarrow> mem u x = mem s x"
  shows "sched_rel T A (u, P') b"
proof -
  note r = sched_relD [OF rel]
  have e: "cpu_entry u i = cpu_entry s i" for i using u(1) by (simp add: cpu_entry_def)
  have st: "task_state (mem u) w = task_state (mem s) w" if "w \<in> T" "w \<noteq> t" for w
    using k(1) [OF that] by (intro task_fields_kept(2)) blast
  have W: "waits A u b w" if w: "w \<in> waiting b" for w
  proof (cases "w = t")
    case False
    have a: "w \<in> waiting a" "w \<in> T" using w b(1,2,4) r(5) b(3) False by (auto simp: waiting_def)
    show ?thesis by (rule waits_kept [OF r(11) [OF a(1)] b(5) [OF False]]) (use k(1,2) [OF a(2) False] in blast)+
  qed (use t(1) w in simp)
  have R: "task_state (mem u) w = TASK_READY" if "w \<in> set (ready b)" for w
  proof (cases "w = t")
    case False
    then have "w \<in> T" "w \<in> set (ready a)" using that b(3,4) by auto
    then show ?thesis using st False r(9) by simp
  qed (use t(2) that in simp)
  have C: "cpu_ok A u (P' ! i) b i" if i: "i < length P" for i
  proof -
    have i': "i < length (on_cpu a)" using i r(2) by simp
    have f: "cpu_current (mem u) (cpu_entry s i) = cpu_current (mem s) (cpu_entry s i)" "cpu_idle (mem u) (cpu_entry s i) = cpu_idle (mem s) (cpu_entry s i)"
      by (rule cpu_fields_kept, rule k(3) [OF i], assumption)+
    have "on_cpu a ! i \<in> T" "on_cpu a ! i \<in> set (on_cpu a)" using r(4) i' by auto
    then have "task_state (mem u) (on_cpu a ! i) = task_state (mem s) (on_cpu a ! i)" using st t(3) by (cases "on_cpu a ! i = t") auto
    then show ?thesis using r(10) [OF i'] f p [OF i] by (simp add: cpu_ok_def e b u(2) running_def idles_def)
  qed
  have "placed T A u (length P')" using r(2,6) P by (simp add: placed_def cpu_entries_def e u(4))
  then show ?thesis
    unfolding sched_rel_def prod.case using ok r(2,4,5) b P u(3,5) W R C by simp
qed

lemma submit_refines:
  assumes rel: "sched_rel T A (s, P) a" and i: "i < length P" and t: "t \<in> T" "t \<notin> set (ready a @ on_cpu a @ idle_of a)"
    and f: "region (load64 m t) 56 \<subseteq> A t" and m: "\<And>x. x \<in> guarded T A s (length P) \<Longrightarrow> x \<notin> region t 40 \<Longrightarrow> x \<notin> A t \<Longrightarrow> m x = mem s x"
  shows "\<exists>u. scheduler_enqueue t (load_cpu (P ! i) (s\<lparr>mem := m\<rparr>)) = Ret () u \<and> sched_rel T A (u, P[i := save_cpu u (P ! i)])
    (a\<lparr>ready := ready a @ [t], saved := (saved a)(t := saved_context m t)\<rparr>)"
proof -
  let ?w = "load_cpu (P ! i) (s\<lparr>mem := m\<rparr>)" and ?b = "a\<lparr>ready := ready a @ [t], saved := (saved a)(t := saved_context m t)\<rparr>"
  note r = sched_relD [OF rel] and d = placedD [OF sched_relD(6) [OF rel]] and g = guardedI [where s = s and n = "length P" and T = T and A = A]
  have q: "queue_ok ?w (ready a)"
  proof (rule queue_ok_cong [OF r(8)])
    fix v assume "v \<in> set (ready a)"
    then have v: "v \<in> T" "v \<noteq> t" using r(3) t(2) by auto
    have "mem ?w x = mem s x" if "x \<in> region v 40" for x
      using m [OF g(1) [OF v(1) that]] d(4) [OF v(1) t(1) v(2)] d(3) [OF t(1) v(1)] that by auto
    then show "task_next (mem ?w) v = task_next (mem s) v" by (rule task_fields_cong(1))
  qed (simp_all add: load_cpu_def)
  have "apart (ready a @ [t])" using placed_apart [OF r(6)] r(3) t schedule_okD(3) [OF r(1)] by simp
  then obtain u where u: "scheduler_enqueue t ?w = Ret () u" "queue_ok u (ready a @ [t])" "task_state (mem u) t = TASK_READY"
    "u = ?w\<lparr>mem := mem u, rq_head := rq_head u, rq_tail := rq_tail u, rq_count := rq_count u\<rparr>"
    "\<forall>x. x \<notin> region (t + 16) 4 \<and> x \<notin> region (t + 32) 8 \<and> (ready a \<noteq> [] \<longrightarrow> x \<notin> region (last (ready a) + 32) 8) \<longrightarrow> mem u x = mem ?w x"
    by (rule enqueue_ok [OF q])
  have sv: "save_cpu u (P ! i) = P ! i" by (subst u(4)) (simp add: save_cpu_def load_cpu_def)
  have c: "cpu_locals u = cpu_locals s" "lapic_base u = lapic_base s" by (subst u(4), simp add: load_cpu_def)+
  have l: "log_ok u = log_ok s" "log_dirty u = log_dirty s" by (subst u(4), simp add: load_cpu_def log_ok_defs)+
  have link: "x \<notin> region (v + 32) 8 \<and> x \<notin> region (v + 16) 4" if "x \<notin> region v 40" for x v
    using part_outside [OF that, of 32 8] part_outside [OF that, of 16 4] by simp
  have um: "mem u x = m x" if "x \<notin> region (t + 16) 4" "x \<notin> region (t + 32) 8" "\<forall>v\<in>set (ready a). x \<notin> region (v + 32) 8" for x
    using u(5) that by (cases "ready a = []") auto
  have st: "mem u x = m x" if "v \<in> T" "x \<in> A v" for v x
  proof (rule um)
    have n: "x \<notin> region w 40" if "w \<in> T" for w using d(3) [OF \<open>v \<in> T\<close> that] \<open>x \<in> A v\<close> by blast
    show "x \<notin> region (t + 16) 4" "x \<notin> region (t + 32) 8" using link [OF n [OF t(1)]] by simp_all
    show "\<forall>w\<in>set (ready a). x \<notin> region (w + 32) 8" using link n r(3) by blast
  qed
  have lt: "load64 (mem u) t = load64 m t"
  proof (intro load64_cong um)
    fix x assume x: "x \<in> region t 8"
    show "x \<notin> region (t + 16) 4" "x \<notin> region (t + 32) 8"
      using separate_disjoint [OF _ x, of "t + 16" 4] separate_disjoint [OF _ x, of "t + 32" 8]
        entry_offsets [of 0 8 16 4 t] entry_offsets [of 0 8 32 8 t] by simp_all
    have x': "x \<in> region t 40" using x by (simp add: region_iff)
    show "\<forall>v\<in>set (ready a). x \<notin> region (v + 32) 8"
    proof
      fix v assume "v \<in> set (ready a)"
      then have "x \<notin> region v 40" using d(4) [OF t(1), of v] t(2) r(3) x' by auto
      then show "x \<notin> region (v + 32) 8" using link by blast
    qed
  qed
  have W: "waits A u ?b t"
  proof -
    have "saved_frame (mem u) (load64 m t) = saved_frame m (load64 m t)" using st [OF t(1)] f by (intro saved_frame_cong) blast
    then show ?thesis using lt f by (simp add: waits_def saved_context_def)
  qed
  have "sched_rel T A (u, P) ?b"
  proof (rule sched_rel_kept [OF rel, where t = t])
    show "schedule_ok ?b"
      using sched_step_ok [OF r(1), of "Submit i t (saved_context m t)"] i r(2) t(2) by simp
    show "mem u x = mem s x" if "w \<in> T" "w \<noteq> t" "x \<in> region w 40" "x \<notin> region (w + 32) 8" for w x
    proof -
      have x: "x \<notin> region t 40" using d(4) [OF that(1) t(1) that(2)] that(3) by blast
      have "x \<notin> region (v + 32) 8" if "v \<in> set (ready a)" for v
        using d(4) [OF _ \<open>w \<in> T\<close>, of v] that r(3) link [of x v] \<open>x \<in> region w 40\<close> \<open>x \<notin> region (w + 32) 8\<close> by (cases "v = w") auto
      then have "mem u x = m x" using um link [OF x] by blast
      also have "m x = mem s x" using m [OF g(1) [OF that(1,3)] x] d(3) [OF t(1) that(1)] that(3) by blast
      finally show ?thesis .
    qed
    show "mem u x = mem s x" if "w \<in> T" "w \<noteq> t" "x \<in> A w" for w x
    proof -
      have "m x = mem s x" using m [OF g(2) [OF that(1,3)]] d(3) [OF that(1) t(1)] d(5) [OF that(1) t(1) that(2)] that(3) by blast
      then show ?thesis using st [OF that(1,3)] by simp
    qed
    show "mem u x = mem s x" if j: "j < length P" "x \<in> region (cpu_entry s j) 24" for j x
    proof -
      have n: "x \<notin> region v 40" "x \<notin> A v" if "v \<in> T" for v using d(6) [OF that, of j] j r(2) by auto
      then have "mem u x = m x" using um link t(1) r(3) by blast
      then show ?thesis using m [OF g(3) [OF j]] n [OF t(1)] by simp
    qed
    fix j assume "j < length P"
    then have "j < length (on_cpu a)" using r(2) by simp
    note ci = r(10) [OF this, unfolded cpu_ok_def]
    show "regs ?b ! j = context_of (P ! j)" "region (p_rsp (P ! j) - 56) 56 \<subseteq> A (on_cpu a ! j)" using ci by simp_all
  qed (use u(2,3) c l r(3,7) t W in auto)
  then show ?thesis using u(1) sv by simp
qed

lemma work_refines:
  assumes rel: "sched_rel T A (s, P) a" and i: "i < length P" and p: "p_mmio p = p_mmio (P ! i)" "region (p_rsp p - 56) 56 \<subseteq> A (on_cpu a ! i)"
    and m: "\<And>x. x \<in> guarded T A s (length P) \<Longrightarrow> x \<notin> A (on_cpu a ! i) \<Longrightarrow> m x = mem s x"
  shows "sched_rel T A (s\<lparr>mem := m\<rparr>, P[i := p]) (a\<lparr>regs := (regs a)[i := context_of p]\<rparr>)"
proof -
  let ?o = "on_cpu a ! i" and ?b = "a\<lparr>regs := (regs a)[i := context_of p]\<rparr>"
  note r = sched_relD [OF rel] and d = placedD [OF sched_relD(6) [OF rel]] and g = guardedI [where s = s and n = "length P" and T = T and A = A]
  have i': "i < length (on_cpu a)" "i < length (regs a)" using i r(2) schedule_okD(2) [OF r(1)] by simp_all
  have o: "?o \<in> T" "?o \<in> set (on_cpu a)" using i' r(4) by auto
  have h: "m x = mem s x" if "w \<in> T" "x \<in> region w 40" for w x
    using m [OF g(1) [OF that]] d(3) [OF o(1) that(1)] that(2) by blast
  have nw: "?o \<notin> waiting ?b" using o(2) schedule_okD(6) [OF r(1)] by (auto simp: waiting_def)
  show ?thesis
  proof (rule sched_rel_kept [OF rel, where t = ?o])
    show "schedule_ok ?b" using sched_step_ok [OF r(1), of "Work i (context_of p)"] i' by simp
    show "mem (s\<lparr>mem := m\<rparr>) x = mem s x" if "w \<in> T" "x \<in> region w 40" for w x using h that by simp
    show "mem (s\<lparr>mem := m\<rparr>) x = mem s x" if "w \<in> T" "w \<noteq> ?o" "x \<in> A w" for w x
      using m [OF g(2) [OF that(1,3)]] d(5) [OF that(1) o(1) that(2)] that(3) by auto
    show "mem (s\<lparr>mem := m\<rparr>) x = mem s x" if "j < length P" "x \<in> region (cpu_entry s j) 24" for j x
      using m [OF g(3) [OF that]] d(6) [OF o(1), of j] r(2) that by auto
    show "task_state (mem (s\<lparr>mem := m\<rparr>)) ?o = task_state (mem s) ?o" using h [OF o(1)] by (intro task_fields_cong(2)) simp
    show "queue_ok (s\<lparr>mem := m\<rparr>) (ready ?b)"
      by (rule queue_ok_cong [of s "ready ?b"], use r(8) in simp, rule task_fields_cong(1)) (use r(3) h in auto)
    fix j assume j: "j < length P"
    then have "j < length (on_cpu a)" using r(2) by simp
    note ci = r(10) [OF this, unfolded cpu_ok_def]
    show "p_mmio (P[i := p] ! j) = p_mmio (P ! j)" using p(1) i by (cases "j = i") simp_all
    show "regs ?b ! j = context_of (P[i := p] ! j)" "region (p_rsp (P[i := p] ! j) - 56) 56 \<subseteq> A (on_cpu a ! j)"
      using ci i i' p(2) by (cases "j = i"; simp)+
  qed (use nw r(3,7) in \<open>auto simp: waiting_def\<close>)
qed

section \<open>The machine refines the schedules\<close>

lemma machine_step_refines:
  assumes rel: "sched_rel T A c a" and al: "allowed T A e c"
  shows "\<exists>d b. machine_step e c = Some d \<and> sched_step (schedule_event e) a = Some b \<and> sched_rel T A d b"
proof -
  obtain s P where c: "c = (s, P)" by fastforce
  note rel' = rel [unfolded c]
  note r = sched_relD [OF rel']
  have busy: "cpu_current (mem s) (cpu_entry s i) = on_cpu a ! i" "cpu_current (mem s) (cpu_entry s i) = cpu_idle (mem s) (cpu_entry s i) \<longleftrightarrow> idles i a"
    "i < length (on_cpu a)" if "i < length P" for i
    using r(10) [of i] r(2) that by (auto simp: cpu_ok_def idles_def)
  show ?thesis
  proof (cases e)
    case (MYield i ret)
    then have i: "i < length P" "\<not> idles i a" using al busy by (auto simp: c)
    from yield_refines [OF rel' this, of ret] show ?thesis using i busy(3) by (auto simp: MYield c on_processor_def)
  next
    case (MExit i ret)
    then have i: "i < length P" "\<not> idles i a" using al busy by (auto simp: c)
    from exit_refines [OF rel' this, of ret] show ?thesis using i busy(3) by (auto simp: MExit c on_processor_def)
  next
    case (MPick i ret)
    then have i: "i < length P" "idles i a" using al busy by (auto simp: c)
    then obtain b u where "worker_step ret (cpu_entry s i) (load_cpu (P ! i) s) = Ret b u"
      "sched_rel T A (u, P[i := save_cpu u (P ! i)]) (case ready a of [] \<Rightarrow> a | t # q \<Rightarrow> resched i ret t q a)"
      using worker_refines [OF rel' i] by blast
    then show ?thesis using i busy(3) by (auto simp: MPick c on_processor_def)
  next
    case (MSubmit i t m)
    then have g: "i < length P" "t \<in> T" "\<not> in_use (s, P) t" "region (load64 m t) 56 \<subseteq> A t"
      "\<And>x. x \<in> guarded T A s (length P) \<Longrightarrow> x \<notin> region t 40 \<Longrightarrow> x \<notin> A t \<Longrightarrow> m x = mem s x"
      using al by (auto simp: c)
    have "t \<notin> set (ready a)" using g(3) r(8) by (auto simp: in_use_def)
    moreover have "t \<noteq> on_cpu a ! j \<and> t \<noteq> idle_of a ! j" if "j < length (on_cpu a)" for j
      using g(3) r(10) [OF that] r(2) that by (auto simp: in_use_def cpu_ok_def)
    then have "t \<notin> set (on_cpu a)" "t \<notin> set (idle_of a)" using schedule_okD(1) [OF r(1)] by (auto simp: in_set_conv_nth)
    ultimately have n: "t \<notin> set (ready a @ on_cpu a @ idle_of a)" by simp
    show ?thesis using submit_refines [OF rel' g(1,2) n g(4,5)] busy(3) [OF g(1)] n by (auto simp: MSubmit c on_processor_def)
  next
    case (MWork i p m)
    then have g: "i < length P" "p_mmio p = p_mmio (P ! i)" "region (p_rsp p - 56) 56 \<subseteq> A (on_cpu a ! i)"
      "\<And>x. x \<in> guarded T A s (length P) \<Longrightarrow> x \<notin> A (on_cpu a ! i) \<Longrightarrow> m x = mem s x"
      using al busy(1) by (auto simp: c)
    show ?thesis using work_refines [OF rel' g] busy(3) [OF g(1)] by (simp add: MWork c)
  qed
qed

abbreviation machine_runs :: "u64 set \<Rightarrow> (u64 \<Rightarrow> u64 set) \<Rightarrow> machine \<Rightarrow> machine_event list \<Rightarrow> machine \<Rightarrow> bool" where
  "machine_runs T A \<equiv> guarded_runs (allowed T A) machine_step"

lemma machine_move: "allowed T A e c \<Longrightarrow> machine_step e c = Some d \<Longrightarrow> machine_runs T A c [e] d"
  by (rule one_move)

interpretation sched: simulation "allowed T A" machine_step sched_step schedule_event "sched_rel T A" for T A
  by unfold_locales (rule machine_step_refines)

text \<open>What the relation says of the memory of a machine.\<close>

lemma sched_rel_exclusive:
  assumes "sched_rel T A (s, P) a" and "i < length P" and "j < length P" and "i \<noteq> j"
  shows "cpu_current (mem s) (cpu_entry s i) \<noteq> cpu_current (mem s) (cpu_entry s j)"
    and "cpu_current (mem s) (cpu_entry s i) \<noteq> cpu_idle (mem s) (cpu_entry s j)"
    and "cpu_current (mem s) (cpu_entry s i) \<notin> set (ready a)"
proof -
  note r = sched_relD [OF assms(1)]
  have ij: "i < length (on_cpu a)" "j < length (on_cpu a)" using assms(2,3) r(2) by simp_all
  note o = schedule_okD [OF r(1)] and ci = r(10) [OF ij(1), unfolded cpu_ok_def] and cj = r(10) [OF ij(2), unfolded cpu_ok_def]
  show "cpu_current (mem s) (cpu_entry s i) \<noteq> cpu_current (mem s) (cpu_entry s j)"
    using ci cj o(4) ij assms(4) by (simp add: nth_eq_iff_index_eq)
  have "on_cpu a ! i \<noteq> idle_of a ! j"
    using o(8) [OF ij(1)] o(1,5) ij assms(4) by (auto simp: idles_def nth_eq_iff_index_eq)
  then show "cpu_current (mem s) (cpu_entry s i) \<noteq> cpu_idle (mem s) (cpu_entry s j)" using ci cj by simp
  have "on_cpu a ! i \<in> set (on_cpu a)" using ij by simp
  then show "cpu_current (mem s) (cpu_entry s i) \<notin> set (ready a)" using ci o(6) by auto
qed

section \<open>Properties\<close>

text \<open>
  Two processors for the witnesses: processor 0 idles in the task at \<open>0x720000\<close>, processor 1 runs the task at \<open>0x700000\<close> and has the idle task
  at \<open>0x730000\<close>; the task at \<open>0x710000\<close> waits. The stack of the task at \<open>t\<close> is the 64 KiB at \<open>t - 0x100000\<close>.
\<close>

definition demo_tasks :: "u64 set" where
  "demo_tasks = {0x700000, 0x710000, 0x720000, 0x730000}"

definition demo_stack :: "u64 \<Rightarrow> u64 set" where
  "demo_stack t = region (t - 0x100000) 0x10000"

definition demo_shared :: sched_st where
  "demo_shared = demo_sched\<lparr>mem := (\<lambda>_. 0)(0x500002 := 0x72, 0x50000A := 0x72, 0x50001A := 0x70, 0x500022 := 0x73, 0x700010 := 1,
     0x710002 := 0x61, 0x730002 := 0x63), rq_head := 0x710000, rq_tail := 0x710000, rq_count := 1\<rparr>"

definition demo_cpu :: "u64 \<Rightarrow> u64 \<Rightarrow> processor" where
  "demo_cpu ident sp = \<lparr>p_mmio = (\<lambda>_ _. push_bit 24 ident), p_rsp = sp, p_rbp = 1, p_rbx = 2, p_r12 = 3, p_r13 = 4, p_r14 = 5, p_r15 = 6, p_rip = 0\<rparr>"

definition demo_machine :: machine where
  "demo_machine = (demo_shared, [demo_cpu 0 0x621000, demo_cpu 1 0x601000])"

definition demo_schedule :: schedule where
  "demo_schedule = \<lparr>ready = [0x710000], on_cpu = [0x720000, 0x700000], idle_of = [0x720000, 0x730000],
     regs = [context_of (demo_cpu 0 0x621000), context_of (demo_cpu 1 0x601000)], saved = saved_context (mem demo_shared)\<rparr>"

lemma region_disjoint: "separate a n b k \<Longrightarrow> region a n \<inter> region b k = {}"
  using separate_disjoint by blast

lemma demo_placed: "placed demo_tasks demo_stack demo_shared 2"
proof -
  have e: "cpu_entries demo_shared 2 = region 0x500000 24 \<union> region 0x500018 24"
    by (simp add: cpu_entries_def cpu_entry_def numeral_2_eq_2 lessThan_Suc demo_shared_def Un_commute)
  have l: "log_dirty demo_shared = region 0x800000 48 \<union> region 0xFD000000 128"
  proof -
    have "log_dirty demo_shared = log_dirty demo_sched" by (simp add: demo_shared_def log_ok_defs)
    then show ?thesis using demo_sched_log(2) span_region [of "0x800000" 48] span_region [of "0xFD000000" 128] by simp
  qed
  show ?thesis
    unfolding placed_def demo_tasks_def demo_stack_def e l
    by (simp add: Int_Un_distrib Int_Un_distrib2 region_disjoint separate_def)
qed

lemma demo_machine_fields:
  "cpu_entry demo_shared 0 = 0x500000" "cpu_entry demo_shared (Suc 0) = 0x500018"
  "cpu_current (mem demo_shared) 0x500000 = 0x720000" "cpu_idle (mem demo_shared) 0x500000 = 0x720000"
  "cpu_current (mem demo_shared) 0x500018 = 0x700000" "cpu_idle (mem demo_shared) 0x500018 = 0x730000"
  "load64 (mem demo_shared) 0x710000 = 0x610000" "load64 (mem demo_shared) 0x730000 = 0x630000"
  "task_state (mem demo_shared) 0x700000 = 1" "task_state (mem demo_shared) 0x710000 = 0" "task_next (mem demo_shared) 0x710000 = 0"
  by (simp_all add: demo_shared_def cpu_entry_def cpu_current_def cpu_idle_def task_state_def task_next_def load64_bytes load32_bytes)

lemma demo_machine_rel: "sched_rel demo_tasks demo_stack demo_machine demo_schedule"
proof -
  have g: "region f 56 \<subseteq> region b 0x10000" if "unat (f - b) + 56 \<le> 0x10000" for f b :: u64
  proof
    fix x assume "x \<in> region f 56"
    then show "x \<in> region b 0x10000" using part_outside [of x b "0x10000" "unat (f - b)" 56] that by auto
  qed
  have st: "region 0x610000 56 \<subseteq> demo_stack 0x710000" "region 0x630000 56 \<subseteq> demo_stack 0x730000"
    "region (0x601000 - 56) 56 \<subseteq> demo_stack 0x700000" "region (0x621000 - 56) 56 \<subseteq> demo_stack 0x720000"
    unfolding demo_stack_def by (rule g; simp)+
  have q: "queue_ok demo_shared [0x710000]" using demo_machine_fields(11) by (simp add: queue_ok_def demo_shared_def)
  have c: "cpu_ok demo_stack demo_shared (demo_cpu 0 0x621000) demo_schedule 0" "cpu_ok demo_stack demo_shared (demo_cpu 1 0x601000) demo_schedule (Suc 0)"
    using st(3,4) demo_machine_fields
    by (simp_all add: cpu_ok_def demo_schedule_def demo_cpu_def idles_def running_def TASK_RUNNING_def)
  have w: "waits demo_stack demo_shared demo_schedule 0x710000" "waits demo_stack demo_shared demo_schedule 0x730000"
    using st(1,2) demo_machine_fields by (simp_all add: waits_def demo_schedule_def)
  have wt: "waiting demo_schedule = {0x710000, 0x730000}" by (auto simp: waiting_def demo_schedule_def)
  have "log_ok demo_shared = log_ok demo_sched" by (simp add: demo_shared_def log_ok_defs)
  then have l: "log_ok demo_shared" using demo_sched_log(1) by simp
  have ok: "schedule_ok demo_schedule" by (simp add: schedule_ok_def demo_schedule_def idles_def less_Suc_eq)
  show ?thesis
    unfolding sched_rel_def demo_machine_def prod.case wt
    using ok q c w l demo_placed demo_machine_fields(10)
    by (simp add: less_Suc_eq numeral_2_eq_2) (simp add: demo_schedule_def demo_tasks_def TASK_READY_def)
qed

text \<open>
  C7. Several processors that yield, exit, look for work and submit tasks in any order refine the abstract schedules: every allowed call
  returns, and after any run of such calls memory holds the queue, the current tasks and the contexts that the schedule says. In particular
  a task that gave up its processor continues with the registers, the stack pointer and the return address it had, whichever processor
  takes it.
\<close>

theorem machine_refines_schedule:
  assumes "sched_rel T A c a" and "machine_runs T A c es d"
  shows "\<exists>b. sched_run (map schedule_event es) a = Some b \<and> sched_rel T A d b \<and> (\<forall>e. allowed T A e d \<longrightarrow> machine_step e d \<noteq> None)"
  using sched.runs_related [OF assms(2,1)] sched.progress by blast

theorem machine_refines_schedule_witness:
  "\<exists>d b. machine_runs demo_tasks demo_stack demo_machine [MPick 0 0x1234] d \<and> sched_run [Pick 0 0x1234] demo_schedule = Some b \<and>
    sched_rel demo_tasks demo_stack d b \<and> on_cpu b = [0x710000, 0x700000]"
proof -
  have al: "allowed demo_tasks demo_stack (MPick 0 0x1234) demo_machine"
    using demo_machine_fields by (simp add: demo_machine_def)
  obtain d where d: "machine_step (MPick 0 0x1234) demo_machine = Some d"
    using machine_refines_schedule [OF demo_machine_rel guarded_runs.start] al by blast
  have r: "machine_runs demo_tasks demo_stack demo_machine [MPick 0 0x1234] d"
    by (rule machine_move [OF al d])
  from machine_refines_schedule [OF demo_machine_rel r] obtain b
    where b: "sched_run [Pick 0 0x1234] demo_schedule = Some b" "sched_rel demo_tasks demo_stack d b" by auto
  then have "on_cpu b = [0x710000, 0x700000]" by (auto simp: demo_schedule_def idles_def)
  then show ?thesis using r b by blast
qed

text \<open>
  C8. No task is ever in two places: in every state that processors reach by allowed calls, two processors have different current tasks,
  none runs the idle task of another one, and no current task is in the run queue, whose links are intact and whose tasks are all ready.
\<close>

theorem no_task_in_two_places:
  assumes "sched_rel T A c a" and "machine_runs T A c es (s, P)" and "i < length P" and "j < length P" and "i \<noteq> j"
  shows "cpu_current (mem s) (cpu_entry s i) \<noteq> cpu_current (mem s) (cpu_entry s j) \<and>
    cpu_current (mem s) (cpu_entry s i) \<noteq> cpu_idle (mem s) (cpu_entry s j) \<and>
    (\<exists>ts. queue_ok s ts \<and> cpu_current (mem s) (cpu_entry s i) \<notin> set ts \<and> (\<forall>t\<in>set ts. task_state (mem s) t = TASK_READY))"
proof -
  obtain b where b: "sched_rel T A (s, P) b" using sched.runs_related [OF assms(2,1)] by blast
  show ?thesis using sched_rel_exclusive [OF b assms(3-5)] sched_relD(8,9) [OF b] by blast
qed

theorem no_task_in_two_places_witness:
  "\<exists>s P. machine_runs demo_tasks demo_stack demo_machine [MExit 1 0x1234] (s, P) \<and>
    cpu_current (mem s) (cpu_entry s 0) \<noteq> cpu_current (mem s) (cpu_entry s 1)"
proof -
  have al: "allowed demo_tasks demo_stack (MExit 1 0x1234) demo_machine"
    using demo_machine_fields by (simp add: demo_machine_def)
  from sched.step_law [OF demo_machine_rel this] obtain d b where d: "machine_step (MExit 1 0x1234) demo_machine = Some d"
    "sched_step (Exit 1 0x1234) demo_schedule = Some b" "sched_rel demo_tasks demo_stack d b" by auto
  obtain s P where sP: "d = (s, P)" by fastforce
  have r: "machine_runs demo_tasks demo_stack demo_machine [MExit 1 0x1234] (s, P)"
    using machine_move [OF al d(1)] sP by simp
  have "length P = 2" using d(2) sched_relD(2) [OF d(3) [unfolded sP]] by (auto simp: demo_schedule_def idles_def split: if_splits)
  then show ?thesis using r no_task_in_two_places [OF demo_machine_rel r, of 0 1] by auto
qed

text \<open>
  C9. Every waiting task gets its turn: the task at position \<open>k\<close> of the run queue runs on the processor that makes the call number
  \<open>k + 1\<close> of those that take a task (a yield, an exit or a look for work), whichever processors make them and whatever tasks
  arrive or compute in between.
\<close>

theorem waiting_task_runs:
  assumes "sched_rel T A c a" and "machine_runs T A c (es @ [e]) (s, P)" and "k < length (ready a)"
    and "turns (map schedule_event es) = k" and "takes (schedule_event e) = Some i"
  shows "cpu_current (mem s) (cpu_entry s i) = ready a ! k"
proof -
  obtain b where b: "sched_run (map schedule_event es @ [schedule_event e]) a = Some b" "sched_rel T A (s, P) b"
    using sched.runs_related [OF assms(2,1)] by auto
  note t = sched_run_turn [OF b(1) assms(3-5)]
  show ?thesis using t(1) sched_relD(10) [OF b(2) t(2)] by (simp add: cpu_ok_def)
qed

theorem waiting_task_runs_witness:
  "\<exists>s P. machine_runs demo_tasks demo_stack demo_machine [MYield 1 0x1234] (s, P) \<and> cpu_current (mem s) (cpu_entry s 1) = 0x710000"
proof -
  have al: "allowed demo_tasks demo_stack (MYield 1 0x1234) demo_machine"
    using demo_machine_fields by (simp add: demo_machine_def)
  from sched.step_law [OF demo_machine_rel this] obtain s P where d: "machine_step (MYield 1 0x1234) demo_machine = Some (s, P)" by auto
  have r: "machine_runs demo_tasks demo_stack demo_machine ([] @ [MYield 1 0x1234]) (s, P)"
    using machine_move [OF al d] by simp
  have "cpu_current (mem s) (cpu_entry s 1) = 0x710000"
    using waiting_task_runs [OF demo_machine_rel r, of 0 1] by (simp add: demo_schedule_def turns_def)
  then show ?thesis using r by auto
qed

end
