(* ===== verification/Spec2Isabelle.thy ===== *)
theory Spec2Isabelle
  imports Kernel_Boot Scheduler_Init Sched_Machine
begin

text \<open>
  A verification library for the Neko OS kernel, the C code under \<^verbatim>\<open>src/kernel\<close>, \<^verbatim>\<open>src/drivers\<close>, \<^verbatim>\<open>src/lib\<close> and
  \<^verbatim>\<open>src/include\<close>.

  \<^bold>\<open>The program.\<close> A 64-bit kernel for PCs. \<^verbatim>\<open>kernel_main\<close> starts the serial port, the interrupt table, its own page tables, the heap,
  the console on the boot loader's framebuffer, the ACPI tables, the local interrupt controller and the event timer, then the
  scheduler and the other processors; finally every processor takes tasks from one run queue.

  \<^bold>\<open>How the code is modelled.\<close> Memory is a function from 64-bit addresses to bytes, and structures are read and written at their byte
  offsets. C integers are words of their width; an \<open>int\<close> that may be negative is an \<open>int\<close> kept in 32 bits. The static variables of a
  C file are the fields of a record that extends the record of the file below it (\<open>hw\<close>, \<open>paging_st\<close>, \<open>fb_st\<close>, \<open>font_st\<close>, \<open>con_st\<close>,
  \<open>log_st\<close>, \<open>heap_st\<close>, \<open>acpi_st\<close>, \<open>dev_st\<close>, \<open>sched_st\<close>, \<open>smp_st\<close>), so that an operation of a lower layer applies to every higher state.
  Every C function is a HOL function from arguments and state to an \<open>outcome\<close>: \<open>Ret\<close> with a value and a state, \<open>Panic\<close> when it ends in
  \<^verbatim>\<open>kpanic\<close>, \<open>Hang\<close> when one of its loops never ends, \<open>Undef\<close> where C leaves the behaviour open (division by zero, reading past a
  terminator). Functions that cannot fail return just the state. Devices are functions of time: \<open>port_in\<close>, \<open>mmio_in\<close> and \<open>tsc\<close> give what
  the n-th read returns, each read advances \<open>now\<close>, and writes to devices are recorded in \<open>events\<close>. No bound or fuel is used: loops over
  a counter end by their measure, and all other loops are \<open>partial_function (option)\<close> behind \<open>poll\<close>, \<open>loop\<close>, \<open>first_fit\<close>, \<open>coalesce\<close> and
  \<open>madt_scan\<close>, where \<open>None\<close> means that the loop never ends; that they do end is part of the theorems. The bound of 30 GiB in \<open>Boot_Paging\<close> is that of the code: its pool
  holds 32 tables, the root, one table below it and one for each GiB.

  \<^bold>\<open>The theories.\<close>
  \<^item> \<^verbatim>\<open>Prelude\<close>: outcomes, loops, arithmetic of aligned words.
  \<^item> \<^verbatim>\<open>Memory\<close> (\<^verbatim>\<open>kernel/mem.c\<close>): byte memory, regions, little-endian access, and the four memory routines against their meaning.
  \<^item> \<^verbatim>\<open>Hardware\<close> (\<^verbatim>\<open>include/x86.h\<close>): ports, device memory, interrupt flag, accesses through a segment, special registers.
  \<^item> \<^verbatim>\<open>Spinlock\<close> (\<^verbatim>\<open>include/spinlock.h\<close>): the lock of one processor, and mutual exclusion over all interleavings as a step relation.
  \<^item> \<^verbatim>\<open>Serial\<close>, \<^verbatim>\<open>Printf\<close>, \<^verbatim>\<open>Printf_Spec\<close> (\<^verbatim>\<open>drivers/serial.c\<close>, \<^verbatim>\<open>lib/sprintf.c\<close>, \<^verbatim>\<open>kernel/panic.c\<close>): formatted output, generic in the
    function that puts a character, equal to a reference text for every format, whose specifications the reference reads on its own;
    a live port sends it.
  \<^item> \<^verbatim>\<open>Paging\<close>, \<^verbatim>\<open>Paging_Spec\<close>, \<^verbatim>\<open>Paging_Init\<close>, \<^verbatim>\<open>Boot_Paging\<close> (\<^verbatim>\<open>drivers/paging.c\<close>): the tables as a tree in memory; every mapping function
    changes the processor's translation exactly as asked, and the address space that the initialisation leaves is known page by page.
  \<^item> \<^verbatim>\<open>Framebuffer\<close>, \<^verbatim>\<open>Font\<close>, \<^verbatim>\<open>Console\<close>, \<^verbatim>\<open>Console_Spec\<close>, \<^verbatim>\<open>Console_Init\<close> (\<^verbatim>\<open>drivers/framebuffer.c\<close>, \<^verbatim>\<open>drivers/font.c\<close>,
    \<^verbatim>\<open>lib/console.c\<close>): drawing as painting of pixels; the console refines a terminal of cells, and the screen shows the cells.
  \<^item> \<^verbatim>\<open>Klog\<close> (\<^verbatim>\<open>lib/klogf.c\<close>): one message on both outputs under a lock, and what a message leaves alone.
  \<^item> \<^verbatim>\<open>Alloc\<close> (\<^verbatim>\<open>lib/alloc.c\<close>): the heap as a list of blocks in memory; first fit, release and merging on that list, and the locale
    \<open>allocator\<close>, the contract that its clients use.
  \<^item> \<^verbatim>\<open>Multiboot\<close>, \<^verbatim>\<open>Acpi\<close> (\<^verbatim>\<open>kernel/multiboot2.c\<close>, \<^verbatim>\<open>drivers/acpi.c\<close>, \<^verbatim>\<open>drivers/madt.c\<close>): walks over tables that firmware and boot
    loader leave in memory.
  \<^item> \<^verbatim>\<open>Lapic\<close>, \<^verbatim>\<open>Interrupts\<close> (\<^verbatim>\<open>drivers/lapic.c\<close>, \<^verbatim>\<open>drivers/hpet.c\<close>, \<^verbatim>\<open>drivers/idt.c\<close>, \<^verbatim>\<open>drivers/gdt.c\<close>, \<^verbatim>\<open>drivers/pic.c\<close>): device
    registers, waiting on devices, gates and descriptors.
  \<^item> \<^verbatim>\<open>Scheduler\<close>, \<^verbatim>\<open>Scheduler_Spec\<close>, \<^verbatim>\<open>Scheduler_Init\<close>, \<^verbatim>\<open>Yield\<close> (\<^verbatim>\<open>drivers/scheduler.c\<close> and the switch in \<^verbatim>\<open>drivers/scheduler.nasm\<close>): the run queue is an instance
    of the locale \<open>fifo\<close>; switching saves and restores a task; what a yield does from a running or stopped task, without a current task,
    and from an idle task to itself; a new task is null exactly when the heap has no room;
    the initialisation gives every processor an idle task when the heap has room.
  \<^item> \<^verbatim>\<open>Schedule\<close>, \<^verbatim>\<open>Sched_Machine\<close>: an abstract schedule (queue, current tasks, contexts) with its invariant and waiting times, and several
    processors with shared memory that call yield, exit, the worker's look for work and the enqueueing of new tasks in any order; the
    locale \<open>simulation\<close> carries the refinement of runs. A call is one step there, and idle processors do not yield.
    Both restrictions matter: inside \<open>scheduler_yield\<close> the old task is in the queue before its stack pointer is saved, and a yield of an idle
    task would put it into the queue where another processor can take it.
  \<^item> \<^verbatim>\<open>Smp\<close>, \<^verbatim>\<open>Smp_Spec\<close> (\<^verbatim>\<open>drivers/smp.c\<close>): the start of the other processors; what they add to the shared count is a function of time.
  \<^item> \<^verbatim>\<open>Kernel\<close>, \<^verbatim>\<open>Kernel_Boot\<close> (\<^verbatim>\<open>kernel/main.c\<close>): the order of initialisation; serial line, interrupt table, page tables and heap together.

  \<^bold>\<open>Interaction.\<close> Clients of the log use \<open>logged\<close> and \<open>log_frame\<close>: a message changes time, events, cursor and colours, and memory only in
  \<open>log_dirty\<close>, the console's cells and the screen. Clients of the heap use \<open>heap_holds\<close>, the set of allocated blocks; the console's own
  buffer is one of them, which is why the heap's invariant allows the log to write into allocated blocks only.

  \<^bold>\<open>Assumptions.\<close> The hypotheses name what the code relies on: a serial port that becomes ready again and again (\<open>uart_live\<close>), the
  log lock free at the start, areas of memory that do not overlap, tag and table lists that end, devices that answer. For the event timer that means a
  counter that later reads at least the length of a wait ahead of any reading (\<open>hpet_live\<close>, shown for a counter that advances steadily); the
  code never returns from a wait on a counter of 32 bits that wraps around before the target (\<open>hpet_32_bits_hangs\<close>). Compiler and
  processor are taken at their word: no caches, no reordering, no interrupt inside an operation. Operations of several processors
  interleave in \<open>Spinlock\<close>, access by access, and in \<open>Sched_Machine\<close>, call by call; elsewhere an operation runs alone, with the other
  processors seen through \<open>aps_others\<close>.

  \<^bold>\<open>Not modelled.\<close> The assembly of the boot path, the trampoline and the interrupt stubs (\<^verbatim>\<open>boot/\<close>, \<^verbatim>\<open>drivers/ap_trampoline.nasm\<close>,
  \<^verbatim>\<open>drivers/idt.nasm\<close>): the C code uses only their addresses, which are parameters here. The 32-bit variants in
  \<^verbatim>\<open>include/x86.h\<close>, which the build does not select, declarations without code, empty files, the build. The signed overflow of a width or
  precision of ten or more digits in a format wraps around in the model, where C leaves it open, and the counters of the padding loops
  are unbounded integers; both differ from the code only for widths near the limit of an \<^verbatim>\<open>int\<close>, which no format of the kernel has. A null
  task, a processor number of 16 or more and a null console buffer give plain accesses at the address that the code computes. After the first switch of
  \<open>cpu_enter_worker\<close> the processor runs task code, which is outside the model; the state of the registers at that point is part of the
  result, and \<open>Sched_Machine\<close> takes each later round of the worker loop as a step of its own.
\<close>

end
